(* ===== verification/Prelude.thy ===== *)
theory Prelude
  imports Main "HOL-Library.Sublist"
begin

text \<open>
  Generic material shared by every component: the fact collections of the development,
  lemmas on lists and options, and the type names the models use. Nothing here speaks
  about a particular program part.

  Python \<open>str\<close> values are modelled as \<^typ>\<open>string\<close>, that is as lists of characters with code
  points below 256. An exception is the left injection of a sum type.
\<close>

section \<open>Names and collections\<close>

text \<open>The exceptions the modelled code can raise.\<close>

datatype py_error = AttributeError | TypeError | KeyError | ValueError | IndexError | OSError | TimeoutExpired

type_synonym 'a result = "py_error + 'a"

text \<open>
  \<open>path_simps\<close> collects what the string operations on paths do to appended and consed
  strings; \<open>scan_simps\<close> the equations of the character scanners.
\<close>

named_theorems path_simps \<open>string and path operations on composed strings\<close>
named_theorems scan_simps \<open>one-step equations of the character scanners\<close>
named_theorems shrink_intros \<open>operations that never lengthen or enlarge a string\<close>

section \<open>Results\<close>

definition bind_res :: "'a result \<Rightarrow> ('a \<Rightarrow> 'b result) \<Rightarrow> 'b result" where
  "bind_res r f = (case r of Inl e \<Rightarrow> Inl e | Inr x \<Rightarrow> f x)"

lemma bind_res_simps [simp]:
  "bind_res (Inl e) f = Inl e"
  "bind_res (Inr x) f = f x"
  by (simp_all add: bind_res_def)

lemma bind_res_eq_Inr:
  "bind_res r f = Inr y \<longleftrightarrow> (\<exists>x. r = Inr x \<and> f x = Inr y)"
  by (cases r) auto

section \<open>Lists\<close>

lemma dropWhile_suffix: "suffix (dropWhile P xs) xs"
  by (metis suffixI takeWhile_dropWhile_id)

lemma sublist_setD: "sublist xs ys \<Longrightarrow> set xs \<subseteq> set ys"
  by (auto simp: sublist_def)

lemma count_filter_sublist: "sublist xs ys \<Longrightarrow> length (filter P xs) \<le> length (filter P ys)"
  by (auto simp: sublist_def)

lemma suffix_shorter:
  assumes "suffix xs ys" and "xs \<noteq> ys"
  shows "length xs < length ys"
proof -
  from assms have "strict_suffix xs ys"
    by (simp add: strict_suffix_def)
  then show ?thesis
    by (rule suffix_length_less)
qed

lemma list_all_butlast: "list_all P xs \<Longrightarrow> list_all P (butlast xs)"
  by (auto simp: list_all_iff dest: in_set_butlastD)

text \<open>\<open>shorter xs ys\<close> compares lengths by walking both lists once.\<close>

fun shorter :: "'a list \<Rightarrow> 'b list \<Rightarrow> bool" where
  "shorter xs [] = False"
| "shorter [] (y # ys) = True"
| "shorter (x # xs) (y # ys) = shorter xs ys"

lemma shorter_iff [simp]: "shorter xs ys \<longleftrightarrow> length xs < length ys"
  by (induction xs ys rule: shorter.induct) auto

lemma shorter_length [termination_simp]: "shorter xs ys \<Longrightarrow> length xs < length ys"
  by simp

text \<open>An element of a set that stands after a stretch of elements with a property.\<close>

lemma ex_takeWhile:
  assumes "\<And>l. l \<in> L \<Longrightarrow> P l"
  shows "(\<exists>ls l z. v = ls @ l # z \<and> list_all P ls \<and> l \<in> L) \<longleftrightarrow>
    list_ex (\<lambda>c. c \<in> L) (takeWhile P v)"
proof
  assume "\<exists>ls l z. v = ls @ l # z \<and> list_all P ls \<and> l \<in> L"
  then show "list_ex (\<lambda>c. c \<in> L) (takeWhile P v)"
    using assms by (auto simp: list_all_iff)
next
  assume "list_ex (\<lambda>c. c \<in> L) (takeWhile P v)"
  then obtain l where l: "l \<in> set (takeWhile P v)" "l \<in> L"
    by (auto simp: list_ex_iff)
  then obtain ls z where "takeWhile P v = ls @ l # z"
    by (auto dest: split_list)
  moreover from this have "list_all P ls"
    using set_takeWhileD [of _ P v] by (auto simp: list_all_iff)
  moreover have "v = takeWhile P v @ dropWhile P v"
    by simp
  ultimately show "\<exists>ls l z. v = ls @ l # z \<and> list_all P ls \<and> l \<in> L"
    using l(2) by (metis append_assoc append_Cons)
qed

end
