(* ===== verification/Py_String.thy ===== *)
theory Py_String
  imports Prelude
begin

text \<open>
  The methods of Python's \<open>str\<close> and the functions of \<open>os.path\<close> that only look at the
  spelling of a path, as far as the scripts use them. Characters are code points below
  256; the classes \<open>\s\<close>, \<open>\w\<close> and the case mapping are those of Python on that range.
\<close>

section \<open>Character classes\<close>

definition code :: "char \<Rightarrow> nat" where
  "code c = of_char c"

text \<open>\<open>str.isspace\<close>, also the class \<open>\s\<close> of a \<open>str\<close> pattern.\<close>

definition is_space :: "char \<Rightarrow> bool" where
  "is_space c \<longleftrightarrow> (9 \<le> code c \<and> code c \<le> 13) \<or> (28 \<le> code c \<and> code c \<le> 32)
     \<or> code c = 133 \<or> code c = 160"

definition is_lower_az :: "char \<Rightarrow> bool" where
  "is_lower_az c \<longleftrightarrow> 97 \<le> code c \<and> code c \<le> 122"

definition is_upper_az :: "char \<Rightarrow> bool" where
  "is_upper_az c \<longleftrightarrow> 65 \<le> code c \<and> code c \<le> 90"

definition is_digit09 :: "char \<Rightarrow> bool" where
  "is_digit09 c \<longleftrightarrow> 48 \<le> code c \<and> code c \<le> 57"

definition is_alpha_az :: "char \<Rightarrow> bool" where
  "is_alpha_az c \<longleftrightarrow> is_lower_az c \<or> is_upper_az c"

definition is_alnum_az :: "char \<Rightarrow> bool" where
  "is_alnum_az c \<longleftrightarrow> is_alpha_az c \<or> is_digit09 c"

text \<open>The alphanumeric characters from 128 to 255.\<close>

definition is_alnum_high :: "char \<Rightarrow> bool" where
  "is_alnum_high c \<longleftrightarrow> code c \<in> {170, 178, 179, 181, 185, 186, 188, 189, 190}
     \<or> (192 \<le> code c \<and> code c \<noteq> 215 \<and> code c \<noteq> 247)"

text \<open>\<open>str.isalnum\<close>, and the class \<open>\w\<close>.\<close>

definition is_alnum :: "char \<Rightarrow> bool" where
  "is_alnum c \<longleftrightarrow> is_alnum_az c \<or> is_alnum_high c"

definition is_word :: "char \<Rightarrow> bool" where
  "is_word c \<longleftrightarrow> is_alnum c \<or> c = CHR ''_''"

text \<open>\<open>[A-Za-z_]\<close> and \<open>[A-Za-z0-9_]\<close>, the characters of shell names.\<close>

definition is_name_start :: "char \<Rightarrow> bool" where
  "is_name_start c \<longleftrightarrow> is_alpha_az c \<or> c = CHR ''_''"

definition is_name_char :: "char \<Rightarrow> bool" where
  "is_name_char c \<longleftrightarrow> is_alnum_az c \<or> c = CHR ''_''"

text \<open>
  The same classes on the bits of a character: these equations are what evaluation uses.
\<close>

lemma code_Char: "code (Char b0 b1 b2 b3 b4 b5 b6 b7) =
   of_bool b0 + 2 * (of_bool b1 + 2 * (of_bool b2 + 2 * (of_bool b3 + 2 * (of_bool b4
     + 2 * (of_bool b5 + 2 * (of_bool b6 + 2 * of_bool b7))))))"
  by (simp add: code_def of_char_def)

lemma is_space_code [code]:
  "is_space (Char b0 b1 b2 b3 b4 b5 b6 b7) \<longleftrightarrow>
     (if b7 then \<not> b6 \<and> (b5 \<and> \<not> b4 \<and> \<not> b3 \<and> \<not> b2 \<and> \<not> b1 \<and> \<not> b0
                 \<or> \<not> b5 \<and> \<not> b4 \<and> \<not> b3 \<and> b2 \<and> \<not> b1 \<and> b0)
      else \<not> b6 \<and> (if b5 then \<not> b4 \<and> \<not> b3 \<and> \<not> b2 \<and> \<not> b1 \<and> \<not> b0
                  else b3 \<and> (if b4 then b2 else (b2 \<longrightarrow> \<not> b1) \<and> (b2 \<or> b1 \<or> b0))))"
  by (cases b0; cases b1; cases b2; cases b3; cases b4; cases b5; cases b6; cases b7)
    (simp_all add: is_space_def code_Char)

lemma is_digit09_code [code]:
  "is_digit09 (Char b0 b1 b2 b3 b4 b5 b6 b7) \<longleftrightarrow>
     \<not> b7 \<and> \<not> b6 \<and> b5 \<and> b4 \<and> (b3 \<longrightarrow> \<not> b2 \<and> \<not> b1)"
  by (cases b0; cases b1; cases b2; cases b3; cases b4; cases b5; cases b6; cases b7)
    (simp_all add: is_digit09_def code_Char)

lemma is_alpha_az_code [code]:
  "is_alpha_az (Char b0 b1 b2 b3 b4 b5 b6 b7) \<longleftrightarrow>
     \<not> b7 \<and> b6 \<and> (b4 \<or> b3 \<or> b2 \<or> b1 \<or> b0) \<and> (b4 \<and> b3 \<longrightarrow> \<not> b2 \<and> (b1 \<longrightarrow> \<not> b0))"
  by (cases b0; cases b1; cases b2; cases b3; cases b4; cases b5; cases b6; cases b7)
    (simp_all add: is_alpha_az_def is_lower_az_def is_upper_az_def code_Char)

lemma is_upper_az_code [code]:
  "is_upper_az (Char b0 b1 b2 b3 b4 b5 b6 b7) \<longleftrightarrow>
     \<not> b5 \<and> is_alpha_az (Char b0 b1 b2 b3 b4 b5 b6 b7)"
  by (cases b0; cases b1; cases b2; cases b3; cases b4; cases b5; cases b6; cases b7)
    (simp_all add: is_upper_az_def is_alpha_az_def is_lower_az_def code_Char)

lemma is_alnum_high_code [code]:
  "is_alnum_high (Char b0 b1 b2 b3 b4 b5 b6 b7) \<longleftrightarrow>
     b7 \<and> (if b6 then \<not> (b4 \<and> \<not> b3 \<and> b2 \<and> b1 \<and> b0)
      else b5 \<and> (if b4 then (if b3 then (if b2 then \<not> (b1 \<and> b0) else (b1 \<noteq> b0))
                           else (if b2 then \<not> b1 \<and> b0 else b1))
                else b3 \<and> \<not> b2 \<and> b1 \<and> \<not> b0))"
  by (cases b0; cases b1; cases b2; cases b3; cases b4; cases b5; cases b6; cases b7)
    (simp_all add: is_alnum_high_def code_Char)

lemma is_word_space_disjoint: "is_space c \<Longrightarrow> \<not> is_word c"
  by (cases c) (auto simp: is_word_def is_alnum_def is_alnum_az_def is_space_code
      is_digit09_code is_alpha_az_code is_alnum_high_code split: if_splits)

section \<open>Methods of \<open>str\<close>\<close>

text \<open>\<open>s.lower()\<close>: on code points below 256 the mapping stays below 256.\<close>

definition to_lower :: "char \<Rightarrow> char" where
  "to_lower c = (if is_upper_az c \<or> (192 \<le> code c \<and> code c \<le> 222 \<and> code c \<noteq> 215)
     then char_of (code c + 32) else c)"

definition lower :: "string \<Rightarrow> string" where
  "lower s = map to_lower s"

text \<open>\<open>s.strip(chars)\<close>, \<open>s.lstrip(chars)\<close>, \<open>s.rstrip(chars)\<close> and \<open>s.strip()\<close>.\<close>

definition lstrip :: "(char \<Rightarrow> bool) \<Rightarrow> string \<Rightarrow> string" where
  "lstrip P s = dropWhile P s"

definition rstrip :: "(char \<Rightarrow> bool) \<Rightarrow> string \<Rightarrow> string" where
  "rstrip P s = rev (dropWhile P (rev s))"

definition strip :: "(char \<Rightarrow> bool) \<Rightarrow> string \<Rightarrow> string" where
  "strip P s = rstrip P (lstrip P s)"

text \<open>The two quote characters that \<open>strip("\"'")\<close> removes.\<close>

definition is_quote :: "char \<Rightarrow> bool" where
  "is_quote c \<longleftrightarrow> c = CHR ''\"'' \<or> c = CHR 0x27"

abbreviation unquote :: "string \<Rightarrow> string" where
  "unquote \<equiv> strip is_quote"

abbreviation trim :: "string \<Rightarrow> string" where
  "trim \<equiv> strip is_space"

text \<open>
  \<open>s.startswith(p)\<close> is \<^term>\<open>prefix p s\<close>, \<open>s.endswith(p)\<close> is \<^term>\<open>suffix p s\<close> and \<open>p in s\<close> is
  \<^term>\<open>sublist p s\<close>. \<open>s.split(c)\<close> for a one-character separator:
\<close>

fun split_on :: "char \<Rightarrow> string \<Rightarrow> string list" where
  "split_on d [] = [[]]"
| "split_on d (c # s) = (if c = d then [] # split_on d s
     else (case split_on d s of [] \<Rightarrow> [[c]] | w # ws \<Rightarrow> (c # w) # ws))"

text \<open>\<open>s.split(c, 1)\<close>: the parts before and after the first separator.\<close>

fun split_first :: "char \<Rightarrow> string \<Rightarrow> string \<times> string option" where
  "split_first d [] = ([], None)"
| "split_first d (c # s) = (if c = d then ([], Some s)
     else (case split_first d s of (w, r) \<Rightarrow> (c # w, r)))"

text \<open>\<open>sep.join(ws)\<close>.\<close>

fun join :: "string \<Rightarrow> string list \<Rightarrow> string" where
  "join sep [] = []"
| "join sep [w] = w"
| "join sep (w # v # ws) = w @ sep @ join sep (v # ws)"

text \<open>\<open>s.replace(a, b)\<close> for single characters.\<close>

definition replace_char :: "char \<Rightarrow> char \<Rightarrow> string \<Rightarrow> string" where
  "replace_char a b s = map (\<lambda>c. if c = a then b else c) s"

text \<open>\<open>s.find(p, k)\<close>, on the part of the string from \<open>k\<close>: what follows the first occurrence.\<close>

fun after_first :: "string \<Rightarrow> string \<Rightarrow> string option" where
  "after_first p [] = (if p = [] then Some [] else None)"
| "after_first p (c # s) = (if prefix p (c # s) then Some (drop (length p) (c # s))
     else after_first p s)"

text \<open>\<open>s.count(c) % 2 == 1\<close>.\<close>

fun odd_count :: "char \<Rightarrow> string \<Rightarrow> bool" where
  "odd_count d [] = False"
| "odd_count d (c # s) = (if c = d then \<not> odd_count d s else odd_count d s)"

section \<open>Functions of \<open>os.path\<close> on spellings\<close>

definition basename :: "string \<Rightarrow> string" where
  "basename p = rev (takeWhile (\<lambda>c. c \<noteq> CHR ''/'') (rev p))"

definition dirname :: "string \<Rightarrow> string" where
  "dirname p = (let head = rev (dropWhile (\<lambda>c. c \<noteq> CHR ''/'') (rev p))
     in if list_all (\<lambda>c. c = CHR ''/'') head then head else rstrip (\<lambda>c. c = CHR ''/'') head)"

text \<open>\<open>".." in p.replace("\\", "/").split("/")\<close>: the traversal test used throughout.\<close>

definition has_dotdot :: "string \<Rightarrow> bool" where
  "has_dotdot p \<longleftrightarrow> ''..'' \<in> set (split_on CHR ''/'' (replace_char (CHR 0x5C) (CHR ''/'') p))"

section \<open>Laws\<close>

lemma lstrip_sublist: "sublist (lstrip P s) s"
  unfolding lstrip_def by (rule suffix_imp_sublist) (rule dropWhile_suffix)

lemma rstrip_sublist: "sublist (rstrip P s) s"
proof -
  have "suffix (dropWhile P (rev s)) (rev s)"
    by (rule dropWhile_suffix)
  then have "prefix (rev (dropWhile P (rev s))) s"
    by (simp add: suffix_to_prefix)
  then show ?thesis
    by (simp add: rstrip_def prefix_imp_sublist)
qed

lemma strip_sublist: "sublist (strip P s) s"
  unfolding strip_def
  using rstrip_sublist lstrip_sublist sublist_order.order.trans by blast

lemma rstrip_append_keep: "\<not> P c \<Longrightarrow> rstrip P (s @ [c]) = s @ [c]"
  by (simp add: rstrip_def)

lemma rstrip_Nil_iff: "rstrip P s = [] \<longleftrightarrow> list_all P s"
  by (auto simp: rstrip_def list_all_iff dropWhile_eq_Nil_conv)

lemma split_on_not_Nil [simp]: "split_on d s \<noteq> []"
  by (induction s) (auto split: list.splits)

text \<open>Splitting and joining are inverse: the parts never contain the separator.\<close>

lemma join_split_on: "join [d] (split_on d s) = s"
proof (induction s)
  case (Cons c s)
  show ?case
  proof (cases "split_on d s")
    case Nil
    then show ?thesis by simp
  next
    case (Cons w ws)
    then show ?thesis
      using Cons.IH by (cases ws) auto
  qed
qed simp

lemma split_on_free: "w \<in> set (split_on d s) \<Longrightarrow> d \<notin> set w"
  by (induction s arbitrary: w) (auto split: list.splits if_splits)

lemma split_on_append_sep: "split_on d (s @ d # t) = split_on d s @ split_on d t"
  by (induction s) (auto split: list.splits)

lemma split_on_no_sep: "d \<notin> set s \<Longrightarrow> split_on d s = [s]"
  by (induction s) auto

text \<open>The first part is free of the separator and the parts make up the string.\<close>

lemma split_first_parts:
  "split_first d s = (k, r) \<Longrightarrow>
     d \<notin> set k \<and> s = k @ (case r of None \<Rightarrow> [] | Some v \<Rightarrow> d # v)"
proof (induction s arbitrary: k)
  case (Cons c s)
  obtain w r' where w: "split_first d s = (w, r')"
    by (cases "split_first d s")
  show ?case
    using Cons.prems Cons.IH w by (cases "c = d") auto
qed auto

lemma split_first_append: "d \<notin> set k \<Longrightarrow> split_first d (k @ d # v) = (k, Some v)"
  by (induction k) auto

lemma split_first_absent: "d \<notin> set k \<Longrightarrow> split_first d k = (k, None)"
  by (induction k) auto

lemma after_first_Some: "after_first p s = Some r \<Longrightarrow> \<exists>a. s = a @ p @ r"
proof (induction s)
  case (Cons c s)
  show ?case
  proof (cases "prefix p (c # s)")
    case True
    with Cons.prems show ?thesis
      by (auto simp: prefix_def intro: exI [of _ "[]"])
  next
    case False
    with Cons show ?thesis
      by (metis after_first.simps(2) append_Cons)
  qed
qed (auto split: if_splits)

lemma odd_count_append [simp]: "odd_count d (s @ t) \<longleftrightarrow> odd_count d s \<noteq> odd_count d t"
  by (induction s) auto

lemma basename_no_slash: "CHR ''/'' \<notin> set (basename p)"
  by (auto simp: basename_def dest: set_takeWhileD)

lemma basename_suffix: "suffix (basename p) p"
proof -
  have "prefix (takeWhile (\<lambda>c. c \<noteq> CHR ''/'') (rev p)) (rev p)"
    by (rule takeWhile_is_prefix)
  then show ?thesis
    by (simp add: basename_def suffix_to_prefix)
qed

lemma basename_append_slash [path_simps]:
  "CHR ''/'' \<notin> set b \<Longrightarrow> basename (a @ CHR ''/'' # b) = b"
  by (simp add: basename_def takeWhile_append)

lemma basename_id [path_simps]: "CHR ''/'' \<notin> set b \<Longrightarrow> basename b = b"
proof -
  assume "CHR ''/'' \<notin> set b"
  then have "takeWhile (\<lambda>c. c \<noteq> CHR ''/'') (rev b) = rev b"
    by (intro takeWhile_eq_all_conv [THEN iffD2]) auto
  then show ?thesis
    by (simp only: basename_def rev_rev_ident)
qed

lemma dirname_length: "length (dirname p) \<le> length p"
proof -
  have "length (dropWhile (\<lambda>c. c \<noteq> CHR ''/'') (rev p)) \<le> length p"
    using length_dropWhile_le [of _ "rev p"] by simp
  then show ?thesis
    using length_dropWhile_le by (fastforce simp: dirname_def Let_def rstrip_def intro: order_trans)
qed

lemma dirname_shorter: "dirname p \<noteq> p \<Longrightarrow> length (dirname p) < length p"
proof -
  have "prefix (dirname p) p"
  proof -
    let ?h = "rev (dropWhile (\<lambda>c. c \<noteq> CHR ''/'') (rev p))"
    have h: "prefix ?h p"
      using dropWhile_suffix [of _ "rev p"] by (simp add: suffix_to_prefix)
    have "prefix (rstrip P s) s" for P s
      using dropWhile_suffix [of P "rev s"] by (simp add: rstrip_def suffix_to_prefix)
    then have "prefix (rstrip (\<lambda>c. c = CHR ''/'') ?h) p"
      using h prefix_order.trans by blast
    then show ?thesis
      using h by (simp add: dirname_def Let_def)
  qed
  then show "dirname p \<noteq> p \<Longrightarrow> length (dirname p) < length p"
    by (metis prefix_length_less strict_prefixI)
qed

lemma replace_char_append [path_simps]:
  "replace_char a b (s @ t) = replace_char a b s @ replace_char a b t"
  by (simp add: replace_char_def)

lemma has_dotdot_middle: "has_dotdot (a @ ''/../'' @ b)"
proof -
  have "replace_char (CHR 0x5C) (CHR ''/'') (a @ ''/../'' @ b)
      = replace_char (CHR 0x5C) (CHR ''/'') a @ CHR ''/'' # ''..'' @ CHR ''/'' #
        replace_char (CHR 0x5C) (CHR ''/'') b"
    by (simp add: replace_char_def)
  then show ?thesis
    by (simp only: has_dotdot_def split_on_append_sep) simp
qed

end
