(* ===== verification/Py_Re.thy ===== *)
theory Py_Re
  imports Py_String
begin

text \<open>
  Python's \<open>re\<close> as the scripts use it: the abstract syntax of the patterns, a backtracking
  matcher that lists every way a pattern can match, in the order in which the engine tries
  them, and the entry points \<open>match\<close>, \<open>search\<close>, \<open>finditer\<close>, \<open>sub\<close> and \<open>findall\<close>. A
  declarative matching relation specifies the matcher, which is proved sound and complete
  for it.

  A cursor is the text before the current position (reversed, so that the character a
  word boundary or a look-behind inspects is its head), the text after it, and the groups
  captured so far, the latest first.
\<close>

section \<open>Patterns\<close>

datatype re =
    Eps
  | Cls "char \<Rightarrow> bool"        \<comment> \<open>a character class\<close>
  | Seq re re
  | Alt re re                 \<comment> \<open>\<open>r|s\<close>, left first\<close>
  | Many bool re              \<comment> \<open>\<open>r*\<close> (greedy) or \<open>r*?\<close>\<close>
  | Grp nat re                \<comment> \<open>\<open>(r)\<close>\<close>
  | Bref nat                  \<comment> \<open>\<open>\n\<close>\<close>
  | Bos                       \<comment> \<open>\<open>^\<close>\<close>
  | Bol                       \<comment> \<open>\<open>^\<close> under MULTILINE\<close>
  | Eos                       \<comment> \<open>\<open>$\<close>\<close>
  | Eol                       \<comment> \<open>\<open>$\<close> under MULTILINE\<close>
  | WordB                     \<comment> \<open>\<open>\b\<close>\<close>
  | Look re                   \<comment> \<open>\<open>(?=r)\<close>, without groups in \<open>r\<close>\<close>
  | NotBehind "char \<Rightarrow> bool"  \<comment> \<open>\<open>(?<!\<dots>)\<close> of one character class\<close>

type_synonym groups = "(nat \<times> string) list"
type_synonym cursor = "string \<times> string \<times> groups"

text \<open>Abbreviations for the usual composite forms.\<close>

fun seqs :: "re list \<Rightarrow> re" where
  "seqs [] = Eps"
| "seqs [r] = r"
| "seqs (r # q # rs) = Seq r (seqs (q # rs))"

fun alts :: "re list \<Rightarrow> re" where
  "alts [] = Cls (\<lambda>_. False)"
| "alts [r] = r"
| "alts (r # q # rs) = Alt r (alts (q # rs))"

definition chr :: "char \<Rightarrow> re" where
  "chr c = Cls (\<lambda>x. x = c)"

definition lit :: "string \<Rightarrow> re" where
  "lit w = seqs (map chr w)"

definition lits :: "string list \<Rightarrow> re" where
  "lits ws = alts (map lit ws)"

definition one_of :: "string \<Rightarrow> re" where
  "one_of cs = Cls (\<lambda>x. x \<in> set cs)"

definition none_of :: "string \<Rightarrow> re" where
  "none_of cs = Cls (\<lambda>x. x \<notin> set cs)"

definition any_char :: re where
  "any_char = Cls (\<lambda>_. True)"

definition star :: "re \<Rightarrow> re" where
  "star r = Many True r"

definition star_lazy :: "re \<Rightarrow> re" where
  "star_lazy r = Many False r"

definition plus :: "re \<Rightarrow> re" where
  "plus r = Seq r (star r)"

definition opt :: "re \<Rightarrow> re" where
  "opt r = Alt r Eps"

definition space :: re where
  "space = Cls is_space"

definition nonspace :: re where
  "nonspace = Cls (\<lambda>x. \<not> is_space x)"

section \<open>The matcher\<close>

text \<open>The zero-width tests.\<close>

fun at_bol :: "string \<Rightarrow> bool" where
  "at_bol [] = True"
| "at_bol (c # b) = (c = CHR 0x0A)"

fun at_eol :: "string \<Rightarrow> bool" where
  "at_eol [] = True"
| "at_eol (c # a) = (c = CHR 0x0A)"

fun at_eos :: "string \<Rightarrow> bool" where
  "at_eos [] = True"
| "at_eos (c # a) = (c = CHR 0x0A \<and> a = [])"

fun head_is :: "(char \<Rightarrow> bool) \<Rightarrow> string \<Rightarrow> bool" where
  "head_is P [] = False"
| "head_is P (c # a) = P c"

definition at_word_boundary :: "string \<Rightarrow> string \<Rightarrow> bool" where
  "at_word_boundary b a \<longleftrightarrow> head_is is_word b \<noteq> head_is is_word a"

text \<open>
  Repetition: the first argument says whether to try another round before stopping. A
  round that consumes nothing is not repeated. The list argument bounds the number of
  rounds by the text that is left, see \<open>many_it_enough\<close>.
\<close>

fun many_it :: "bool \<Rightarrow> (cursor \<Rightarrow> cursor list) \<Rightarrow> string \<Rightarrow> cursor \<Rightarrow> cursor list" where
  "many_it g f [] st = [st]"
| "many_it g f (x # k) st =
     (let rounds = concat (map (many_it g f k)
        (filter (\<lambda>st'. shorter (fst (snd st')) (fst (snd st))) (f st)))
      in if g then rounds @ [st] else st # rounds)"

definition taken :: "string \<Rightarrow> string \<Rightarrow> string" where
  "taken a a' = take (length a - length a') a"

primrec mt :: "re \<Rightarrow> cursor \<Rightarrow> cursor list" where
  "mt Eps st = [st]"
| "mt (Cls p) st = (case st of (b, a, g) \<Rightarrow>
     (case a of [] \<Rightarrow> [] | c # cs \<Rightarrow> if p c then [(c # b, cs, g)] else []))"
| "mt (Seq r s) st = concat (map (mt s) (mt r st))"
| "mt (Alt r s) st = mt r st @ mt s st"
| "mt (Many gr r) st = many_it gr (mt r) (fst (snd st)) st"
| "mt (Grp n r) st = (case st of (b, a, g) \<Rightarrow>
     map (\<lambda>(b', a', g'). (b', a', (n, taken a a') # g')) (mt r (b, a, g)))"
| "mt (Bref n) st = (case st of (b, a, g) \<Rightarrow>
     (case map_of g n of None \<Rightarrow> []
      | Some w \<Rightarrow> if prefix w a then [(rev w @ b, drop (length w) a, g)] else []))"
| "mt Bos st = (case st of (b, a, g) \<Rightarrow> if b = [] then [st] else [])"
| "mt Bol st = (case st of (b, a, g) \<Rightarrow> if at_bol b then [st] else [])"
| "mt Eos st = (case st of (b, a, g) \<Rightarrow> if at_eos a then [st] else [])"
| "mt Eol st = (case st of (b, a, g) \<Rightarrow> if at_eol a then [st] else [])"
| "mt WordB st = (case st of (b, a, g) \<Rightarrow> if at_word_boundary b a then [st] else [])"
| "mt (Look r) st = (if mt r st = [] then [] else [st])"
| "mt (NotBehind p) st = (case st of (b, a, g) \<Rightarrow> if head_is p b then [] else [st])"

section \<open>Entry points\<close>

text \<open>\<open>pattern.match(s)\<close>: the first match at the start of the string.\<close>

definition re_match :: "re \<Rightarrow> string \<Rightarrow> cursor option" where
  "re_match r s = (case mt r ([], s, []) of [] \<Rightarrow> None | st # _ \<Rightarrow> Some st)"

text \<open>\<open>pattern.search(s)\<close>, as a truth value: some position has a match.\<close>

fun search_from :: "re \<Rightarrow> string \<Rightarrow> string \<Rightarrow> bool" where
  "search_from r b [] = (mt r (b, [], []) \<noteq> [])"
| "search_from r b (c # a) = (if mt r (b, c # a, []) \<noteq> [] then True else search_from r (c # b) a)"

definition re_search :: "re \<Rightarrow> string \<Rightarrow> bool" where
  "re_search r s = search_from r [] s"

text \<open>
  The scan behind \<open>finditer\<close>, \<open>findall\<close> and \<open>sub\<close>: the string cut into characters that no
  match covers and matches from left to right, each with the cursors at its two ends. The
  scan goes on where a match ended, and one character further after an empty match.
\<close>

datatype piece = Gap char | Hit cursor cursor

function re_scan :: "re \<Rightarrow> string \<Rightarrow> string \<Rightarrow> piece list" where
  "re_scan r b a = (case mt r (b, a, []) of
      [] \<Rightarrow> (case a of [] \<Rightarrow> [] | c # cs \<Rightarrow> Gap c # re_scan r (c # b) cs)
    | (b', a', g') # _ \<Rightarrow> Hit (b, a, []) (b', a', g') #
        (if shorter a' a then re_scan r b' a'
         else (case a of [] \<Rightarrow> [] | c # cs \<Rightarrow> Gap c # re_scan r (c # b) cs)))"
  by pat_completeness auto
termination
  by (relation "measure (\<lambda>(r, b, a). length a)") auto

declare re_scan.simps [simp del]

definition group :: "nat \<Rightarrow> cursor \<Rightarrow> string option" where
  "group n st = (case st of (b, a, g) \<Rightarrow> map_of g n)"

fun hit_text :: "cursor \<Rightarrow> cursor \<Rightarrow> string" where
  "hit_text (b, a, g) (b', a', g') = taken a a'"

fun piece_text :: "piece \<Rightarrow> string" where
  "piece_text (Gap c) = [c]"
| "piece_text (Hit st st') = hit_text st st'"

text \<open>\<open>pattern.sub(f, s)\<close> with the replacement as a function of the match.\<close>

fun sub_piece :: "(cursor \<Rightarrow> cursor \<Rightarrow> string) \<Rightarrow> piece \<Rightarrow> string" where
  "sub_piece f (Gap c) = [c]"
| "sub_piece f (Hit st st') = f st st'"

definition re_sub :: "re \<Rightarrow> (cursor \<Rightarrow> cursor \<Rightarrow> string) \<Rightarrow> string \<Rightarrow> string" where
  "re_sub r f s = concat (map (sub_piece f) (re_scan r [] s))"

text \<open>\<open>pattern.findall(s)\<close> for a pattern without groups.\<close>

fun hit_of :: "piece \<Rightarrow> string list" where
  "hit_of (Gap c) = []"
| "hit_of (Hit st st') = [hit_text st st']"

definition re_findall :: "re \<Rightarrow> string \<Rightarrow> string list" where
  "re_findall r s = concat (map hit_of (re_scan r [] s))"

section \<open>The matching relation\<close>

text \<open>
  What a pattern matches, without any order of search: one rule per form. A repetition
  may only go on after a round that consumed something.
\<close>

inductive matches :: "re \<Rightarrow> cursor \<Rightarrow> cursor \<Rightarrow> bool" where
  eps: "matches Eps st st"
| cls: "p c \<Longrightarrow> matches (Cls p) (b, c # a, g) (c # b, a, g)"
| seq: "matches r st st1 \<Longrightarrow> matches s st1 st2 \<Longrightarrow> matches (Seq r s) st st2"
| alt1: "matches r st st' \<Longrightarrow> matches (Alt r s) st st'"
| alt2: "matches s st st' \<Longrightarrow> matches (Alt r s) st st'"
| many0: "matches (Many gr r) st st"
| many1: "matches r (b, a, g) (b1, a1, g1) \<Longrightarrow> length a1 < length a \<Longrightarrow>
    matches (Many gr r) (b1, a1, g1) st2 \<Longrightarrow> matches (Many gr r) (b, a, g) st2"
| grp: "matches r (b, a, g) (b', a', g') \<Longrightarrow>
    matches (Grp n r) (b, a, g) (b', a', (n, taken a a') # g')"
| bref: "map_of g n = Some w \<Longrightarrow> matches (Bref n) (b, w @ a, g) (rev w @ b, a, g)"
| bos: "matches Bos ([], a, g) ([], a, g)"
| bol: "at_bol b \<Longrightarrow> matches Bol (b, a, g) (b, a, g)"
| eos: "at_eos a \<Longrightarrow> matches Eos (b, a, g) (b, a, g)"
| eol: "at_eol a \<Longrightarrow> matches Eol (b, a, g) (b, a, g)"
| wordb: "at_word_boundary b a \<Longrightarrow> matches WordB (b, a, g) (b, a, g)"
| look: "matches r st st' \<Longrightarrow> matches (Look r) st st"
| not_behind: "\<not> head_is p b \<Longrightarrow> matches (NotBehind p) (b, a, g) (b, a, g)"

text \<open>Cursors are reasoned about as a whole, not as triples of bound variables.\<close>

declare split_paired_Ex [simp del] split_paired_All [simp del]

inductive_simps matches_simps [simp]:
  "matches Eps st st'"
  "matches (Seq r s) st st'"
  "matches (Alt r s) st st'"
  "matches Bos st st'"
  "matches Bol st st'"
  "matches Eos st st'"
  "matches Eol st st'"
  "matches WordB st st'"
  "matches (NotBehind p) st st'"
  "matches (Look r) st st'"

inductive_simps matches_cls_iff: "matches (Cls p) st st'"
inductive_simps matches_grp_iff: "matches (Grp n r) st st'"
inductive_simps matches_bref_iff: "matches (Bref n) st st'"

inductive_cases matches_manyE: "matches (Many gr r) st st'"

text \<open>Matching consumes a piece of the text and moves it to the left of the cursor.\<close>

lemma matches_consumes:
  "matches r st st' \<Longrightarrow>
     \<exists>w. fst (snd st) = w @ fst (snd st') \<and> fst st' = rev w @ fst st"
  by (induction rule: matches.induct) auto

lemma matches_taken:
  assumes "matches r (b, a, g) (b', a', g')"
  shows "a = taken a a' @ a' \<and> b' = rev (taken a a') @ b"
  using matches_consumes [OF assms] by (auto simp: taken_def)

lemma matches_suffix:
  "matches r st st' \<Longrightarrow> suffix (fst (snd st')) (fst (snd st))"
  using matches_consumes suffix_def by blast

lemma matches_length:
  "matches r st st' \<Longrightarrow> length (fst (snd st')) \<le> length (fst (snd st))"
  by (rule suffix_length_le) (rule matches_suffix)

section \<open>The matcher implements the relation\<close>

lemma set_many_it_Cons: "set (many_it g f (x # k) st) =
    insert st (\<Union>st1 \<in> {st1 \<in> set (f st). length (fst (snd st1)) < length (fst (snd st))}.
      set (many_it g f k st1))"
  by (auto simp: Let_def)

lemma many_it_sound:
  assumes step: "\<And>st st'. st' \<in> set (f st) \<Longrightarrow> matches r st st'"
  shows "st' \<in> set (many_it gr f k st) \<Longrightarrow> matches (Many gr r) st st'"
proof (induction k arbitrary: st)
  case Nil
  then show ?case by (simp add: matches.many0)
next
  case (Cons x k)
  from Cons.prems consider "st' = st"
    | st1 where "st1 \<in> set (f st)" "length (fst (snd st1)) < length (fst (snd st))"
        "st' \<in> set (many_it gr f k st1)"
    unfolding set_many_it_Cons by blast
  then show ?case
  proof cases
    case 1
    then show ?thesis by (simp add: matches.many0)
  next
    case 2
    obtain b a g where st: "st = (b, a, g)" by (cases st)
    obtain b1 a1 g1 where st1: "st1 = (b1, a1, g1)" by (cases st1)
    show ?thesis
      using step [OF 2(1)] Cons.IH [OF 2(3)] 2(2)
      unfolding st st1 by (auto intro: matches.many1)
  qed
qed

text \<open>The list that bounds the rounds is long enough: its length is that of the text.\<close>

lemma many_it_enough:
  assumes step: "\<And>st st'. matches r st st' \<Longrightarrow> st' \<in> set (f st)"
  shows "matches (Many gr r) st st' \<Longrightarrow> length (fst (snd st)) \<le> length k \<Longrightarrow>
    st' \<in> set (many_it gr f k st)"
proof (induction k arbitrary: st)
  case Nil
  then have "fst (snd st) = []" by simp
  with Nil.prems(1) have "st' = st"
    by (cases rule: matches_manyE) auto
  then show ?case by simp
next
  case (Cons x k)
  consider "st' = st"
    | b a g b1 a1 g1 where "st = (b, a, g)" "matches r (b, a, g) (b1, a1, g1)"
        "length a1 < length a" "matches (Many gr r) (b1, a1, g1) st'"
    using Cons.prems(1) by (rule matches_manyE)
  then show ?case
  proof cases
    case 1
    show ?thesis
      unfolding set_many_it_Cons 1 by blast
  next
    case (2 b a g b1 a1 g1)
    have "st' \<in> set (many_it gr f k (b1, a1, g1))"
      using 2 Cons.prems(2) by (intro Cons.IH) auto
    moreover have "(b1, a1, g1) \<in> set (f st)"
      using 2 by (intro step) simp
    ultimately show ?thesis
      unfolding set_many_it_Cons using 2 by (intro insertI2 UN_I [of "(b1, a1, g1)"]) simp_all
  qed
qed

theorem mt_iff_matches: "st' \<in> set (mt r st) \<longleftrightarrow> matches r st st'"
proof (induction r arbitrary: st st')
  case (Cls p)
  then show ?case
    by (auto simp: matches_cls_iff split: list.splits prod.splits)
next
  case (Many gr r)
  have "st' \<in> set (many_it gr (mt r) (fst (snd st)) st) \<Longrightarrow> matches (Many gr r) st st'"
    by (rule many_it_sound [where f = "mt r"]) (simp add: Many.IH)
  moreover have "matches (Many gr r) st st' \<Longrightarrow> st' \<in> set (many_it gr (mt r) (fst (snd st)) st)"
    by (rule many_it_enough [where f = "mt r"]) (simp_all add: Many.IH)
  ultimately show ?case by auto
next
  case (Grp n r)
  obtain b a g where st: "st = (b, a, g)" by (cases st)
  show ?case
    unfolding st matches_grp_iff by (force simp: Grp.IH)
next
  case (Bref n)
  then show ?case
    by (cases st) (auto simp: matches_bref_iff prefix_def split: option.splits)
next
  case (Look r)
  have "mt r st = [] \<longleftrightarrow> (\<forall>st'. \<not> matches r st st')"
    by (metis Look.IH list.set_intros(1) list.exhaust empty_iff empty_set)
  then show ?case by auto
next
  case (Seq r s)
  then show ?case by (simp add: Bex_def)
qed (auto split: prod.splits)

lemma mt_Nil_iff: "mt r st = [] \<longleftrightarrow> (\<forall>st'. \<not> matches r st st')"
  by (metis mt_iff_matches list.set_intros(1) list.exhaust empty_iff empty_set)

lemma mt_hd_matches: "mt r st = st' # rest \<Longrightarrow> matches r st st'"
  by (metis mt_iff_matches list.set_intros(1))

section \<open>Laws of the entry points\<close>

lemma search_from_iff:
  "search_from r b a \<longleftrightarrow> (\<exists>p q st'. a = p @ q \<and> matches r (rev p @ b, q, []) st')"
proof (induction a arbitrary: b)
  case Nil
  then show ?case by (simp add: mt_Nil_iff)
next
  case (Cons c a)
  have "(\<exists>p q st'. c # a = p @ q \<and> matches r (rev p @ b, q, []) st') \<longleftrightarrow>
      (\<exists>st'. matches r (b, c # a, []) st') \<or>
      (\<exists>p q st'. a = p @ q \<and> matches r (rev p @ c # b, q, []) st')"
    (is "?l \<longleftrightarrow> ?here \<or> ?later")
  proof
    assume ?l
    then obtain p q st' where pq: "c # a = p @ q" "matches r (rev p @ b, q, []) st'"
      by blast
    show "?here \<or> ?later"
    proof (cases p)
      case Nil
      with pq show ?thesis by auto
    next
      case (Cons c' p')
      with pq have "a = p' @ q" "matches r (rev p' @ c # b, q, []) st'"
        by auto
      then show ?thesis by blast
    qed
  next
    assume "?here \<or> ?later"
    then show ?l
    proof (elim disjE exE conjE)
      fix st' assume "matches r (b, c # a, []) st'"
      then show ?l by (intro exI [of _ "[]"] exI [of _ "c # a"] exI [of _ st']) simp
    next
      fix p q st' assume "a = p @ q" "matches r (rev p @ c # b, q, []) st'"
      then show ?l by (intro exI [of _ "c # p"] exI [of _ q] exI [of _ st']) simp
    qed
  qed
  then show ?case
    using Cons.IH by (simp add: mt_Nil_iff)
qed

text \<open>A search succeeds exactly when the string has a matching cut.\<close>

theorem re_search_iff:
  "re_search r s \<longleftrightarrow> (\<exists>p q st'. s = p @ q \<and> matches r (rev p, q, []) st')"
  by (simp add: re_search_def search_from_iff)

lemma re_searchI: "matches r (rev p, q, []) st' \<Longrightarrow> re_search r (p @ q)"
  by (auto simp: re_search_iff)

lemma re_match_matches: "re_match r s = Some st \<Longrightarrow> matches r ([], s, []) st"
  by (auto simp: re_match_def split: list.splits dest: mt_hd_matches)

lemma re_match_None_iff: "re_match r s = None \<longleftrightarrow> (\<forall>st. \<not> matches r ([], s, []) st)"
  by (auto simp: re_match_def mt_Nil_iff [symmetric] split: list.splits)

text \<open>The pieces of a scan make up the string.\<close>

theorem re_scan_text: "concat (map piece_text (re_scan r b a)) = a"
proof (induction r b a rule: re_scan.induct)
  case (1 r b a)
  show ?case
  proof (cases "mt r (b, a, [])")
    case Nil
    then show ?thesis
      using "1.IH"(1) by (subst re_scan.simps) (auto split: list.splits)
  next
    case (Cons st rest)
    obtain b' a' g' where st: "st = (b', a', g')" by (cases st)
    have "matches r (b, a, []) (b', a', g')"
      using Cons st mt_hd_matches by blast
    note cut = matches_taken [OF this] matches_suffix [OF this]
    show ?thesis
    proof (cases "shorter a' a")
      case True
      then show ?thesis
        using "1.IH"(2) Cons st cut by (subst re_scan.simps) auto
    next
      case False
      then have "a' = a"
        using cut(2) suffix_shorter by auto
      then show ?thesis
        using "1.IH"(3) Cons st False
        by (subst re_scan.simps) (auto simp: taken_def split: list.splits)
    qed
  qed
qed

section \<open>Derived rules for composite patterns\<close>

text \<open>
  \<open>re_intros\<close> builds a match from left to right: each rule consumes a piece that is spelled
  out at the front of the text.
\<close>

named_theorems re_intros \<open>matches of composite patterns\<close>

lemmas [re_intros] = matches.eps matches.seq matches.bol matches.eol matches.wordb matches.look

lemma matches_chr [re_intros]: "matches (chr c) (b, c # a, g) (c # b, a, g)"
  by (simp add: chr_def matches.cls)

lemma matches_chr_iff: "matches (chr c) st st' \<longleftrightarrow>
    (\<exists>b a g. st = (b, c # a, g) \<and> st' = (c # b, a, g))"
  by (auto simp: chr_def matches_cls_iff)

lemma seqs_Cons: "rs \<noteq> [] \<Longrightarrow> seqs (r # rs) = Seq r (seqs rs)"
  by (cases rs) auto

lemma lit_Cons: "matches (lit (c # w)) st st' \<longleftrightarrow>
    (\<exists>st1. matches (chr c) st st1 \<and> matches (lit w) st1 st')"
  by (cases w) (auto simp: lit_def)

text \<open>A literal matches exactly its own spelling.\<close>

lemma matches_lit_iff: "matches (lit w) (b, a, g) st' \<longleftrightarrow>
    (\<exists>a'. a = w @ a' \<and> st' = (rev w @ b, a', g))"
proof (induction w arbitrary: a b)
  case Nil
  then show ?case by (auto simp: lit_def)
next
  case (Cons c w)
  then show ?case by (auto simp: lit_Cons matches_chr_iff)
qed

lemma matches_lit [re_intros]: "matches (lit w) (b, w @ a, g) (rev w @ b, a, g)"
  by (simp add: matches_lit_iff)

lemma matches_alts_iff: "matches (alts rs) st st' \<longleftrightarrow> (\<exists>r \<in> set rs. matches r st st')"
  by (induction rs rule: alts.induct) (auto simp: matches_cls_iff)

lemma matches_lits_iff: "matches (lits ws) (b, a, g) st' \<longleftrightarrow>
    (\<exists>w \<in> set ws. \<exists>a'. a = w @ a' \<and> st' = (rev w @ b, a', g))"
  by (simp add: lits_def matches_alts_iff matches_lit_iff)

lemma matches_lits [re_intros]:
  "w \<in> set ws \<Longrightarrow> matches (lits ws) (b, w @ a, g) (rev w @ b, a, g)"
  by (auto simp: matches_lits_iff)

lemma matches_one_of_iff: "matches (one_of cs) (b, a, g) st' \<longleftrightarrow>
    (\<exists>c a'. a = c # a' \<and> c \<in> set cs \<and> st' = (c # b, a', g))"
  by (auto simp: one_of_def matches_cls_iff)

lemma matches_one_of [re_intros]: "c \<in> set cs \<Longrightarrow> matches (one_of cs) (b, c # a, g) (c # b, a, g)"
  by (simp add: matches_one_of_iff)

text \<open>A repeated class matches any stretch of its characters, the empty one included.\<close>

lemma matches_star_cls [re_intros]:
  "list_all p w \<Longrightarrow> matches (star (Cls p)) (b, w @ a, g) (rev w @ b, a, g)"
proof (induction w arbitrary: b)
  case Nil
  then show ?case by (simp add: star_def matches.many0)
next
  case (Cons c w)
  then have "matches (Cls p) (b, c # w @ a, g) (c # b, w @ a, g)"
    by (simp add: matches.cls)
  moreover have "matches (star (Cls p)) (c # b, w @ a, g) (rev w @ c # b, a, g)"
    using Cons by simp
  ultimately show ?case
    by (auto simp: star_def intro: matches.many1)
qed

lemma matches_many_cls:
  "matches r st st' \<Longrightarrow> r = Many gr (Cls p) \<Longrightarrow>
     \<exists>w. list_all p w \<and> fst (snd st) = w @ fst (snd st') \<and> fst st' = rev w @ fst st
       \<and> snd (snd st') = snd (snd st)"
proof (induction rule: matches.induct)
  case (many0 gr r st)
  show ?case by (intro exI [of _ "[]"]) simp
next
  case (many1 r b a g b1 a1 g1 gr st2)
  then obtain c where c: "p c" "a = c # a1" "b1 = c # b" "g1 = g"
    by (auto simp: matches_cls_iff)
  obtain w where "list_all p w" "a1 = w @ fst (snd st2)" "fst st2 = rev w @ b1"
      "snd (snd st2) = g1"
    using many1 by auto
  with c show ?case
    by (intro exI [of _ "c # w"]) simp
qed simp_all

lemma matches_star_cls_iff: "matches (star (Cls p)) (b, a, g) st' \<longleftrightarrow>
    (\<exists>w a'. a = w @ a' \<and> list_all p w \<and> st' = (rev w @ b, a', g))"
proof
  assume m: "matches (star (Cls p)) (b, a, g) st'"
  obtain b' a' g' where st': "st' = (b', a', g')" by (cases st')
  show "\<exists>w a'. a = w @ a' \<and> list_all p w \<and> st' = (rev w @ b, a', g)"
    using matches_many_cls [OF m [unfolded star_def] refl] by (auto simp: st')
next
  assume "\<exists>w a'. a = w @ a' \<and> list_all p w \<and> st' = (rev w @ b, a', g)"
  then show "matches (star (Cls p)) (b, a, g) st'"
    by (auto intro: matches_star_cls)
qed

lemma matches_plus_cls [re_intros]:
  "w \<noteq> [] \<Longrightarrow> list_all p w \<Longrightarrow> matches (plus (Cls p)) (b, w @ a, g) (rev w @ b, a, g)"
proof -
  assume "w \<noteq> []" and p: "list_all p w"
  then obtain c v where w: "w = c # v"
    by (cases w) auto
  have "matches (Cls p) (b, c # v @ a, g) (c # b, v @ a, g)"
    using p by (simp add: w matches.cls)
  moreover have "matches (star (Cls p)) (c # b, v @ a, g) (rev v @ c # b, a, g)"
    using p by (intro matches_star_cls) (simp add: w)
  ultimately show ?thesis
    by (auto simp: plus_def w)
qed

lemma matches_plus_cls_iff: "matches (plus (Cls p)) (b, a, g) st' \<longleftrightarrow>
    (\<exists>w a'. a = w @ a' \<and> w \<noteq> [] \<and> list_all p w \<and> st' = (rev w @ b, a', g))"
proof
  assume "matches (plus (Cls p)) (b, a, g) st'"
  then obtain c a1 where a: "a = c # a1" "p c" and
      rest: "matches (star (Cls p)) (c # b, a1, g) st'"
    by (auto simp: plus_def matches_cls_iff)
  from rest obtain w a' where "a1 = w @ a'" "list_all p w" "st' = (rev w @ c # b, a', g)"
    by (auto simp: matches_star_cls_iff)
  with a show "\<exists>w a'. a = w @ a' \<and> w \<noteq> [] \<and> list_all p w \<and> st' = (rev w @ b, a', g)"
    by (intro exI [of _ "c # w"] exI [of _ a']) simp
next
  assume "\<exists>w a'. a = w @ a' \<and> w \<noteq> [] \<and> list_all p w \<and> st' = (rev w @ b, a', g)"
  then show "matches (plus (Cls p)) (b, a, g) st'"
    by (auto intro: matches_plus_cls)
qed

lemmas re_class_defs = space_def nonspace_def any_char_def none_of_def

lemma matches_opt_iff: "matches (opt r) st st' \<longleftrightarrow> matches r st st' \<or> st' = st"
  by (auto simp: opt_def)

section \<open>Patterns that read words\<close>

text \<open>
  A pattern without groups and anchors reads the words of a set, whatever surrounds them.
  For such a pattern in front of another, matching is cutting the text.
\<close>

definition reads :: "re \<Rightarrow> (string \<Rightarrow> bool) \<Rightarrow> bool" where
  "reads r P \<longleftrightarrow> (\<forall>b a g st. matches r (b, a, g) st \<longleftrightarrow>
     (\<exists>w a'. P w \<and> a = w @ a' \<and> st = (rev w @ b, a', g)))"

definition can :: "re \<Rightarrow> cursor \<Rightarrow> bool" where
  "can r st \<longleftrightarrow> (\<exists>st'. matches r st st')"

named_theorems reads_intros \<open>the words that composite patterns read\<close>

lemma reads_iff:
  "reads r P \<Longrightarrow> matches r (b, a, g) st \<longleftrightarrow>
     (\<exists>w a'. P w \<and> a = w @ a' \<and> st = (rev w @ b, a', g))"
  by (simp add: reads_def)

lemma reads_cls [reads_intros]: "reads (Cls p) (\<lambda>w. \<exists>c. w = [c] \<and> p c)"
  by (auto simp: reads_def matches_cls_iff)

lemma reads_chr [reads_intros]: "reads (chr c) (\<lambda>w. w = [c])"
  by (auto simp: reads_def matches_chr_iff)

lemma reads_lit [reads_intros]: "reads (lit v) (\<lambda>w. w = v)"
  by (auto simp: reads_def matches_lit_iff)

lemma reads_lits [reads_intros]: "reads (lits vs) (\<lambda>w. w \<in> set vs)"
  by (auto simp: reads_def matches_lits_iff)

lemma reads_one_of [reads_intros]: "reads (one_of cs) (\<lambda>w. \<exists>c. w = [c] \<and> c \<in> set cs)"
  unfolding one_of_def by (rule reads_cls)

lemma reads_star_cls [reads_intros]: "reads (star (Cls p)) (list_all p)"
  by (auto simp: reads_def matches_star_cls_iff)

lemma reads_plus_cls [reads_intros]: "reads (plus (Cls p)) (\<lambda>w. w \<noteq> [] \<and> list_all p w)"
  by (auto simp: reads_def matches_plus_cls_iff)

lemma reads_opt [reads_intros]: "reads r P \<Longrightarrow> reads (opt r) (\<lambda>w. P w \<or> w = [])"
  unfolding reads_def matches_opt_iff by auto

lemma reads_seq [reads_intros]:
  assumes "reads r P" and "reads s Q"
  shows "reads (Seq r s) (\<lambda>w. \<exists>u v. w = u @ v \<and> P u \<and> Q v)"
proof -
  have "matches (Seq r s) (b, a, g) st \<longleftrightarrow>
      (\<exists>w a'. (\<exists>u v. w = u @ v \<and> P u \<and> Q v) \<and> a = w @ a' \<and> st = (rev w @ b, a', g))"
    (is "?l \<longleftrightarrow> ?r") for b a g st
  proof
    assume ?l
    then obtain st1 where "matches r (b, a, g) st1" "matches s st1 st"
      by auto
    then obtain u a1 v a2 where "P u" "a = u @ a1" "Q v" "a1 = v @ a2"
        "st = (rev v @ rev u @ b, a2, g)"
      by (auto simp: reads_iff [OF assms(1)] reads_iff [OF assms(2)])
    then show ?r
      by (intro exI [of _ "u @ v"] exI [of _ a2]) auto
  next
    assume ?r
    then obtain u v a' where uv: "P u" "Q v" "a = u @ v @ a'" "st = (rev v @ rev u @ b, a', g)"
      by auto
    then have "matches r (b, a, g) (rev u @ b, v @ a', g)"
      by (auto simp: reads_iff [OF assms(1)])
    moreover have "matches s (rev u @ b, v @ a', g) st"
      using uv by (auto simp: reads_iff [OF assms(2)])
    ultimately show ?l by auto
  qed
  then show ?thesis by (simp add: reads_def)
qed

lemma reads_alt [reads_intros]:
  "reads r P \<Longrightarrow> reads s Q \<Longrightarrow> reads (Alt r s) (\<lambda>w. P w \<or> Q w)"
  unfolding reads_def by auto

text \<open>Rewriting rules for the start of a sequence.\<close>

lemma can_seq:
  assumes "reads r P"
  shows "can (Seq r s) (b, a, g) \<longleftrightarrow> (\<exists>w a'. P w \<and> a = w @ a' \<and> can s (rev w @ b, a', g))"
  by (auto simp: can_def reads_iff [OF assms])

lemma can_reads:
  assumes "reads r P"
  shows "can r (b, a, g) \<longleftrightarrow> (\<exists>w a'. P w \<and> a = w @ a')"
  by (auto simp: can_def reads_iff [OF assms])

lemma can_bos [simp]: "can (Seq Bos s) (b, a, g) \<longleftrightarrow> b = [] \<and> can s (b, a, g)"
  by (auto simp: can_def)

lemma can_eos [simp]: "can Eos (b, a, g) \<longleftrightarrow> at_eos a"
  by (auto simp: can_def)

lemma at_eos_iff: "at_eos a \<longleftrightarrow> a \<in> {[], [CHR 0x0A]}"
  by (cases a) auto

lemma re_match_can: "re_match r s \<noteq> None \<longleftrightarrow> can r ([], s, [])"
  using re_match_None_iff [of r s] by (auto simp: can_def)

lemma re_search_can: "re_search r s \<longleftrightarrow> (\<exists>p q. s = p @ q \<and> can r (rev p, q, []))"
  by (auto simp: can_def re_search_iff)

section \<open>Words a pattern needs\<close>

text \<open>A pattern \<open>needs\<close> a set of words when every match starts before one of them.\<close>

definition needs :: "re \<Rightarrow> string list \<Rightarrow> bool" where
  "needs r ws \<longleftrightarrow> (\<forall>b a g st'. matches r (b, a, g) st' \<longrightarrow> (\<exists>w \<in> set ws. sublist w a))"

lemma needsD: "needs r ws \<Longrightarrow> matches r (b, a, g) st' \<Longrightarrow> \<exists>w \<in> set ws. sublist w a"
  unfolding needs_def by blast

lemma needsI: "(\<And>b a g st'. matches r (b, a, g) st' \<Longrightarrow> \<exists>w \<in> set ws. sublist w a) \<Longrightarrow> needs r ws"
  unfolding needs_def by blast

lemma needs_lit: "w \<in> set ws \<Longrightarrow> needs (lit w) ws"
  by (rule needsI) (auto simp: matches_lit_iff intro!: bexI [of _ w])

lemma needs_alts: "(\<And>r. r \<in> set rs \<Longrightarrow> needs r ws) \<Longrightarrow> needs (alts rs) ws"
  by (rule needsI) (auto simp: matches_alts_iff dest: needsD)

lemma needs_lits: "set vs \<subseteq> set ws \<Longrightarrow> needs (lits vs) ws"
  unfolding lits_def by (rule needs_alts) (auto intro: needs_lit)

lemma needs_seq_left: "needs r ws \<Longrightarrow> needs (Seq r s) ws"
  by (rule needsI) (auto dest: needsD)

lemma needs_seq_right:
  assumes "needs s ws"
  shows "needs (Seq r s) ws"
proof (rule needsI)
  fix b a g st'
  assume "matches (Seq r s) (b, a, g) st'"
  then obtain st1 where m: "matches r (b, a, g) st1" "matches s st1 st'"
    by auto
  obtain b1 a1 g1 where st1: "st1 = (b1, a1, g1)" by (cases st1)
  obtain w where "w \<in> set ws" "sublist w a1"
    using needsD [OF assms m(2) [unfolded st1]] by blast
  moreover have "suffix a1 a"
    using matches_suffix [OF m(1)] by (simp add: st1)
  ultimately show "\<exists>w \<in> set ws. sublist w a"
    by (meson sublist_order.order.trans suffix_imp_sublist)
qed

lemma needs_seqs: "r \<in> set rs \<Longrightarrow> needs r ws \<Longrightarrow> needs (seqs rs) ws"
  by (induction rs rule: seqs.induct) (auto intro: needs_seq_left needs_seq_right)

text \<open>A text without the needed words is scanned without a hit.\<close>

lemma re_scan_no_match:
  "(\<And>p q. a = p @ q \<Longrightarrow> mt r (rev p @ b, q, []) = []) \<Longrightarrow> re_scan r b a = map Gap a"
proof (induction a arbitrary: b)
  case Nil
  from Nil [of "[]" "[]"] show ?case
    by (subst re_scan.simps) simp
next
  case (Cons c a)
  have "mt r (b, c # a, []) = []"
    using Cons.prems [of "[]" "c # a"] by simp
  moreover have "re_scan r (c # b) a = map Gap a"
    using Cons.prems [of "c # p" for p] by (intro Cons.IH) auto
  ultimately show ?case
    by (subst re_scan.simps) simp
qed

lemma re_scan_needs:
  assumes "needs r ws" and "\<And>w. w \<in> set ws \<Longrightarrow> \<not> sublist w a"
  shows "re_scan r b a = map Gap a"
proof (rule re_scan_no_match)
  fix p q assume a: "a = p @ q"
  have "\<not> matches r (rev p @ b, q, []) st'" for st'
  proof
    assume "matches r (rev p @ b, q, []) st'"
    then obtain w where "w \<in> set ws" "sublist w q"
      using needsD [OF assms(1)] by blast
    then show False
      using assms(2) [of w] sublist_append by (auto simp: a)
  qed
  then show "mt r (rev p @ b, q, []) = []"
    by (simp add: mt_Nil_iff)
qed

lemma concat_map_sub_gaps: "concat (map (sub_piece f) (map Gap a)) = a"
  by (induction a) auto

lemma re_sub_needs:
  assumes "needs r ws" and "\<And>w. w \<in> set ws \<Longrightarrow> \<not> sublist w a"
  shows "re_sub r f a = a"
  unfolding re_sub_def by (simp only: re_scan_needs [OF assms] concat_map_sub_gaps)

lemma needs_chr: "[c] \<in> set ws \<Longrightarrow> needs (chr c) ws"
  by (rule needsI) (auto simp: matches_chr_iff intro!: bexI [of _ "[c]"])

lemma sublist_singleton: "sublist [c] s \<longleftrightarrow> c \<in> set s"
  by (metis in_set_conv_decomp sublist_def append_Cons append_Nil)

section \<open>Sizes\<close>

text \<open>The visible characters of a text; white space does not count.\<close>

definition ink :: "string \<Rightarrow> nat" where
  "ink s = length (filter (\<lambda>c. \<not> is_space c) s)"

lemma ink_simps [simp]:
  "ink [] = 0"
  "ink (c # s) = (if is_space c then ink s else Suc (ink s))"
  "ink (s @ t) = ink s + ink t"
  by (simp_all add: ink_def)

lemma ink_sublist: "sublist s t \<Longrightarrow> ink s \<le> ink t"
  unfolding ink_def by (rule count_filter_sublist)

lemma ink_concat: "ink (concat ws) = sum_list (map ink ws)"
  by (induction ws) auto

lemma ink_join_blank: "ink (join '' '' ws) = sum_list (map ink ws)"
proof (induction "'' ''" ws rule: join.induct)
  case (3 w v ws)
  then show ?case by (simp add: is_space_code)
qed simp_all

text \<open>Replacing matches by text with no visible characters never adds any.\<close>

lemma ink_pieces:
  assumes "\<And>st st'. ink (f st st') \<le> ink (hit_text st st')"
  shows "ink (concat (map (sub_piece f) ps)) \<le> ink (concat (map piece_text ps))"
proof (induction ps)
  case (Cons p ps)
  have "ink (sub_piece f p) \<le> ink (piece_text p)"
    using assms by (cases p) (simp_all del: hit_text.simps)
  with Cons show ?case by simp
qed simp

lemma ink_re_sub: "(\<And>st st'. ink (f st st') \<le> ink (hit_text st st')) \<Longrightarrow> ink (re_sub r f s) \<le> ink s"
  unfolding re_sub_def using ink_pieces [of f "re_scan r [] s"] re_scan_text [of r "[]" s] by simp

lemma ink_findall: "sum_list (map ink (re_findall r s)) \<le> ink s"
proof -
  have "sum_list (map ink (concat (map hit_of ps))) \<le> ink (concat (map piece_text ps))" for ps
  proof (induction ps)
    case (Cons p ps)
    then show ?case by (cases p) (auto simp del: hit_text.simps)
  qed simp
  from this [of "re_scan r [] s"] show ?thesis
    by (simp add: re_findall_def re_scan_text)
qed

text \<open>Patterns whose matches are never empty.\<close>

definition consumes :: "re \<Rightarrow> bool" where
  "consumes r \<longleftrightarrow> (\<forall>st st'. matches r st st' \<longrightarrow>
     length (fst (snd st')) < length (fst (snd st)))"

lemma consumesD:
  "consumes r \<Longrightarrow> matches r st st' \<Longrightarrow> length (fst (snd st')) < length (fst (snd st))"
  unfolding consumes_def by blast

lemma consumesI:
  "(\<And>st st'. matches r st st' \<Longrightarrow> length (fst (snd st')) < length (fst (snd st))) \<Longrightarrow> consumes r"
  unfolding consumes_def by blast

lemma consumes_reads: "reads r P \<Longrightarrow> \<not> P [] \<Longrightarrow> consumes r"
proof (rule consumesI)
  fix st st' assume r: "reads r P" "\<not> P []" "matches r st st'"
  obtain b a g where "st = (b, a, g)" by (cases st)
  with r obtain w a' where "P w" "a = w @ a'" "st' = (rev w @ b, a', g)" "st = (b, a, g)"
    by (auto simp: reads_def)
  with r(2) show "length (fst (snd st')) < length (fst (snd st))"
    by (cases w) auto
qed

lemma consumes_seq:
  assumes "consumes r \<or> consumes s"
  shows "consumes (Seq r s)"
proof (rule consumesI)
  fix st st' assume "matches (Seq r s) st st'"
  then obtain st1 where m: "matches r st st1" "matches s st1 st'"
    by auto
  note matches_length [OF m(1)] matches_length [OF m(2)]
  then show "length (fst (snd st')) < length (fst (snd st))"
    using assms consumesD [OF _ m(1)] consumesD [OF _ m(2)] by fastforce
qed

lemma consumes_seqs: "r \<in> set rs \<Longrightarrow> consumes r \<Longrightarrow> consumes (seqs rs)"
  by (induction rs rule: seqs.induct) (auto intro: consumes_seq)

lemma consumes_alt: "consumes r \<Longrightarrow> consumes s \<Longrightarrow> consumes (Alt r s)"
  by (rule consumesI) (auto dest: consumesD)

lemma consumes_grp: "consumes r \<Longrightarrow> consumes (Grp n r)"
  by (rule consumesI) (auto simp: matches_grp_iff dest: consumesD)

text \<open>The last group of a pattern that first consumes something is shorter than the text.\<close>

lemma last_group:
  assumes "re_match (Seq r (Grp n s)) t = Some st" and "consumes r"
  shows "\<exists>w. group n st = Some w \<and> sublist w t \<and> length w < length t"
proof -
  obtain st1 where m: "matches r ([], t, []) st1" "matches (Grp n s) st1 st"
    using re_match_matches [OF assms(1)] by auto
  obtain b1 a1 g1 where st1: "st1 = (b1, a1, g1)" by (cases st1)
  obtain b' a' g' where st: "st = (b', a', (n, taken a1 a') # g')"
    using m(2) by (auto simp: st1 matches_grp_iff)
  have "length a1 < length t" "suffix a1 t"
    using consumesD [OF assms(2) m(1)] matches_suffix [OF m(1)] by (simp_all add: st1)
  moreover have "prefix (taken a1 a') a1"
    by (simp add: taken_def take_is_prefix)
  ultimately have "sublist (taken a1 a') t" "length (taken a1 a') < length t"
    by (meson prefix_imp_sublist suffix_imp_sublist sublist_order.order.trans)
      (use \<open>length a1 < length t\<close> in \<open>auto simp: taken_def\<close>)
  then show ?thesis
    by (simp add: st group_def)
qed

section \<open>The match that the engine takes\<close>

text \<open>
  The first match in the order of the search, which is the one that the entry points use. A greedy
  repetition of a class takes the longest run.
\<close>

definition takes_first :: "re \<Rightarrow> cursor \<Rightarrow> cursor \<Rightarrow> bool" where
  "takes_first r st st' \<longleftrightarrow> (\<exists>more. mt r st = st' # more)"

lemma first_cls: "p c \<Longrightarrow> takes_first (Cls p) (b, c # a, g) (c # b, a, g)"
  by (simp add: takes_first_def)

lemma first_chr: "takes_first (chr c) (b, c # a, g) (c # b, a, g)"
  by (simp add: takes_first_def chr_def)

lemma first_bos: "takes_first Bos ([], a, g) ([], a, g)"
  by (simp add: takes_first_def)

lemma first_seq:
  "takes_first r st st1 \<Longrightarrow> takes_first s st1 st2 \<Longrightarrow> takes_first (Seq r s) st st2"
  by (auto simp: takes_first_def)

lemma first_alt: "takes_first r st st' \<Longrightarrow> takes_first (Alt r s) st st'"
  by (auto simp: takes_first_def)

lemma first_alt_right: "mt r st = [] \<Longrightarrow> takes_first s st st' \<Longrightarrow> takes_first (Alt r s) st st'"
  by (simp add: takes_first_def)

lemma first_grp:
  "takes_first r (b, a, g) (b', a', g') \<Longrightarrow> takes_first (Grp n r) (b, a, g) (b', a', (n, taken a a') # g')"
  by (auto simp: takes_first_def)

lemma many_longest:
  assumes step: "\<And>b c a. p c \<Longrightarrow> f (b, c # a, g) = [(c # b, a, g)]"
    and stop: "\<And>b a. \<not> head_is p a \<Longrightarrow> f (b, a, g) = []"
  shows "list_all p w \<Longrightarrow> \<not> head_is p rest \<Longrightarrow> length w \<le> length k \<Longrightarrow>
    \<exists>more. many_it True f k (b, w @ rest, g) = (rev w @ b, rest, g) # more"
proof (induction w arbitrary: b k)
  case Nil
  then show ?case
    by (cases k) (simp_all add: Let_def stop)
next
  case (Cons c w)
  then obtain x k' where k: "k = x # k'" "length w \<le> length k'"
    by (cases k) auto
  then obtain more where "many_it True f k' (c # b, w @ rest, g) = (rev w @ c # b, rest, g) # more"
    using Cons by fastforce
  then show ?case
    using Cons.prems by (simp add: k Let_def step)
qed

lemma first_star_cls:
  assumes "list_all p w" "\<not> head_is p rest"
  shows "takes_first (star (Cls p)) (b, w @ rest, g) (rev w @ b, rest, g)"
proof -
  have step: "mt (Cls p) (b, c # a, g) = [(c # b, a, g)]" if "p c" for b c a
    using that by simp
  have stop: "mt (Cls p) (b, a, g) = []" if "\<not> head_is p a" for b a
    using that by (cases a) simp_all
  show ?thesis
    using many_longest [of p "mt (Cls p)" g w rest "w @ rest" b, OF step stop] assms
    by (auto simp: takes_first_def star_def)
qed

lemma first_plus_cls:
  assumes "w \<noteq> []" "list_all p w" "\<not> head_is p rest"
  shows "takes_first (plus (Cls p)) (b, w @ rest, g) (rev w @ b, rest, g)"
proof -
  obtain c v where w: "w = c # v"
    using assms(1) by (cases w) auto
  have "takes_first (Cls p) (b, w @ rest, g) (c # b, v @ rest, g)"
    using assms(2) by (simp add: w first_cls)
  moreover have "takes_first (star (Cls p)) (c # b, v @ rest, g) (rev v @ c # b, rest, g)"
    using assms(2,3) by (intro first_star_cls) (simp_all add: w)
  ultimately show ?thesis
    unfolding plus_def by (simp add: w first_seq)
qed

lemma re_match_first: "takes_first r ([], s, []) st \<Longrightarrow> re_match r s = Some st"
  by (auto simp: takes_first_def re_match_def)

lemma re_scan_first:
  assumes "takes_first r (b, d @ rest, []) (rev d @ b, rest, g)" "d \<noteq> []"
  shows "re_scan r b (d @ rest) = Hit (b, d @ rest, []) (rev d @ b, rest, g) # re_scan r (rev d @ b) rest"
proof -
  obtain more where "mt r (b, d @ rest, []) = (rev d @ b, rest, g) # more"
    using assms(1) by (auto simp: takes_first_def)
  then show ?thesis
    using assms(2) by (subst re_scan.simps) simp
qed

end
