(* ===== verification/Guard_Danger.thy ===== *)
theory Guard_Danger
  imports Py_Re
begin

text \<open>
  The hard blocklist of \<open>autonomous-exec-hook.py\<close>: the patterns of \<open>DANGEROUS_PATTERNS\<close>,
  transcribed from their source, and \<open>is_dangerous_command\<close>. The lemmas say, for commands
  of any length and with any surrounding text, which spellings of privileged commands and of piped
  downloads are caught, and which keyword a caught command must contain.
\<close>

section \<open>The patterns\<close>

text \<open>\<^verbatim>\<open>(?:^|[\n;&|(`]\s*)\b(?:sudo|su|doas)\b\<close>\<close>

definition separators :: string where
  "separators = [CHR 0x0A, CHR '';'', CHR ''&'', CHR ''|'', CHR ''('', CHR 0x60]"

definition re_privileged :: re where
  "re_privileged = seqs
     [Alt Bol (Seq (one_of separators) (star space)),
      WordB, lits [''sudo'', ''su'', ''doas''], WordB]"

text \<open>\<^verbatim>\<open>\b(?:git|hg)\b(?:\s+-\S+(?:\s+\S+)?)*\s+push\b\<close>\<close>

definition re_option_arg :: re where
  "re_option_arg = seqs
     [plus space, chr CHR ''-'', plus nonspace, opt (Seq (plus space) (plus nonspace))]"

definition re_push :: re where
  "re_push = seqs
     [WordB, lits [''git'', ''hg''], WordB, star re_option_arg,
      plus space, lit ''push'', WordB]"

text \<open>\<^verbatim>\<open>\bgh\s+(?:pr\s+merge|release\s+create|repo\s+delete)\b\<close>\<close>

definition two_words :: "string \<Rightarrow> string \<Rightarrow> re" where
  "two_words v w = seqs [lit v, plus space, lit w]"

definition re_gh :: re where
  "re_gh = seqs
     [WordB, lit ''gh'', plus space,
      alts [two_words ''pr'' ''merge'', two_words ''release'' ''create'',
            two_words ''repo'' ''delete''],
      WordB]"

text \<open>
  \<^verbatim>\<open>\brm\b(?=[^\n;&|]*(?:\s-[a-zA-Z]*[rR]|\s--recursive))\<close>
  \<^verbatim>\<open>(?=[^\n;&|]*(?:\s-[a-zA-Z]*f|\s--force))[^\n;&|]*\s+\<close>
  \<^verbatim>\<open>(?:/(?:\*|\s|$)|~(?:/|\s|$)|\$HOME\b|\$\{HOME\})\<close>
\<close>

definition in_segment :: "char \<Rightarrow> bool" where
  "in_segment c \<longleftrightarrow> c \<notin> set [CHR 0x0A, CHR '';'', CHR ''&'', CHR ''|'']"

definition re_recursive_flag :: re where
  "re_recursive_flag = Alt
     (seqs [space, chr CHR ''-'', star (Cls is_alpha_az), one_of ''rR''])
     (Seq space (lit ''--recursive''))"

definition re_force_flag :: re where
  "re_force_flag = Alt
     (seqs [space, chr CHR ''-'', star (Cls is_alpha_az), chr CHR ''f''])
     (Seq space (lit ''--force''))"

definition re_root_targets :: "re list" where
  "re_root_targets =
     [Seq (chr CHR ''/'') (alts [chr CHR ''*'', space, Eol]),
      Seq (chr CHR ''~'') (alts [chr CHR ''/'', space, Eol]),
      Seq (lit ''$HOME'') WordB,
      lit ''${HOME}'']"

definition re_root_target :: re where
  "re_root_target = alts re_root_targets"

definition re_rm_root :: re where
  "re_rm_root = seqs
     [WordB, lit ''rm'', WordB,
      Look (Seq (star (Cls in_segment)) re_recursive_flag),
      Look (Seq (star (Cls in_segment)) re_force_flag),
      star (Cls in_segment), plus space, re_root_target]"

text \<open>\<^verbatim>\<open>\b(?:mkfs|fdisk|diskutil\s+erase|shutdown|reboot|halt|poweroff)\b\<close>\<close>

definition re_system :: re where
  "re_system = seqs
     [WordB,
      alts [lit ''mkfs'', lit ''fdisk'', two_words ''diskutil'' ''erase'', lit ''shutdown'',
            lit ''reboot'', lit ''halt'', lit ''poweroff''],
      WordB]"

text \<open>\<^verbatim>\<open>\bdd\s+if=\<close>\<close>

definition re_dd :: re where
  "re_dd = seqs [WordB, lit ''dd'', plus space, lit ''if='']"

text \<open>\<^verbatim>\<open>\b(?:curl|wget)\b[^|\n]*\|\s*(?:ba|z)?sh\b\<close>\<close>

definition re_pipe_shell :: re where
  "re_pipe_shell = seqs
     [WordB, lits [''curl'', ''wget''], WordB, star (none_of [CHR ''|'', CHR 0x0A]),
      chr CHR ''|'', star space, opt (lits [''ba'', ''z'']), lit ''sh'', WordB]"

definition DANGEROUS_PATTERNS :: "re list" where
  "DANGEROUS_PATTERNS =
     [re_privileged, re_push, re_gh, re_rm_root, re_system, re_dd, re_pipe_shell]"

fun any_search :: "re list \<Rightarrow> string \<Rightarrow> bool" where
  "any_search [] cmd = False"
| "any_search (pat # pats) cmd = (if re_search pat cmd then True else any_search pats cmd)"

definition is_dangerous_command :: "string \<Rightarrow> bool" where
  "is_dangerous_command cmd = any_search DANGEROUS_PATTERNS cmd"

section \<open>What a search over a list of patterns promises\<close>

text \<open>
  The blocklist relies on the regular expressions only through this interface: a search
  succeeds exactly when the text has a cut at which the pattern occurs.
\<close>

locale pattern_search =
  fixes search :: "'re \<Rightarrow> string \<Rightarrow> bool"
    and occurs :: "'re \<Rightarrow> string \<Rightarrow> string \<Rightarrow> bool"
  assumes search_cut: "search r s \<longleftrightarrow> (\<exists>p q. s = p @ q \<and> occurs r p q)"
begin

lemma occurs_search: "occurs r p q \<Longrightarrow> search r (p @ q)"
  by (auto simp: search_cut)

lemma occurs_listed: "r \<in> set rs \<Longrightarrow> occurs r p q \<Longrightarrow> \<exists>r \<in> set rs. search r (p @ q)"
  by (auto intro: occurs_search)

lemma listed_occurs: "\<exists>r \<in> set rs. search r s \<Longrightarrow> \<exists>r \<in> set rs. \<exists>p q. s = p @ q \<and> occurs r p q"
  by (auto simp: search_cut)

end

definition occurs_at :: "re \<Rightarrow> string \<Rightarrow> string \<Rightarrow> bool" where
  "occurs_at r p q \<longleftrightarrow> (\<exists>st'. matches r (rev p, q, []) st')"

interpretation py_re: pattern_search re_search occurs_at
  by unfold_locales (auto simp: re_search_iff occurs_at_def)

lemma any_search_iff: "any_search pats cmd \<longleftrightarrow> (\<exists>pat \<in> set pats. re_search pat cmd)"
  by (induction pats) auto

lemma dangerous_occurs:
  "r \<in> set DANGEROUS_PATTERNS \<Longrightarrow> occurs_at r p q \<Longrightarrow> is_dangerous_command (p @ q)"
  unfolding is_dangerous_command_def any_search_iff by (rule py_re.occurs_listed)

lemma dangerous_cut:
  "is_dangerous_command s \<Longrightarrow>
     \<exists>r \<in> set DANGEROUS_PATTERNS. \<exists>p q. s = p @ q \<and> occurs_at r p q"
  unfolding is_dangerous_command_def any_search_iff by (rule py_re.listed_occurs)

section \<open>Places in a command\<close>

text \<open>No word character before, respectively after, a place of the command.\<close>

definition word_start :: "string \<Rightarrow> bool" where
  "word_start p \<longleftrightarrow> \<not> head_is is_word (rev p)"

definition word_end :: "string \<Rightarrow> bool" where
  "word_end q \<longleftrightarrow> \<not> head_is is_word q"

definition spaces :: "string \<Rightarrow> bool" where
  "spaces w \<longleftrightarrow> w \<noteq> [] \<and> list_all is_space w"

definition nonspaces :: "string \<Rightarrow> bool" where
  "nonspaces w \<longleftrightarrow> w \<noteq> [] \<and> list_all (\<lambda>c. \<not> is_space c) w"

text \<open>
  A place where the blocklist looks for a privileged command: the start of a line, or
  after a separator and optional white space.
\<close>

definition command_start :: "string \<Rightarrow> bool" where
  "command_start p \<longleftrightarrow> at_bol (rev p) \<or>
     (\<exists>p' c ws. p = p' @ c # ws \<and> c \<in> set separators \<and> list_all is_space ws)"

lemma separator_not_word: "c \<in> set separators \<Longrightarrow> \<not> is_word c"
  by (auto simp: separators_def is_word_def is_alnum_def is_alnum_az_def is_digit09_code
      is_alpha_az_code is_alnum_high_code)

lemma head_is_append: "head_is P (v @ w) = (if v = [] then head_is P w else P (hd v))"
  by (cases v) auto

lemma spaces_word_end: "spaces w \<Longrightarrow> word_end (w @ q)"
  by (cases w) (auto simp: spaces_def word_end_def dest: is_word_space_disjoint)

lemma command_start_word_start: "command_start p \<Longrightarrow> word_start p"
proof -
  assume "command_start p"
  then consider "at_bol (rev p)"
    | p' c ws where "p = p' @ c # ws" "c \<in> set separators" "list_all is_space ws"
    unfolding command_start_def by blast
  then show ?thesis
  proof cases
    case 1
    then show ?thesis
      by (cases "rev p") (auto simp: word_start_def is_word_def is_alnum_def is_alnum_az_def
          is_digit09_code is_alpha_az_code is_alnum_high_code)
  next
    case 2
    then show ?thesis
      by (cases ws rule: rev_cases) (auto simp: word_start_def dest: separator_not_word
          is_word_space_disjoint)
  qed
qed

text \<open>A word boundary on either side of a word.\<close>

lemma boundary_before:
  "word_start p \<Longrightarrow> head_is is_word w \<Longrightarrow> matches WordB (rev p, w @ q, g) (rev p, w @ q, g)"
  by (cases w) (auto simp: word_start_def at_word_boundary_def)

lemma boundary_after:
  "word_end q \<Longrightarrow> head_is is_word (rev w) \<Longrightarrow>
     matches WordB (rev w @ b, q, g) (rev w @ b, q, g)"
  by (cases "rev w") (auto simp: word_end_def at_word_boundary_def)

section \<open>Commands the blocklist catches\<close>

lemma privileged_words:
  "w \<in> set [''sudo'', ''su'', ''doas''] \<Longrightarrow> head_is is_word w \<and> head_is is_word (rev w)"
  by (auto simp: is_word_def is_alnum_def is_alnum_az_def is_alpha_az_code)

lemma privileged_prefix:
  assumes "command_start p"
  shows "\<exists>p1 p2. p = p1 @ p2 \<and>
    matches (Alt Bol (Seq (one_of separators) (star space))) (rev p1, p2 @ q, []) (rev p, q, [])"
proof -
  from assms consider "at_bol (rev p)"
    | p' c ws where "p = p' @ c # ws" "c \<in> set separators" "list_all is_space ws"
    unfolding command_start_def by blast
  then show ?thesis
  proof cases
    case 1
    then show ?thesis
      by (intro exI [of _ p] exI [of _ "[]"]) simp
  next
    case 2
    have "matches (one_of separators) (rev p', c # ws @ q, []) (c # rev p', ws @ q, [])"
      using 2 by (intro matches_one_of)
    moreover have "matches (star space) (c # rev p', ws @ q, []) (rev ws @ c # rev p', q, [])"
      unfolding space_def using 2 by (intro matches_star_cls)
    ultimately show ?thesis
      using 2 by (intro exI [of _ p'] exI [of _ "c # ws"]) auto
  qed
qed

lemma privileged_dangerous:
  assumes "command_start p" and "w \<in> set [''sudo'', ''su'', ''doas'']" and "word_end q"
  shows "is_dangerous_command (p @ w @ q)"
proof -
  obtain p1 p2 where p: "p = p1 @ p2" and m:
    "matches (Alt Bol (Seq (one_of separators) (star space))) (rev p1, p2 @ w @ q, [])
       (rev p, w @ q, [])"
    using privileged_prefix [OF assms(1)] by blast
  have "matches WordB (rev p, w @ q, []) (rev p, w @ q, [])"
    using command_start_word_start [OF assms(1)] privileged_words [OF assms(2)]
    by (intro boundary_before) auto
  moreover have "matches (lits [''sudo'', ''su'', ''doas'']) (rev p, w @ q, [])
      (rev w @ rev p, q, [])"
    using assms(2) by (rule matches_lits)
  moreover have "matches WordB (rev w @ rev p, q, []) (rev w @ rev p, q, [])"
    using assms(3) privileged_words [OF assms(2)] by (intro boundary_after) auto
  ultimately have "matches re_privileged (rev p1, p2 @ w @ q, []) (rev w @ rev p, q, [])"
    unfolding re_privileged_def seqs.simps using m by (blast intro: matches.seq)
  then have "is_dangerous_command (p1 @ p2 @ w @ q)"
    by (intro dangerous_occurs [where r = re_privileged])
      (auto simp: DANGEROUS_PATTERNS_def occurs_at_def)
  with p show ?thesis by simp
qed

lemma pipe_shell_dangerous:
  assumes "word_start p" and "v \<in> set [''curl'', ''wget'']"
    and "word_end (mid @ ''|'' @ ws @ sh @ q)"
    and "CHR ''|'' \<notin> set mid" and "CHR 0x0A \<notin> set mid" and "list_all is_space ws"
    and "sh \<in> set [''sh'', ''bash'', ''zsh'']" and "word_end q"
  shows "is_dangerous_command (p @ v @ mid @ ''|'' @ ws @ sh @ q)"
proof -
  let ?b = "rev v @ rev p"
  let ?b1 = "rev ws @ CHR ''|'' # rev mid @ ?b"
  have hv: "head_is is_word v \<and> head_is is_word (rev v)"
    using assms(2) by (auto simp: is_word_def is_alnum_def is_alnum_az_def is_alpha_az_code)
  obtain pre where sh: "sh = pre @ ''sh''" and pre: "pre \<in> {[], ''ba'', ''z''}"
    using assms(7) by auto
  have "matches WordB (rev p, v @ mid @ ''|'' @ ws @ sh @ q, [])
      (rev p, v @ mid @ ''|'' @ ws @ sh @ q, [])"
    using assms(1) hv by (intro boundary_before) auto
  moreover have "matches (lits [''curl'', ''wget'']) (rev p, v @ mid @ ''|'' @ ws @ sh @ q, [])
      (?b, mid @ ''|'' @ ws @ sh @ q, [])"
    using assms(2) by (rule matches_lits)
  moreover have "matches WordB (?b, mid @ ''|'' @ ws @ sh @ q, []) (?b, mid @ ''|'' @ ws @ sh @ q, [])"
    using assms(3) hv by (intro boundary_after) auto
  moreover have "matches (star (none_of [CHR ''|'', CHR 0x0A])) (?b, mid @ ''|'' @ ws @ sh @ q, [])
      (rev mid @ ?b, ''|'' @ ws @ sh @ q, [])"
    unfolding none_of_def using assms(4,5) by (intro matches_star_cls) (auto simp: list_all_iff)
  moreover have "matches (chr CHR ''|'') (rev mid @ ?b, ''|'' @ ws @ sh @ q, [])
      (CHR ''|'' # rev mid @ ?b, ws @ sh @ q, [])"
    by (simp add: matches_chr)
  moreover have "matches (star space) (CHR ''|'' # rev mid @ ?b, ws @ sh @ q, []) (?b1, sh @ q, [])"
    unfolding space_def using assms(6) by (rule matches_star_cls)
  moreover have "matches (opt (lits [''ba'', ''z''])) (?b1, sh @ q, []) (rev pre @ ?b1, ''sh'' @ q, [])"
    using pre matches_lits [of pre "[''ba'', ''z'']" ?b1 "''sh'' @ q" "[]"]
    unfolding sh matches_opt_iff by auto
  moreover have "matches (lit ''sh'') (rev pre @ ?b1, ''sh'' @ q, [])
      (rev ''sh'' @ rev pre @ ?b1, q, [])"
    by (rule matches_lit)
  moreover have "matches WordB (rev ''sh'' @ rev pre @ ?b1, q, []) (rev ''sh'' @ rev pre @ ?b1, q, [])"
    using assms(8) by (intro boundary_after)
      (simp_all add: is_word_def is_alnum_def is_alnum_az_def is_alpha_az_code)
  ultimately have "occurs_at re_pipe_shell p (v @ mid @ ''|'' @ ws @ sh @ q)"
    unfolding re_pipe_shell_def seqs.simps occurs_at_def by (blast intro: matches.seq)
  then show ?thesis
    by (intro dangerous_occurs [where r = re_pipe_shell]) (simp_all add: DANGEROUS_PATTERNS_def)
qed

section \<open>What a caught command contains\<close>

text \<open>
  A caught command contains one of these as a word of its own, with no word character on either
  side. \<open>finds_word\<close> looks for one in a single pass.
\<close>

definition blocklist_words :: "string list" where
  "blocklist_words = [''sudo'', ''su'', ''doas'', ''push'', ''gh'', ''rm'', ''mkfs'', ''fdisk'', ''diskutil'',
     ''shutdown'', ''reboot'', ''halt'', ''poweroff'', ''dd'', ''curl'', ''wget'']"

definition has_word :: "string list \<Rightarrow> string \<Rightarrow> bool" where
  "has_word ws s \<longleftrightarrow> (\<exists>w \<in> set ws. \<exists>p q. s = p @ w @ q \<and> word_start p \<and> word_end q)"

fun finds_word :: "string list \<Rightarrow> bool \<Rightarrow> string \<Rightarrow> bool" where
  "finds_word ws in_word [] = False"
| "finds_word ws in_word (c # s) =
     (if in_word then finds_word ws (is_word c) s
      else if list_ex (\<lambda>w. if prefix w (c # s) then word_end (drop (length w) (c # s)) else False) ws then True
      else finds_word ws (is_word c) s)"

lemma finds_word_at:
  "w \<in> set ws \<Longrightarrow> w \<noteq> [] \<Longrightarrow> \<not> head_is is_word (rev p @ b) \<Longrightarrow> word_end q \<Longrightarrow>
     finds_word ws (head_is is_word b) (p @ w @ q)"
proof (induction p arbitrary: b)
  case Nil
  then obtain c v where w: "w = c # v"
    using list.exhaust [of w] by blast
  have "list_ex (\<lambda>w'. if prefix w' (w @ q) then word_end (drop (length w') (w @ q)) else False) ws"
    using Nil by (auto simp: list_ex_iff intro!: bexI [of _ w])
  then have "list_ex (\<lambda>w'. if prefix w' (c # v @ q) then word_end (drop (length w') (c # v @ q)) else False) ws"
    by (simp only: w append_Cons)
  then show ?case
    using Nil.prems(3) by (simp only: w append_Nil append_Cons finds_word.simps rev.simps if_True if_False)
next
  case (Cons c p)
  then show ?case
    using Cons.IH [of "c # b"] by simp
qed

lemma has_word_found: "has_word ws s \<Longrightarrow> [] \<notin> set ws \<Longrightarrow> finds_word ws False s"
  using finds_word_at [where b = "[]"] by (fastforce simp: has_word_def word_start_def)

text \<open>A pattern that begins with a word between boundaries matches only at such a word.\<close>

definition ends_word :: "re \<Rightarrow> bool" where
  "ends_word r \<longleftrightarrow> (\<forall>b a g st. matches r (b, a, g) st \<longrightarrow> head_is is_word b \<longrightarrow> word_end a)"

definition only_words :: "re \<Rightarrow> bool" where
  "only_words r \<longleftrightarrow> (\<forall>p q g st. matches r (rev p, q, g) st \<longrightarrow> has_word blocklist_words (p @ q))"

lemma ends_boundary: "ends_word (Seq WordB r)" "ends_word WordB"
  by (auto simp: ends_word_def at_word_boundary_def word_end_def)

lemma ends_spaces: "ends_word (Seq (plus space) r)"
proof -
  have "word_end (w @ a)" if "w \<noteq> []" "list_all is_space w" for w a
    using that spaces_word_end by (simp add: spaces_def)
  then show ?thesis
    by (auto simp: ends_word_def space_def matches_plus_cls_iff)
qed

lemma blocklist_spelled: "k \<in> set blocklist_words \<Longrightarrow> head_is is_word k \<and> head_is is_word (rev k)"
proof -
  have "list_all (\<lambda>k. head_is is_word k \<and> head_is is_word (rev k)) blocklist_words"
    by code_simp
  then show "k \<in> set blocklist_words \<Longrightarrow> ?thesis"
    by (simp add: list_all_iff)
qed

lemma only_words_first:
  assumes "ends_word r" "set ks \<subseteq> set blocklist_words"
  shows "only_words (Seq WordB (Seq (lits ks) r))"
  unfolding only_words_def
proof (intro allI impI)
  fix p q g st
  assume "matches (Seq WordB (Seq (lits ks) r)) (rev p, q, g) st"
  then obtain k q' where k: "k \<in> set ks" "q = k @ q'" "at_word_boundary (rev p) q"
      "matches r (rev k @ rev p, q', g) st"
    by (auto simp: matches_lits_iff)
  then have ends: "head_is is_word k" "head_is is_word (rev k)"
    using blocklist_spelled assms(2) by auto
  then have "head_is is_word (rev k @ rev p)"
    by (cases "rev k") auto
  then have "word_end q'"
    using assms(1) k(4) unfolding ends_word_def by blast
  moreover have "word_start p"
    using k(2,3) ends(1) by (cases k) (auto simp: word_start_def at_word_boundary_def)
  ultimately show "has_word blocklist_words (p @ q)"
    using k(1,2) assms(2) by (auto simp: has_word_def)
qed

lemma only_words_lit:
  "ends_word r \<Longrightarrow> k \<in> set blocklist_words \<Longrightarrow> only_words (Seq WordB (Seq (lit k) r))"
  using only_words_first [of r "[k]"] by (simp add: lits_def)

text \<open>What comes before the word does not matter.\<close>

lemma only_words_after:
  assumes "only_words s"
  shows "only_words (Seq r s)"
  unfolding only_words_def
proof (intro allI impI)
  fix p q g st
  assume "matches (Seq r s) (rev p, q, g) st"
  then obtain st1 where m: "matches r (rev p, q, g) st1" "matches s st1 st"
    by auto
  obtain b a g1 where st1: "st1 = (b, a, g1)" by (cases st1)
  then obtain w where "q = w @ a" "b = rev (p @ w)"
    using matches_consumes [OF m(1)] by auto
  then show "has_word blocklist_words (p @ q)"
    using assms m(2) unfolding only_words_def st1 by fastforce
qed

lemma only_words_assoc: "only_words (Seq r (Seq s t)) \<Longrightarrow> only_words (Seq (Seq r s) t)"
  unfolding only_words_def matches_simps by blast

lemma only_words_spaced:
  assumes "k \<in> set blocklist_words"
  shows "only_words (Seq (plus space) (Seq (lit k) WordB))"
  unfolding only_words_def
proof (intro allI impI)
  fix p q g st
  assume "matches (Seq (plus space) (Seq (lit k) WordB)) (rev p, q, g) st"
  then obtain w q' where w: "q = w @ k @ q'" "w \<noteq> []" "list_all is_space w"
      "at_word_boundary (rev k @ rev w @ rev p) q'"
    by (auto simp: space_def matches_plus_cls_iff matches_lit_iff)
  then have "word_start (p @ w)"
    by (cases w rule: rev_cases) (auto simp: word_start_def dest: is_word_space_disjoint)
  moreover have "word_end q'"
    using w(4) blocklist_spelled [OF assms] by (cases "rev k") (auto simp: word_end_def at_word_boundary_def)
  ultimately show "has_word blocklist_words (p @ q)"
    using assms w(1) unfolding has_word_def
    by (intro bexI [of _ k] exI [of _ "p @ w"] exI [of _ q']) simp_all
qed

lemma only_words_patterns:
  assumes "r \<in> set DANGEROUS_PATTERNS"
  shows "only_words r"
proof -
  note kw = blocklist_words_def
  have "only_words re_privileged"
    unfolding re_privileged_def seqs.simps
    by (intro only_words_after only_words_first ends_boundary) (simp add: kw)
  moreover have "only_words re_push"
    unfolding re_push_def seqs.simps by (intro only_words_after only_words_spaced) (simp add: kw)
  moreover have "only_words re_gh" "only_words re_rm_root" "only_words re_dd"
    unfolding re_gh_def re_rm_root_def re_dd_def seqs.simps
    by (intro only_words_lit ends_spaces ends_boundary; simp add: kw)+
  moreover have "only_words re_pipe_shell"
    unfolding re_pipe_shell_def seqs.simps
    by (intro only_words_first ends_boundary) (simp add: kw)
  moreover have "only_words re_system"
  proof -
    have one: "only_words (Seq WordB (Seq r WordB))"
      if "r \<in> set [lit ''mkfs'', lit ''fdisk'', two_words ''diskutil'' ''erase'', lit ''shutdown'',
        lit ''reboot'', lit ''halt'', lit ''poweroff'']" for r
    proof -
      have "only_words (Seq WordB (Seq (Seq (lit ''diskutil'') s) WordB))" if "ends_word (Seq s WordB)" for s
        using only_words_lit [OF that, of "''diskutil''"] unfolding only_words_def matches_simps
        by (simp add: kw) blast
      moreover have "ends_word (Seq (Seq (plus space) (lit ''erase'')) WordB)"
        using ends_spaces [of "Seq (lit ''erase'') WordB"] unfolding ends_word_def matches_simps by blast
      ultimately show ?thesis
        using that only_words_lit [OF ends_boundary(2)] by (auto simp: kw two_words_def)
    qed
    then show ?thesis
      unfolding only_words_def re_system_def seqs.simps matches_simps matches_alts_iff by blast
  qed
  ultimately show ?thesis
    using assms by (auto simp: DANGEROUS_PATTERNS_def)
qed

lemma dangerous_has_word:
  assumes "is_dangerous_command s"
  shows "has_word blocklist_words s"
proof -
  obtain r p q st' where "r \<in> set DANGEROUS_PATTERNS" "s = p @ q" "matches r (rev p, q, []) st'"
    using dangerous_cut [OF assms] by (auto simp: occurs_at_def)
  then show ?thesis
    using only_words_patterns unfolding only_words_def by blast
qed

lemma not_dangerous: "\<not> finds_word blocklist_words False s \<Longrightarrow> \<not> is_dangerous_command s"
  using has_word_found dangerous_has_word by (auto simp: blocklist_words_def)

end
