(* ===== verification/Guard_Scanner.thy ===== *)
theory Guard_Scanner
  imports Py_Re
begin

text \<open>
  The two character scanners of \<open>autonomous-exec-hook.py\<close>: the outer loop of
  \<open>resolve_and_validate_subcommands\<close>, which replaces every command substitution, and
  \<open>split_command_segments\<close>, which cuts a compound command into its segments. Both walk over
  the command once and keep the shell's quoting state in local variables; the index \<open>i\<close>
  of the code is the rest of the command here.

  The lemmas relate the splitter to an independent description of shell quoting, the
  automaton \<open>qstep\<close>: the segments and the separators between them make up the command,
  every separator stands outside quotes, and no segment hides another command.
\<close>

abbreviation squote :: char where "squote \<equiv> CHR 0x27"
abbreviation dquote :: char where "dquote \<equiv> CHR ''\"''"
abbreviation backslash :: char where "backslash \<equiv> CHR 0x5C"
abbreviation backtick :: char where "backtick \<equiv> CHR 0x60"
abbreviation newline_char :: char where "newline_char \<equiv> CHR 0x0A"

section \<open>Command substitutions\<close>

text \<open>
  The inner loop over \<open>j\<close>: from just after \<open>$(\<close>, at the given depth of parentheses and in
  the given quoting state, to the parenthesis that closes it. The result is the text inside
  and the text after it, or nothing when the end of the command comes first.
\<close>

fun paren_step :: "nat \<Rightarrow> bool \<Rightarrow> bool \<Rightarrow> bool \<Rightarrow> char \<Rightarrow> nat \<times> bool \<times> bool \<times> bool" where
  "paren_step k sg db es c =
     (if es then (k, sg, db, False)
      else if c = backslash \<and> \<not> sg then (k, sg, db, True)
      else if c = squote \<and> \<not> db then (k, \<not> sg, db, False)
      else if c = dquote \<and> \<not> sg then (k, sg, \<not> db, False)
      else if \<not> sg \<and> \<not> db then
        (if c = CHR ''('' then (Suc k, sg, db, False)
         else if c = CHR '')'' then (k - 1, sg, db, False)
         else (k, sg, db, False))
      else (k, sg, db, False))"

fun close_paren :: "nat \<Rightarrow> bool \<Rightarrow> bool \<Rightarrow> bool \<Rightarrow> string \<Rightarrow> (string \<times> string) option" where
  "close_paren k sg db es [] = None"
| "close_paren k sg db es (c # cs) =
     (case paren_step k sg db es c of (k', sg', db', es') \<Rightarrow>
        if k' = 0 then Some ([], cs)
        else map_option (\<lambda>(inner, rest). (c # inner, rest)) (close_paren k' sg' db' es' cs))"

lemma close_paren_length:
  "close_paren k sg db es cs = Some (inner, rest) \<Longrightarrow> length rest < length cs"
  by (induction k sg db es cs arbitrary: inner rule: close_paren.induct)
    (fastforce split: prod.splits if_splits simp del: paren_step.simps)+

lemma after_first_length: "after_first p cs = Some rest \<Longrightarrow> length rest \<le> length cs"
  by (auto dest: after_first_Some)

text \<open>What stands in the text for a validated substitution and for an arithmetic expansion.\<close>

definition placeholder :: string where
  "placeholder = ''/tmp/__safe_subcmd__''"

text \<open>
  The outer loop. The first argument is the verdict on an inner command, the next two are
  \<open>in_single\<close> and \<open>escaped\<close>. \<open>None\<close> is the return of \<open>False\<close>.
\<close>

function resolve_scan :: "(string \<Rightarrow> bool) \<Rightarrow> bool \<Rightarrow> bool \<Rightarrow> string \<Rightarrow> string option" where
  "resolve_scan ok sg es [] = Some []"
| "resolve_scan ok sg es (ch # cs) =
     (if es then map_option (Cons ch) (resolve_scan ok sg False cs)
      else if ch = backslash \<and> \<not> sg then map_option (Cons ch) (resolve_scan ok sg True cs)
      else if ch = squote then map_option (Cons ch) (resolve_scan ok (\<not> sg) False cs)
      else if \<not> sg \<and> ch = CHR ''$'' \<and> head_is (\<lambda>c. c = CHR ''('') cs then
        (case (if head_is (\<lambda>c. c = CHR ''('') (tl cs) then after_first ''))'' (tl (tl cs)) else None) of
           Some rest \<Rightarrow> map_option (Cons CHR ''0'') (resolve_scan ok sg False rest)
         | None \<Rightarrow>
             (case close_paren 1 False False False (tl cs) of
                None \<Rightarrow> None
              | Some (inner, rest) \<Rightarrow>
                  if ok inner then map_option ((@) placeholder) (resolve_scan ok sg False rest)
                  else None))
      else map_option (Cons ch) (resolve_scan ok sg False cs))"
  by pat_completeness auto
termination
proof (relation "measure (\<lambda>(ok, sg, es, cs). length cs)")
qed (auto dest!: close_paren_length after_first_length split: if_splits)

text \<open>\<open>resolve_and_validate_subcommands(cmd, depth)\<close>, given the verdict on inner commands.\<close>

definition resolve_with :: "(string \<Rightarrow> bool) \<Rightarrow> nat \<Rightarrow> string \<Rightarrow> bool \<times> string" where
  "resolve_with ok depth cmd =
     (if depth > 4 then (False, cmd)
      else (case resolve_scan ok False False cmd of
              None \<Rightarrow> (False, cmd)
            | Some out \<Rightarrow> (True, out)))"

section \<open>Segments\<close>

text \<open>
  \<open>split_command_segments\<close>: the arguments are \<open>in_single\<close>, \<open>in_double\<close>, \<open>escaped\<close>, the
  previous character of the command (if any), the current segment and the rest of the
  command. \<open>None\<close> is the answer for backticks, command and process substitutions.
\<close>

definition starts_paren :: "string \<Rightarrow> bool" where
  "starts_paren cs \<longleftrightarrow> head_is (\<lambda>c. c = CHR ''('') cs"

definition double_op :: "char \<Rightarrow> string \<Rightarrow> bool" where
  "double_op ch cs \<longleftrightarrow> (ch = CHR ''|'' \<or> ch = CHR ''&'') \<and> head_is (\<lambda>c. c = ch) cs"

definition single_op :: "char option \<Rightarrow> char \<Rightarrow> string \<Rightarrow> bool" where
  "single_op prev ch cs \<longleftrightarrow> ch = CHR '';'' \<or> ch = CHR ''|'' \<or> ch = newline_char \<or>
     (ch = CHR ''&'' \<and> prev \<noteq> Some CHR ''>'' \<and> prev \<noteq> Some CHR ''<'' \<and>
        \<not> head_is (\<lambda>c. c = CHR ''>'') cs)"

fun split_scan :: "bool \<Rightarrow> bool \<Rightarrow> bool \<Rightarrow> char option \<Rightarrow> string \<Rightarrow> string \<Rightarrow> string list option" where
  "split_scan sg db es prev cur [] = Some (if cur = [] then [] else [cur])"
| "split_scan sg db es prev cur (ch # cs) =
     (if es then split_scan sg db False (Some ch) (cur @ [ch]) cs
      else if ch = backslash \<and> \<not> sg then split_scan sg db True (Some ch) (cur @ [ch]) cs
      else if ch = squote \<and> \<not> db then split_scan (\<not> sg) db False (Some ch) (cur @ [ch]) cs
      else if ch = dquote \<and> \<not> sg then split_scan sg (\<not> db) False (Some ch) (cur @ [ch]) cs
      else if \<not> sg \<and> ch = backtick then None
      else if \<not> sg \<and> ch = CHR ''$'' \<and> starts_paren cs then None
      else if \<not> sg \<and> \<not> db \<and> (ch = CHR ''<'' \<or> ch = CHR ''>'') \<and> starts_paren cs then None
      else if \<not> sg \<and> \<not> db \<and> double_op ch cs then
        map_option (Cons cur) (split_scan sg db False (Some ch) [] (tl cs))
      else if \<not> sg \<and> \<not> db \<and> single_op prev ch cs then
        map_option (Cons cur) (split_scan sg db False (Some ch) [] cs)
      else split_scan sg db False (Some ch) (cur @ [ch]) cs)"

definition split_command_segments :: "string \<Rightarrow> string list option" where
  "split_command_segments cmd = split_scan False False False None [] cmd"

declare resolve_scan.simps(2) [simp del] split_scan.simps(2) [simp del]

section \<open>Shell quoting\<close>

text \<open>
  The quoting state of a shell word: inside single quotes, inside double quotes, after a
  backslash. \<open>qrun q s\<close> is the state after reading \<open>s\<close>.
\<close>

type_synonym qstate = "bool \<times> bool \<times> bool"

abbreviation outside :: qstate where "outside \<equiv> (False, False, False)"

fun qstep :: "qstate \<Rightarrow> char \<Rightarrow> qstate" where
  "qstep (sg, db, es) c =
     (if es then (sg, db, False)
      else if c = backslash \<and> \<not> sg then (sg, db, True)
      else if c = squote \<and> \<not> db then (\<not> sg, db, False)
      else if c = dquote \<and> \<not> sg then (sg, \<not> db, False)
      else (sg, db, False))"

definition qrun :: "qstate \<Rightarrow> string \<Rightarrow> qstate" where
  "qrun q s = foldl qstep q s"

lemma qrun_simps [simp]:
  "qrun q [] = q"
  "qrun q (c # s) = qrun (qstep q c) s"
  "qrun q (s @ t) = qrun (qrun q s) t"
  by (simp_all add: qrun_def)

text \<open>
  A character that starts something the splitter may not pass over: a backtick or \<open>$(\<close>
  where the shell substitutes, a process substitution or a separator outside all quotes.
\<close>

fun substitutes :: "qstate \<Rightarrow> char \<Rightarrow> string \<Rightarrow> bool" where
  "substitutes (sg, db, es) ch cs \<longleftrightarrow> \<not> es \<and> \<not> sg \<and>
     (ch = backtick \<or> (ch = CHR ''$'' \<and> starts_paren cs) \<or>
      (\<not> db \<and> (ch = CHR ''<'' \<or> ch = CHR ''>'') \<and> starts_paren cs))"

definition separates :: "qstate \<Rightarrow> char option \<Rightarrow> char \<Rightarrow> string \<Rightarrow> bool" where
  "separates q prev ch cs \<longleftrightarrow> q = outside \<and> (double_op ch cs \<or> single_op prev ch cs)"

text \<open>The splitter in one equation per kind of character.\<close>

lemma op_chars:
  "single_op prev ch cs \<Longrightarrow> ch \<noteq> backslash \<and> ch \<noteq> squote \<and> ch \<noteq> dquote \<and> ch \<noteq> backtick \<and>
     ch \<noteq> CHR ''$'' \<and> ch \<noteq> CHR ''<'' \<and> ch \<noteq> CHR ''>''"
  "double_op ch cs \<Longrightarrow> ch \<noteq> backslash \<and> ch \<noteq> squote \<and> ch \<noteq> dquote \<and> ch \<noteq> backtick \<and>
     ch \<noteq> CHR ''$'' \<and> ch \<noteq> CHR ''<'' \<and> ch \<noteq> CHR ''>''"
  by (auto simp: single_op_def double_op_def)

fun split_at :: "qstate \<Rightarrow> char option \<Rightarrow> string \<Rightarrow> string \<Rightarrow> string list option" where
  "split_at (sg, db, es) prev cur cmd = split_scan sg db es prev cur cmd"

lemma split_at_Nil: "split_at q prev cur [] = Some (if cur = [] then [] else [cur])"
  by (cases q) simp

lemma split_at_Cons:
  "split_at q prev cur (ch # cs) =
     (if substitutes q ch cs then None
      else if separates q prev ch cs then
        map_option (Cons cur)
          (split_at outside (Some ch) [] (if double_op ch cs then tl cs else cs))
      else split_at (qstep q ch) (Some ch) (cur @ [ch]) cs)"
proof -
  obtain sg db es where q: "q = (sg, db, es)" by (cases q)
  show ?thesis
  proof (cases "q = outside \<and> (double_op ch cs \<or> single_op prev ch cs)")
    case True
    then have sep: "separates q prev ch cs" and q': "sg = False" "db = False" "es = False"
      by (auto simp: separates_def q)
    have "ch \<noteq> backslash \<and> ch \<noteq> squote \<and> ch \<noteq> dquote \<and> ch \<noteq> backtick \<and>
        ch \<noteq> CHR ''$'' \<and> ch \<noteq> CHR ''<'' \<and> ch \<noteq> CHR ''>''"
      using True op_chars by blast
    with True sep show ?thesis
      by (auto simp: q q' split_scan.simps(2))
  next
    case False
    then have "\<not> separates q prev ch cs"
      by (simp add: separates_def)
    then show ?thesis
      using False by (auto simp: q split_scan.simps(2))
  qed
qed

declare split_at.simps [simp del] substitutes.simps [simp del]

text \<open>The segment under construction is only ever extended.\<close>

definition prepend :: "string \<Rightarrow> string list \<Rightarrow> string list" where
  "prepend cur segs = (case segs of [] \<Rightarrow> (if cur = [] then [] else [cur])
     | s # ss \<Rightarrow> (cur @ s) # ss)"

lemma prepend_simps [simp]:
  "prepend cur (s # ss) = (cur @ s) # ss"
  "prepend [] segs = segs"
  "prepend cur [] = (if cur = [] then [] else [cur])"
  by (auto simp: prepend_def split: list.splits)

lemma prepend_append: "prepend (u @ v) segs = prepend u (prepend v segs)"
  by (cases segs) auto

lemma split_at_cur:
  "split_at q prev cur cmd = map_option (prepend cur) (split_at q prev [] cmd)"
proof (induction cmd arbitrary: q prev cur)
  case (Cons ch cs)
  have "split_at (qstep q ch) (Some ch) (cur @ [ch]) cs =
      map_option (prepend cur) (split_at (qstep q ch) (Some ch) [ch] cs)"
    using Cons.IH [of "qstep q ch" "Some ch" "cur @ [ch]"] Cons.IH [of "qstep q ch" "Some ch" "[ch]"]
    by (simp add: option.map_comp o_def prepend_append)
  then show ?case
    by (simp add: split_at_Cons option.map_comp o_def)
qed (simp add: split_at_Nil)

lemma split_at_keep:
  assumes "\<not> substitutes q ch cs" and "\<not> separates q prev ch cs"
  shows "split_at q prev [] (ch # cs) =
    map_option (prepend [ch]) (split_at (qstep q ch) (Some ch) [] cs)"
  using assms split_at_cur [of "qstep q ch" "Some ch" "[ch]" cs] by (simp add: split_at_Cons)

lemma split_at_not_Nil: "split_at q prev [] (ch # cs) \<noteq> Some []"
proof (cases "substitutes q ch cs \<or> separates q prev ch cs")
  case False
  then show ?thesis
    by (auto simp: split_at_keep prepend_def split: list.splits)
qed (auto simp: split_at_Cons)

section \<open>Splitting as a relation\<close>

text \<open>
  A declarative description of a split: the segments and, one after the other, the
  separators that were dropped between them.
\<close>

inductive splits :: "qstate \<Rightarrow> char option \<Rightarrow> string \<Rightarrow> string list \<Rightarrow> string list \<Rightarrow> bool" where
  stop: "splits q prev [] [] []"
| cut1: "single_op prev ch cs \<Longrightarrow> \<not> double_op ch cs \<Longrightarrow>
    splits outside (Some ch) cs segs seps \<Longrightarrow>
    splits outside prev (ch # cs) ([] # segs) ([ch] # seps)"
| cut2: "double_op ch (ch # cs) \<Longrightarrow> splits outside (Some ch) cs segs seps \<Longrightarrow>
    splits outside prev (ch # ch # cs) ([] # segs) ([ch, ch] # seps)"
| keep: "\<not> substitutes q ch cs \<Longrightarrow> \<not> separates q prev ch cs \<Longrightarrow>
    splits (qstep q ch) (Some ch) cs segs seps \<Longrightarrow>
    splits q prev (ch # cs) (prepend [ch] segs) seps"

lemma double_op_split: "double_op ch cs \<Longrightarrow> cs = ch # tl cs"
  by (cases cs) (auto simp: double_op_def)

lemma separates_not_substitutes: "separates q prev ch cs \<Longrightarrow> \<not> substitutes q ch cs"
  by (auto simp: separates_def substitutes.simps dest: op_chars)

theorem split_at_splits:
  "split_at q prev [] cmd = Some segs \<longleftrightarrow> (\<exists>seps. splits q prev cmd segs seps)"
proof
  show "split_at q prev [] cmd = Some segs \<Longrightarrow> \<exists>seps. splits q prev cmd segs seps"
  proof (induction cmd arbitrary: q prev segs rule: length_induct)
    case (1 cmd)
    show ?case
    proof (cases cmd)
      case Nil
      with "1.prems" show ?thesis
        by (auto simp: split_at_Nil intro: splits.stop)
    next
      case (Cons ch cs)
      consider "separates q prev ch cs" "double_op ch cs"
        | "separates q prev ch cs" "\<not> double_op ch cs"
        | "\<not> substitutes q ch cs" "\<not> separates q prev ch cs"
        using "1.prems" Cons by (auto simp: split_at_Cons split: if_splits)
      then show ?thesis
      proof cases
        case 1
        then have cs: "cs = ch # tl cs" and q: "q = outside"
          using double_op_split by (auto simp: separates_def)
        obtain segs' where s: "segs = [] # segs'" "split_at outside (Some ch) [] (tl cs) = Some segs'"
          using "1.prems" 1 separates_not_substitutes by (auto simp: Cons split_at_Cons)
        have "length (tl cs) < length cmd"
          by (simp add: Cons less_Suc_eq_le)
        with s(2) "1.IH" obtain seps where "splits outside (Some ch) (tl cs) segs' seps"
          by blast
        then have "splits outside prev (ch # ch # tl cs) ([] # segs') ([ch, ch] # seps)"
          using 1 cs by (intro splits.cut2) auto
        then show ?thesis
          unfolding Cons s(1) q using cs by metis
      next
        case 2
        then have q: "q = outside" and op: "single_op prev ch cs"
          by (auto simp: separates_def)
        obtain segs' where s: "segs = [] # segs'" "split_at outside (Some ch) [] cs = Some segs'"
          using "1.prems" 2 separates_not_substitutes by (auto simp: Cons split_at_Cons)
        moreover have "length cs < length cmd"
          by (simp add: Cons)
        ultimately obtain seps where "splits outside (Some ch) cs segs' seps"
          using "1.IH" by blast
        then show ?thesis
          unfolding Cons s(1) q using splits.cut1 [OF op 2(2)] by blast
      next
        case 3
        obtain segs' where s: "segs = prepend [ch] segs'"
            "split_at (qstep q ch) (Some ch) [] cs = Some segs'"
          using "1.prems" 3 by (auto simp: Cons split_at_keep)
        moreover have "length cs < length cmd"
          by (simp add: Cons)
        ultimately obtain seps where "splits (qstep q ch) (Some ch) cs segs' seps"
          using "1.IH" by blast
        then show ?thesis
          unfolding Cons s(1) using splits.keep [OF 3] by blast
      qed
    qed
  qed
next
  assume "\<exists>seps. splits q prev cmd segs seps"
  then obtain seps where "splits q prev cmd segs seps" by blast
  then show "split_at q prev [] cmd = Some segs"
  proof (induction rule: splits.induct)
    case (cut1 prev ch cs segs seps)
    then have "separates outside prev ch cs"
      by (simp add: separates_def)
    with cut1 separates_not_substitutes show ?case
      by (simp add: split_at_Cons)
  next
    case (cut2 ch cs segs seps prev)
    then have "separates outside prev ch (ch # cs)"
      by (simp add: separates_def)
    with cut2 separates_not_substitutes [of outside prev ch "ch # cs"] show ?case
      by (simp add: split_at_Cons)
  qed (simp_all add: split_at_Nil split_at_keep)
qed

text \<open>The command is the segments with the separators put back.\<close>

fun weave :: "string list \<Rightarrow> string list \<Rightarrow> string" where
  "weave (s # ss) (p # ps) = s @ p @ weave ss ps"
| "weave ss [] = concat ss"
| "weave [] ps = concat ps"

lemma weave_prepend: "weave (prepend u ss) ps = u @ weave ss ps \<or> (ss = [] \<and> ps \<noteq> [])"
  by (cases ss; cases ps) auto

lemma splits_length:
  "splits q prev cmd segs seps \<Longrightarrow>
     length segs = length seps \<or> length segs = Suc (length seps)"
  by (induction rule: splits.induct) (auto simp: prepend_def split: list.splits)

lemma splits_weave: "splits q prev cmd segs seps \<Longrightarrow> cmd = weave segs seps"
proof (induction rule: splits.induct)
  case (keep q ch cs prev segs seps)
  then show ?case
    using weave_prepend [of "[ch]" segs seps] splits_length [OF keep.hyps(3)] by auto
qed auto

text \<open>The separators of the shell; a segment that a separator ends has no open quote.\<close>

definition separator_words :: "string list" where
  "separator_words = ['';'', ''|'', ''&'', [newline_char], ''||'', ''&&'']"

lemma splits_separators:
  "splits q prev cmd segs seps \<Longrightarrow> set seps \<subseteq> set separator_words"
  by (induction rule: splits.induct)
    (auto simp: separator_words_def single_op_def double_op_def)

fun closed_segments :: "qstate \<Rightarrow> string list \<Rightarrow> string list \<Rightarrow> bool" where
  "closed_segments q (s # ss) (p # ps) \<longleftrightarrow> qrun q s = outside \<and> closed_segments outside ss ps"
| "closed_segments q ss [] \<longleftrightarrow> True"
| "closed_segments q [] ps \<longleftrightarrow> False"

lemma splits_closed: "splits q prev cmd segs seps \<Longrightarrow> closed_segments q segs seps"
proof (induction rule: splits.induct)
  case (keep q ch cs prev segs seps)
  then show ?case
    by (cases segs; cases seps) auto
qed auto

text \<open>No segment hides a substitution or a separator outside quotes.\<close>

fun clean_segment :: "qstate \<Rightarrow> char option \<Rightarrow> string \<Rightarrow> bool" where
  "clean_segment q prev [] \<longleftrightarrow> True"
| "clean_segment q prev (ch # cs) \<longleftrightarrow> \<not> substitutes q ch cs \<and> \<not> separates q prev ch cs \<and>
     clean_segment (qstep q ch) (Some ch) cs"

inductive_cases splits_ConsE: "splits q prev (ch # cs) segs seps"
inductive_cases splits_NilE: "splits q prev cmd [] seps"

lemma splits_no_segments: "splits q prev cmd [] seps \<Longrightarrow> cmd = [] \<and> seps = []"
proof (erule splits_NilE)
  fix ch segs assume "[] = prepend [ch] segs"
  then show ?thesis by (cases segs) auto
qed simp

lemma splits_first_head:
  assumes "splits q prev (ch # cs) (s # ss) seps" and "\<not> separates q prev ch cs"
  shows "\<exists>s'. s = ch # s'"
proof -
  obtain segs where "s # ss = prepend [ch] segs"
    using assms by (elim splits_ConsE) (auto simp: separates_def)
  then show ?thesis
    by (cases segs) auto
qed

lemma splits_head_mono:
  assumes "splits q prev cmd (s # ss) seps" and "head_is P s"
  shows "head_is P cmd"
  using assms(1)
proof (cases rule: splits.cases)
  case (keep ch cs segs)
  with assms(2) show ?thesis by (cases segs) auto
qed (use assms(2) in auto)

lemma substitutes_mono:
  "splits q' prev cs (s # ss) seps \<Longrightarrow> substitutes q ch s \<Longrightarrow> substitutes q ch cs"
  by (cases q) (auto simp: starts_paren_def substitutes.simps intro: splits_head_mono)

lemma separates_mono:
  assumes m: "splits (qstep q ch) (Some ch) cs (s # ss) seps" and sep: "separates q prev ch s"
  shows "separates q prev ch cs"
proof -
  have q: "q = outside" using sep by (simp add: separates_def)
  have "double_op ch s \<Longrightarrow> double_op ch cs"
    using splits_head_mono [OF m] by (auto simp: double_op_def)
  moreover have "single_op prev ch cs" if op: "single_op prev ch s"
  proof (rule ccontr)
    assume no: "\<not> single_op prev ch cs"
    with op have amp: "ch = CHR ''&''" and gt: "head_is (\<lambda>c. c = CHR ''>'') cs"
      by (auto simp: single_op_def)
    then obtain cs' where cs: "cs = CHR ''>'' # cs'"
      by (cases cs) auto
    have "\<not> separates (qstep q ch) (Some ch) CHR ''>'' cs'"
      by (auto simp: separates_def single_op_def double_op_def)
    then have "\<exists>s'. s = CHR ''>'' # s'"
      using m unfolding cs by (rule splits_first_head [rotated])
    with op amp show False by (auto simp: single_op_def)
  qed
  ultimately show ?thesis
    using sep by (auto simp: separates_def)
qed

lemma clean_segment_prev:
  "c \<notin> {CHR ''<'', CHR ''>''} \<Longrightarrow> clean_segment q (Some c) s = clean_segment q None s"
  by (cases s) (auto simp: separates_def single_op_def)

definition clean_segments :: "qstate \<Rightarrow> char option \<Rightarrow> string list \<Rightarrow> bool" where
  "clean_segments q prev segs \<longleftrightarrow> (case segs of [] \<Rightarrow> True
     | s # ss \<Rightarrow> clean_segment q prev s \<and> list_all (clean_segment outside None) ss)"

lemma clean_segments_after_sep:
  "clean_segments outside (Some ch) segs \<Longrightarrow> ch \<notin> {CHR ''<'', CHR ''>''} \<Longrightarrow>
     clean_segments q prev ([] # segs)"
  by (auto simp: clean_segments_def clean_segment_prev split: list.splits)

lemma splits_clean: "splits q prev cmd segs seps \<Longrightarrow> clean_segments q prev segs"
proof (induction rule: splits.induct)
  case (stop q prev)
  then show ?case by (simp add: clean_segments_def)
next
  case (cut1 prev ch cs segs seps)
  then show ?case
    by (intro clean_segments_after_sep) (auto dest: op_chars)
next
  case (cut2 ch cs segs seps prev)
  then show ?case
    by (intro clean_segments_after_sep) (auto dest: op_chars)
next
  case (keep q ch cs prev segs seps)
  show ?case
  proof (cases segs)
    case Nil
    then have "cs = []"
      using keep.hyps(3) splits_no_segments by blast
    then show ?thesis
      using keep.hyps Nil by (simp add: clean_segments_def)
  next
    case (Cons s ss)
    then show ?thesis
      using keep substitutes_mono separates_mono by (fastforce simp: clean_segments_def)
  qed
qed

section \<open>Steps of the substitution scanner\<close>

definition dollar_paren :: "bool \<Rightarrow> char \<Rightarrow> string \<Rightarrow> bool" where
  "dollar_paren sg ch cs \<longleftrightarrow> \<not> sg \<and> ch = CHR ''$'' \<and> starts_paren cs"

definition arithmetic_rest :: "string \<Rightarrow> string option" where
  "arithmetic_rest cs = (if starts_paren (tl cs) then after_first ''))'' (tl (tl cs)) else None)"

lemma resolve_scan_Cons:
  "resolve_scan ok sg es (ch # cs) =
     (if es then map_option (Cons ch) (resolve_scan ok sg False cs)
      else if ch = backslash \<and> \<not> sg then map_option (Cons ch) (resolve_scan ok sg True cs)
      else if ch = squote then map_option (Cons ch) (resolve_scan ok (\<not> sg) False cs)
      else if dollar_paren sg ch cs then
        (case arithmetic_rest cs of
           Some rest \<Rightarrow> map_option (Cons CHR ''0'') (resolve_scan ok sg False rest)
         | None \<Rightarrow>
             (case close_paren 1 False False False (tl cs) of
                None \<Rightarrow> None
              | Some (inner, rest) \<Rightarrow>
                  if ok inner then map_option ((@) placeholder) (resolve_scan ok sg False rest)
                  else None))
      else map_option (Cons ch) (resolve_scan ok sg False cs))"
  by (simp add: resolve_scan.simps(2) dollar_paren_def arithmetic_rest_def starts_paren_def conj_assoc)

text \<open>An arithmetic expansion is dropped up to the first \<open>))\<close>, whatever it contains.\<close>

lemma after_first_first:
  "p \<noteq> [] \<Longrightarrow> \<not> sublist p (butlast (t @ p)) \<Longrightarrow> after_first p (t @ p @ r) = Some r"
proof (induction t)
  case Nil
  then show ?case by (cases p) auto
next
  case (Cons c t)
  have "butlast (c # t @ p) = c # butlast (t @ p)"
    using Cons.prems by simp
  then have no: "\<not> sublist p (butlast (t @ p))" "\<not> prefix p (c # butlast (t @ p))"
    using Cons.prems(2) by (auto simp: sublist_Cons_right)
  have "\<not> prefix p (c # t @ p @ r)"
  proof
    assume pre: "prefix p (c # t @ p @ r)"
    have "length p \<le> length (c # butlast (t @ p))"
      using Cons.prems(1) by (simp add: Suc_le_eq)
    moreover have "prefix (c # butlast (t @ p)) (c # t @ p @ r)"
      by (metis Cons_prefix_Cons append_assoc prefix_append prefix_order.order_refl prefixeq_butlast)
    ultimately have "prefix p (c # butlast (t @ p))"
      using pre prefix_length_prefix by blast
    then show False
      using no(2) by blast
  qed
  then show ?case
    using Cons.IH [OF Cons.prems(1) no(1)] by simp
qed

lemma resolve_arithmetic:
  assumes "\<not> sublist ''))'' (t @ '')'')"
  shows "resolve_scan ok False False (''$(('' @ t @ ''))'' @ r) =
    map_option (Cons CHR ''0'') (resolve_scan ok False False r)"
proof -
  have "after_first ''))'' (t @ ''))'' @ r) = Some r"
    using assms by (intro after_first_first) (simp_all add: butlast_append)
  then have "arithmetic_rest (''(('' @ t @ ''))'' @ r) = Some r"
    by (simp add: arithmetic_rest_def starts_paren_def)
  then show ?thesis
    by (simp add: resolve_scan_Cons dollar_paren_def starts_paren_def)
qed

end
