(* ===== verification/Guard_Targets.thy ===== *)
theory Guard_Targets
  imports Py_Re
begin

text \<open>
  The two path tests of \<open>autonomous-exec-hook.py\<close> that look at the spelling of one token
  only: \<open>is_safe_special_target\<close> and \<open>is_anchored_plugin_script\<close>, with their patterns and
  the registry \<open>CC_THINGZ_SCRIPTS\<close>. A Python set of variable names is a list here; only
  membership and iteration with an early \<open>return True\<close> are used.
\<close>

section \<open>Patterns\<close>

text \<open>\<^verbatim>\<open>^/(?:private/)?tmp(?:/[A-Za-z0-9_./-]*)?$\<close>\<close>

definition is_tmp_char :: "char \<Rightarrow> bool" where
  "is_tmp_char c \<longleftrightarrow> is_name_char c \<or> c = CHR ''.'' \<or> c = CHR ''/'' \<or> c = CHR ''-''"

definition re_tmp_path :: re where
  "re_tmp_path = seqs
     [Bos, chr CHR ''/'', opt (lit ''private/''), lit ''tmp'',
      opt (Seq (chr CHR ''/'') (star (Cls is_tmp_char))), Eos]"

text \<open>\<^verbatim>\<open>\.gemini/(?:jetski|antigravity)/brain/[^/\s]+\<close>\<close>

definition is_component_char :: "char \<Rightarrow> bool" where
  "is_component_char c \<longleftrightarrow> c \<noteq> CHR ''/'' \<and> \<not> is_space c"

definition component :: re where
  "component = plus (Cls is_component_char)"

definition re_brain_path :: re where
  "re_brain_path = seqs
     [lit ''.gemini/'', lits [''jetski'', ''antigravity''], lit ''/brain/'', component]"

text \<open>\<^verbatim>\<open>^(?:\./)?tests/test-[A-Za-z0-9_.-]+\.(?:sh|py)$\<close>\<close>

definition is_script_char :: "char \<Rightarrow> bool" where
  "is_script_char c \<longleftrightarrow> is_name_char c \<or> c = CHR ''.'' \<or> c = CHR ''-''"

definition re_test_script :: re where
  "re_test_script = seqs
     [Bos, opt (lit ''./''), lit ''tests/test-'', plus (Cls is_script_char), chr CHR ''.'',
      lits [''sh'', ''py''], Eos]"

text \<open>
  \<^verbatim>\<open>(?:^|/)(?:plugins/[^/\s]+/(?:skills/[^/\s]+/)?scripts\<close>
  \<^verbatim>\<open>|\.gemini/config/(?:skills|plugins)/[^/\s]+/scripts)/\<close>, then the escaped base name, then \<^verbatim>\<open>$\<close>
\<close>

definition re_plugin_scripts :: re where
  "re_plugin_scripts = seqs
     [lit ''plugins/'', component, chr CHR ''/'',
      opt (seqs [lit ''skills/'', component, chr CHR ''/'']), lit ''scripts'']"

definition re_config_scripts :: re where
  "re_config_scripts = seqs
     [lit ''.gemini/config/'', lits [''skills'', ''plugins''], chr CHR ''/'', component,
      lit ''/scripts'']"

definition re_anchored :: "string \<Rightarrow> re" where
  "re_anchored base = seqs
     [Alt Bos (chr CHR ''/''), Alt re_plugin_scripts re_config_scripts, chr CHR ''/'',
      lit base, Eos]"

section \<open>The tests\<close>

text \<open>The four spellings of a path below a safe variable: \<open>$v\<close>, \<open>${v}\<close>, \<open>$v/\<dots>\<close>, \<open>${v}/\<dots>\<close>.\<close>

definition under_var :: "string \<Rightarrow> string \<Rightarrow> bool" where
  "under_var cleaned v \<longleftrightarrow>
     cleaned = ''$'' @ v \<or> cleaned = ''${'' @ v @ ''}'' \<or>
     prefix (''$'' @ v @ ''/'') cleaned \<or> prefix (''${'' @ v @ ''}/'') cleaned"

definition is_safe_special_target :: "string \<Rightarrow> string list \<Rightarrow> bool" where
  "is_safe_special_target path_str safe_vars =
     (let cleaned = unquote path_str in
      if cleaned = [] \<or> sublist ''autonomous-active'' cleaned then False
      else if has_dotdot cleaned then False
      else if re_match re_tmp_path cleaned \<noteq> None then True
      else if sublist ''/.worktrees/'' cleaned \<or> prefix ''.worktrees/'' cleaned then True
      else if prefix ''build/'' cleaned \<or> sublist ''/build/'' cleaned then True
      else if list_ex (under_var cleaned) safe_vars then True
      else re_search re_brain_path cleaned)"

definition CC_THINGZ_SCRIPTS :: "string list" where
  "CC_THINGZ_SCRIPTS =
     [''append-progress.sh'', ''stage-and-commit.sh'', ''init-progress.sh'',
      ''create-branch.sh'', ''detect-branch.sh'', ''detect-vcs.sh'', ''resolve-file.sh'',
      ''resolve-rules.sh'', ''move-plan.sh'', ''run-external-review.sh'',
      ''customize-file.sh'', ''install-keymap.sh'', ''open-in-ide.sh'',
      ''launch-revmux.sh'', ''preflight.sh'', ''task-state.sh'']"

definition is_anchored_plugin_script :: "string \<Rightarrow> bool" where
  "is_anchored_plugin_script script_token =
     (let cleaned = unquote script_token; base = basename cleaned in
      if cleaned = ''./install.sh'' \<or> re_match re_test_script cleaned \<noteq> None then True
      else if base \<notin> set CC_THINGZ_SCRIPTS then False
      else re_search (re_anchored base) cleaned)"

section \<open>What the tests promise\<close>

lemma safe_target_guards:
  assumes "is_safe_special_target t vs"
  shows "unquote t \<noteq> []" and "\<not> has_dotdot (unquote t)"
    and "\<not> sublist ''autonomous-active'' (unquote t)"
  using assms by (auto simp: is_safe_special_target_def Let_def split: if_splits)

text \<open>What the pattern for temporary paths accepts, without the pattern.\<close>

definition tmp_rest :: "string \<Rightarrow> bool" where
  "tmp_rest r \<longleftrightarrow> r = [] \<or> (\<exists>w. r = CHR ''/'' # w \<and> list_all is_tmp_char w)"

lemma reads_tmp_rest:
  "reads (opt (Seq (chr CHR ''/'') (star (Cls is_tmp_char)))) tmp_rest"
proof -
  have "reads (opt (Seq (chr CHR ''/'') (star (Cls is_tmp_char))))
      (\<lambda>w. (\<exists>u v. w = u @ v \<and> u = ''/'' \<and> list_all is_tmp_char v) \<or> w = [])"
    by (intro reads_intros)
  moreover have "(\<lambda>w. (\<exists>u v. w = u @ v \<and> u = ''/'' \<and> list_all is_tmp_char v) \<or> w = []) = tmp_rest"
    by (auto simp: tmp_rest_def fun_eq_iff)
  ultimately show ?thesis by simp
qed

lemma tmp_path_iff:
  "re_match re_tmp_path p \<noteq> None \<longleftrightarrow>
     (\<exists>v r e. p = ''/'' @ v @ ''tmp'' @ r @ e \<and> v \<in> {[], ''private/''} \<and> tmp_rest r \<and>
        e \<in> {[], [CHR 0x0A]})"
  unfolding re_match_can re_tmp_path_def seqs.simps
  by (auto simp: can_seq [OF reads_chr] can_seq [OF reads_opt [OF reads_lit]]
      can_seq [OF reads_lit] can_seq [OF reads_tmp_rest] at_eos_iff
      conj_disj_distribR conj_disj_distribL ex_disj_distrib)

definition tmp_spelling :: "string \<Rightarrow> bool" where
  "tmp_spelling p \<longleftrightarrow>
     (\<exists>v r e. p = ''/'' @ v @ ''tmp'' @ r @ e \<and> v \<in> {[], ''private/''} \<and> tmp_rest r \<and>
        e \<in> {[], [CHR 0x0A]})"

text \<open>A complete description of the accepted targets.\<close>

lemma safe_target_iff:
  "is_safe_special_target t vs \<longleftrightarrow>
     (let p = unquote t in
       p \<noteq> [] \<and> \<not> sublist ''autonomous-active'' p \<and> \<not> has_dotdot p \<and>
       (re_match re_tmp_path p \<noteq> None \<or> sublist ''/.worktrees/'' p \<or> prefix ''.worktrees/'' p \<or>
        prefix ''build/'' p \<or> sublist ''/build/'' p \<or> (\<exists>v \<in> set vs. under_var p v) \<or>
        re_search re_brain_path p))"
  by (auto simp: is_safe_special_target_def Let_def list_ex_iff)

lemma safe_target_mono:
  "is_safe_special_target t vs \<Longrightarrow> set vs \<subseteq> set ws \<Longrightarrow> is_safe_special_target t ws"
  unfolding safe_target_iff Let_def by blast

lemma anchored_registered:
  assumes "is_anchored_plugin_script t"
  shows "unquote t = ''./install.sh'' \<or> re_match re_test_script (unquote t) \<noteq> None \<or>
    basename (unquote t) \<in> set CC_THINGZ_SCRIPTS \<and>
    re_search (re_anchored (basename (unquote t))) (unquote t)"
  using assms unfolding is_anchored_plugin_script_def Let_def by (metis)

lemma test_script_suffix:
  assumes "re_match re_test_script p \<noteq> None" "CHR 0x0A \<notin> set p"
  shows "suffix ''.sh'' p \<or> suffix ''.py'' p"
proof -
  have "\<exists>u e. p = u @ ''.'' @ e @ [] \<and> e \<in> {''sh'', ''py''} \<or>
      (\<exists>v. p = v @ [CHR 0x0A])"
    using assms(1) unfolding re_match_can re_test_script_def seqs.simps
    by (auto simp: can_seq [OF reads_opt [OF reads_lit]] can_seq [OF reads_lit] can_seq [OF reads_chr]
        can_seq [OF reads_plus_cls] can_seq [OF reads_lits] at_eos_iff) (metis append_Cons append_assoc)+
  then show ?thesis
    using assms(2) by (auto simp: suffix_def)
qed

text \<open>An anchored script is a shell or Python file, so no bare program name is one.\<close>

lemma anchored_suffix:
  assumes "is_anchored_plugin_script t" "CHR 0x0A \<notin> set (unquote t)"
  shows "suffix ''.sh'' (unquote t) \<or> suffix ''.py'' (unquote t)"
proof -
  let ?p = "unquote t"
  consider "?p = ''./install.sh''" | "re_match re_test_script ?p \<noteq> None"
    | "basename ?p \<in> set CC_THINGZ_SCRIPTS"
    using anchored_registered [OF assms(1)] by blast
  then show ?thesis
  proof cases
    case 1
    then show ?thesis by (simp add: suffix_def)
  next
    case 2
    then show ?thesis using test_script_suffix assms(2) by blast
  next
    case 3
    then have "suffix ''.sh'' (basename ?p)"
      unfolding CC_THINGZ_SCRIPTS_def suffix_def by fastforce
    then show ?thesis
      using suffix_order.trans [OF _ basename_suffix] by blast
  qed
qed

lemma suffix_basename:
  assumes "suffix e p" "CHR ''/'' \<notin> set e"
  shows "suffix e (basename p)"
proof -
  obtain q where p: "p = q @ e"
    using assms(1) by (auto simp: suffix_def)
  have "takeWhile (\<lambda>c. c \<noteq> CHR ''/'') (rev e @ rev q) = rev e @ takeWhile (\<lambda>c. c \<noteq> CHR ''/'') (rev q)"
    using assms(2) by (intro takeWhile_append2) auto
  then show ?thesis
    by (simp add: basename_def p suffix_def)
qed

lemma anchored_name:
  assumes "is_anchored_plugin_script t" "CHR 0x0A \<notin> set (unquote t)"
  shows "suffix ''.sh'' (basename (unquote t)) \<or> suffix ''.py'' (basename (unquote t))"
  using anchored_suffix [OF assms] suffix_basename by auto

end
