(* ===== verification/Guard_Redirect.thy ===== *)
theory Guard_Redirect
  imports Guard_Targets
begin

text \<open>
  Two preparations of \<open>autonomous-exec-hook.py\<close>: \<open>strip_heredocs\<close>, which takes the bodies of
  here documents out of a command, and \<open>check_and_strip_redirections\<close>, which checks the
  target of every output redirection of one segment and removes the redirections.
\<close>

section \<open>Here documents\<close>

text \<open>
  \<^verbatim>\<open><<-?\s*['\"]?([A-Za-z_][A-Za-z0-9_]*)['\"]?[ \t]*([^\n]*)\n(.*?)(?:\n\1(?=[ \t;\n)|&]|$))\<close>,
  with DOTALL
\<close>

definition quote_chars :: string where
  "quote_chars = [CHR 0x27, CHR ''\"'']"

definition heredoc_end_chars :: string where
  "heredoc_end_chars = [CHR '' '', CHR 0x09, CHR '';'', CHR 0x0A, CHR '')'', CHR ''|'', CHR ''&'']"

definition re_heredoc_close :: re where
  "re_heredoc_close = seqs
     [chr CHR 0x0A, Bref 1, Look (Alt (one_of heredoc_end_chars) Eos)]"

definition re_heredoc :: re where
  "re_heredoc = seqs
     [lit ''<<'', opt (chr CHR ''-''), star space, opt (one_of quote_chars),
      Grp 1 (Seq (Cls is_name_start) (star (Cls is_name_char))),
      opt (one_of quote_chars), star (one_of [CHR '' '', CHR 0x09]),
      Grp 2 (star (none_of [CHR 0x0A])), chr CHR 0x0A,
      Grp 3 (star_lazy any_char), re_heredoc_close]"

definition group_text :: "nat \<Rightarrow> cursor \<Rightarrow> string" where
  "group_text n st = (case group n st of None \<Rightarrow> [] | Some w \<Rightarrow> w)"

fun heredoc_body :: "piece \<Rightarrow> string list" where
  "heredoc_body (Gap c) = []"
| "heredoc_body (Hit st st') = [group_text 3 st']"

definition strip_heredocs :: "string \<Rightarrow> string \<times> string list" where
  "strip_heredocs cmd =
     (re_sub re_heredoc (\<lambda>st st'. CHR '' '' # group_text 2 st') cmd,
      concat (map heredoc_body (re_scan re_heredoc [] cmd)))"

section \<open>Redirections\<close>

text \<open>\<^verbatim>\<open>[0-9]*>&[0-9]+\<close> and \<^verbatim>\<open>(?:[0-9]*|&)?>>?\s*/dev/null\b\<close>\<close>

definition digit :: re where
  "digit = Cls is_digit09"

definition re_dup_fd :: re where
  "re_dup_fd = seqs [star digit, lit ''>&'', plus digit]"

definition gt_gt :: re where
  "gt_gt = Seq (chr CHR ''>'') (opt (chr CHR ''>''))"

definition re_dev_null :: re where
  "re_dev_null = seqs
     [opt (Alt (star digit) (chr CHR ''&'')), gt_gt, star space, lit ''/dev/null'', WordB]"

text \<open>\<^verbatim>\<open>(?:[0-9]+|&)?>>?\s*("[^"]*"|'[^']*'|[^\s;|&\)]+)\<close>\<close>

definition quoted :: "char \<Rightarrow> re" where
  "quoted q = seqs [chr q, star (Cls (\<lambda>c. c \<noteq> q)), chr q]"

definition is_target_char :: "char \<Rightarrow> bool" where
  "is_target_char c \<longleftrightarrow> \<not> is_space c \<and> c \<notin> set '';|&)''"

definition re_redir :: re where
  "re_redir = seqs
     [opt (Alt (plus digit) (chr CHR ''&'')), gt_gt, star space,
      Grp 1 (alts [quoted CHR ''\"'', quoted CHR 0x27, plus (Cls is_target_char)])]"

text \<open>\<^verbatim>\<open>'[^']*'|\"[^\"]*\"\<close> and \<^verbatim>\<open>(?<![0-9&])>>?\<close>\<close>

definition re_quoted :: re where
  "re_quoted = Alt (quoted CHR 0x27) (quoted CHR ''\"'')"

definition re_left_gt :: re where
  "re_left_gt = Seq (NotBehind (\<lambda>c. is_digit09 c \<or> c = CHR ''&'')) gt_gt"

text \<open>
  The loop over \<open>finditer\<close>: a match after an odd number of quotes of one kind is left in
  the text; any other match must have a safe target and is cut out. \<open>None\<close> is the early
  return on an unsafe target, the truth value says whether something was cut.
\<close>

definition in_quotes :: "string \<Rightarrow> bool" where
  "in_quotes pre \<longleftrightarrow> odd_count CHR 0x27 pre \<or> odd_count CHR ''\"'' pre"

fun redir_loop :: "string list \<Rightarrow> piece list \<Rightarrow> (string \<times> bool) option" where
  "redir_loop vs [] = Some ([], False)"
| "redir_loop vs (Gap c # ps) = map_option (\<lambda>(t, w). (c # t, w)) (redir_loop vs ps)"
| "redir_loop vs (Hit st st' # ps) =
     (if in_quotes (rev (fst st)) then map_option (\<lambda>(t, w). (hit_text st st' @ t, w)) (redir_loop vs ps)
      else if is_safe_special_target (group_text 1 st') vs
      then map_option (\<lambda>(t, w). (t, True)) (redir_loop vs ps)
      else None)"

definition blank :: "cursor \<Rightarrow> cursor \<Rightarrow> string" where
  "blank st st' = '' ''"

definition clean_redirections :: "string \<Rightarrow> string" where
  "clean_redirections segment = re_sub re_dev_null blank (re_sub re_dup_fd blank segment)"

definition remove_quoted :: "string \<Rightarrow> string" where
  "remove_quoted s = re_sub re_quoted (\<lambda>st st'. [CHR ''\"'', CHR ''\"'']) s"

definition check_and_strip_redirections :: "string \<Rightarrow> string list \<Rightarrow> bool \<times> string \<times> bool" where
  "check_and_strip_redirections segment safe_vars =
     (let cleaned = clean_redirections segment in
      case redir_loop safe_vars (re_scan re_redir [] cleaned) of
        None \<Rightarrow> (False, segment, False)
      | Some (stripped, uses_special_write) \<Rightarrow>
          if re_search re_left_gt (remove_quoted stripped) then (False, segment, False)
          else (True, stripped, uses_special_write))"

section \<open>Laws\<close>

text \<open>A text without \<open><<\<close> has no here document and is returned as it is.\<close>

lemma needs_heredoc: "needs re_heredoc [''<<'']"
  unfolding re_heredoc_def by (rule needs_seqs [of "lit ''<<''"]) (auto intro: needs_lit)

lemma heredoc_body_gaps: "concat (map heredoc_body (map Gap cmd)) = []"
  by (induction cmd) auto

lemma strip_heredocs_none:
  assumes "\<not> sublist ''<<'' cmd"
  shows "strip_heredocs cmd = (cmd, [])"
proof -
  have none: "\<And>w. w \<in> set [''<<''] \<Longrightarrow> \<not> sublist w cmd"
    using assms by simp
  show ?thesis
    unfolding strip_heredocs_def
    by (simp only: re_sub_needs [OF needs_heredoc none] re_scan_needs [OF needs_heredoc none]
        heredoc_body_gaps)
qed

text \<open>The loop as a function of the pieces: which segments pass, and what is left of them.\<close>

fun piece_ok :: "string list \<Rightarrow> piece \<Rightarrow> bool" where
  "piece_ok vs (Gap c) \<longleftrightarrow> True"
| "piece_ok vs (Hit st st') \<longleftrightarrow>
     in_quotes (rev (fst st)) \<or> is_safe_special_target (group_text 1 st') vs"

fun kept_text :: "piece \<Rightarrow> string" where
  "kept_text (Gap c) = [c]"
| "kept_text (Hit st st') = (if in_quotes (rev (fst st)) then hit_text st st' else [])"

fun cut_out :: "piece \<Rightarrow> bool" where
  "cut_out (Gap c) = False"
| "cut_out (Hit st st') = (\<not> in_quotes (rev (fst st)))"

lemma redir_loop_eq:
  "redir_loop vs ps =
     (if list_all (piece_ok vs) ps then Some (concat (map kept_text ps), list_ex cut_out ps)
      else None)"
proof (induction ps)
  case (Cons p ps)
  then show ?case by (cases p) simp_all
qed simp

end
