(* ===== verification/Guard_Prepare.thy ===== *)
theory Guard_Prepare
  imports Guard_Redirect
begin

text \<open>
  The first half of \<open>is_safe_segment\<close> in \<open>autonomous-exec-hook.py\<close>: everything that is
  taken off a segment before its command name is looked at. One definition per loop of the
  code, each with its termination proof, and \<open>prepare_segment\<close> that runs them in order.
\<close>

section \<open>Subshell parentheses\<close>

text \<open>
  \<^verbatim>\<open>while seg.startswith("(") or seg.endswith(")"):\<close>
  \<^verbatim>\<open>    seg = seg.lstrip("(").rstrip(")").strip()\<close>
\<close>

definition open_paren :: "char \<Rightarrow> bool" where
  "open_paren c \<longleftrightarrow> c = CHR ''(''"

definition shut_paren :: "char \<Rightarrow> bool" where
  "shut_paren c \<longleftrightarrow> c = CHR '')''"

definition strip_parens_once :: "string \<Rightarrow> string" where
  "strip_parens_once seg = trim (rstrip shut_paren (lstrip open_paren seg))"

lemma sublist_length_less: "sublist xs ys \<Longrightarrow> xs \<noteq> ys \<Longrightarrow> length xs < length ys"
  by (auto simp: sublist_def)

lemma strip_parens_once_shorter:
  assumes "head_is open_paren seg \<or> head_is shut_paren (rev seg)"
  shows "length (strip_parens_once seg) < length seg"
proof -
  let ?l = "lstrip open_paren seg"
  have "length (trim (rstrip shut_paren ?l)) \<le> length (rstrip shut_paren ?l)"
    by (rule sublist_length_le) (rule strip_sublist)
  moreover have "length (rstrip shut_paren ?l) \<le> length ?l" "length ?l \<le> length seg"
    by (rule sublist_length_le, rule rstrip_sublist) (rule sublist_length_le, rule lstrip_sublist)
  moreover have "length ?l < length seg" if "head_is open_paren seg"
    using that length_dropWhile_le [of open_paren "tl seg"]
    by (cases seg) (auto simp: lstrip_def open_paren_def)
  moreover have "length (rstrip shut_paren ?l) < length ?l \<or> length ?l < length seg"
    if shut: "head_is shut_paren (rev seg)"
  proof -
    obtain u where seg: "seg = u @ [CHR '')'']"
      using shut by (cases seg rule: rev_cases) (auto simp: shut_paren_def)
    show ?thesis
    proof (cases "?l = seg")
      case True
      then have "length (rstrip shut_paren ?l) < length ?l"
        using length_dropWhile_le [of shut_paren "rev u"]
        by (simp add: seg rstrip_def shut_paren_def)
      then show ?thesis ..
    next
      case False
      then show ?thesis
        using sublist_length_less [OF lstrip_sublist] by blast
    qed
  qed
  ultimately show ?thesis
    using assms unfolding strip_parens_once_def by linarith
qed

function strip_parens :: "string \<Rightarrow> string" where
  "strip_parens seg =
     (if head_is open_paren seg \<or> head_is shut_paren (rev seg)
      then strip_parens (strip_parens_once seg) else seg)"
  by pat_completeness auto
termination
  by (relation "measure length") (auto intro: strip_parens_once_shorter)

declare strip_parens.simps [simp del]

section \<open>Shell keywords\<close>

text \<open>\<^verbatim>\<open>^for\s+[A-Za-z_][A-Za-z0-9_]*\s+in\b(.*)$\<close>, DOTALL\<close>

definition re_name :: re where
  "re_name = Seq (Cls is_name_start) (star (Cls is_name_char))"

definition re_for :: re where
  "re_for = seqs
     [Bos, lit ''for'', plus space, re_name, plus space, lit ''in'', WordB,
      Grp 1 (star any_char), Eos]"

text \<open>\<^verbatim>\<open>^(?:(?:if|then|elif|else|while|until|do)\b|!)\s*(.*)\<close>, DOTALL\<close>

definition re_keyword_word :: re where
  "re_keyword_word = Alt
     (Seq (lits [''if'', ''then'', ''elif'', ''else'', ''while'', ''until'', ''do'']) WordB)
     (chr CHR ''!'')"

definition re_keyword :: re where
  "re_keyword = Seq (seqs [Bos, re_keyword_word, star space]) (Grp 1 (star any_char))"

lemma consumes_keyword: "consumes (seqs [Bos, re_keyword_word, star space])"
proof -
  have "consumes (lits [''if'', ''then'', ''elif'', ''else'', ''while'', ''until'', ''do''])"
    by (rule consumes_reads [OF reads_lits]) simp
  moreover have "consumes (chr CHR ''!'')"
    by (rule consumes_reads [OF reads_chr]) simp
  ultimately have "consumes re_keyword_word"
    unfolding re_keyword_word_def by (intro consumes_alt consumes_seq disjI1)
  then show ?thesis
    by (rule consumes_seqs [rotated]) simp
qed

lemma group_textD: "group n st = Some w \<Longrightarrow> group_text n st = w"
  by (simp add: group_text_def)

lemma keyword_rest:
  assumes "re_match re_keyword seg = Some m"
  shows "sublist (trim (group_text 1 m)) seg" "length (trim (group_text 1 m)) < length seg"
proof -
  obtain w where w: "group 1 m = Some w" "sublist w seg" "length w < length seg"
    using last_group [OF assms [unfolded re_keyword_def] consumes_keyword] by blast
  show "sublist (trim (group_text 1 m)) seg"
    using sublist_order.order.trans [OF strip_sublist w(2)] w(1) by (simp add: group_text_def)
  show "length (trim (group_text 1 m)) < length seg"
    using sublist_length_le [OF strip_sublist, of is_space w] w by (simp add: group_text_def)
qed

text \<open>The loop over leading keywords; \<open>None\<close> is the early \<open>return True, False\<close> for a \<open>for\<close> header.\<close>

function strip_keywords :: "string \<Rightarrow> string option" where
  "strip_keywords seg =
     (if re_match re_for seg \<noteq> None then None
      else (case re_match re_keyword seg of
              None \<Rightarrow> Some seg
            | Some m \<Rightarrow> strip_keywords (trim (group_text 1 m))))"
  by pat_completeness auto
termination
  by (relation "measure length") (auto dest: keyword_rest)

declare strip_keywords.simps [simp del]

section \<open>Assignments\<close>

text \<open>\<^verbatim>\<open>^export\s+(?=[A-Za-z_][A-Za-z0-9_]*=)\<close>\<close>

definition re_export :: re where
  "re_export = seqs [Bos, lit ''export'', plus space, Look (Seq re_name (chr CHR ''=''))]"

definition nothing :: "cursor \<Rightarrow> cursor \<Rightarrow> string" where
  "nothing st st' = []"

definition strip_export :: "string \<Rightarrow> string" where
  "strip_export seg = re_sub re_export nothing seg"

text \<open>
  \<^verbatim>\<open>^([A-Za-z_][A-Za-z0-9_]*)=(?:\"([^\"]*)\"|'([^']*)'|([^\s;|&\)]*))\s*(.*)\<close>, DOTALL
\<close>

definition quoted_group :: "nat \<Rightarrow> char \<Rightarrow> re" where
  "quoted_group n q = seqs [chr q, Grp n (star (Cls (\<lambda>c. c \<noteq> q))), chr q]"

definition re_assign_head :: re where
  "re_assign_head = seqs
     [Bos, Grp 1 re_name, chr CHR ''='',
      alts [quoted_group 2 CHR ''\"'', quoted_group 3 CHR 0x27, Grp 4 (star (Cls is_target_char))],
      star space]"

definition re_assign :: re where
  "re_assign = Seq re_assign_head (Grp 5 (star any_char))"

lemma consumes_assign_head: "consumes re_assign_head"
  unfolding re_assign_head_def
  by (rule consumes_seqs [of "chr CHR ''=''"]) (auto intro: consumes_reads [OF reads_chr])

lemma assign_rest:
  assumes "re_match re_assign seg = Some m"
  shows "sublist (trim (group_text 5 m)) seg" "length (trim (group_text 5 m)) < length seg"
proof -
  obtain w where w: "group 5 m = Some w" "sublist w seg" "length w < length seg"
    using last_group [OF assms [unfolded re_assign_def] consumes_assign_head] by blast
  show "sublist (trim (group_text 5 m)) seg"
    using sublist_order.order.trans [OF strip_sublist w(2)] w(1) by (simp add: group_text_def)
  show "length (trim (group_text 5 m)) < length seg"
    using sublist_length_le [OF strip_sublist, of is_space w] w by (simp add: group_text_def)
qed

text \<open>\<^verbatim>\<open>m.group(2) or m.group(3) or m.group(4) or ""\<close>\<close>

definition assigned_value :: "cursor \<Rightarrow> string" where
  "assigned_value m =
     (if group_text 2 m \<noteq> [] then group_text 2 m
      else if group_text 3 m \<noteq> [] then group_text 3 m
      else group_text 4 m)"

text \<open>\<open>safe_vars.add\<close> when the value is a safe target, \<open>safe_vars.discard\<close> otherwise.\<close>

definition record_var :: "string \<Rightarrow> string \<Rightarrow> string list \<Rightarrow> string list" where
  "record_var name val vs =
     (if is_safe_special_target val vs then List.insert name vs else filter (\<lambda>v. v \<noteq> name) vs)"

function strip_assignments :: "string list \<Rightarrow> string \<Rightarrow> string \<times> string list" where
  "strip_assignments vs seg =
     (case re_match re_assign seg of
        None \<Rightarrow> (seg, vs)
      | Some m \<Rightarrow> strip_assignments (record_var (group_text 1 m) (assigned_value m) vs)
                    (trim (group_text 5 m)))"
  by pat_completeness auto
termination
  by (relation "measure (\<lambda>(vs, seg). length seg)") (auto dest: assign_rest)

declare strip_assignments.simps [simp del]

section \<open>Tokens and wrapper utilities\<close>

text \<open>\<^verbatim>\<open>(?:\"[^\"]*\"|'[^']*'|[^\s\"']+)\<close>\<close>

definition is_bare_char :: "char \<Rightarrow> bool" where
  "is_bare_char c \<longleftrightarrow> \<not> is_space c \<and> \<not> is_quote c"

definition re_token :: re where
  "re_token = alts [quoted CHR ''\"'', quoted CHR 0x27, plus (Cls is_bare_char)]"

text \<open>\<^verbatim>\<open>^[A-Za-z_][A-Za-z0-9_]*=\<close>\<close>

definition re_key_val :: re where
  "re_key_val = seqs [Bos, re_name, chr CHR ''='']"

definition env_flag :: "string \<Rightarrow> bool" where
  "env_flag t \<longleftrightarrow> re_match re_key_val (unquote t) \<noteq> None \<or> unquote t \<in> {''-i'', ''-0'', ''-u''}"

fun drop_env_flags :: "string list \<Rightarrow> string list" where
  "drop_env_flags [] = []"
| "drop_env_flags (t # ts) =
     (if env_flag t then
        (if unquote t = ''-u'' then drop_env_flags (tl ts) else drop_env_flags ts)
      else t # ts)"

lemma suffix_tl: "suffix (tl xs) xs"
  by (cases xs) (simp_all add: suffix_ConsI)

lemma drop_env_flags_suffix: "suffix (drop_env_flags ts) ts"
proof (induction ts rule: drop_env_flags.induct)
  case (2 t ts)
  then show ?case
    using suffix_order.trans [OF _ suffix_tl, of "drop_env_flags (tl ts)" ts]
    by (auto intro: suffix_ConsI)
qed simp

definition command_name :: "string \<Rightarrow> string" where
  "command_name t = basename (unquote t)"

function strip_env :: "string list \<Rightarrow> string list" where
  "strip_env [] = []"
| "strip_env (t # ts) =
     (if command_name t = ''env'' then strip_env (drop_env_flags ts) else t # ts)"
  by pat_completeness auto
termination
  by (relation "measure length") (auto simp: less_Suc_eq_le intro: suffix_length_le drop_env_flags_suffix)

definition timeout_value_flag :: "string \<Rightarrow> bool" where
  "timeout_value_flag t \<longleftrightarrow> t \<in> {''-k'', ''--kill-after'', ''-s'', ''--signal''}"

fun drop_timeout_flags :: "string list \<Rightarrow> string list" where
  "drop_timeout_flags [] = []"
| "drop_timeout_flags (t # ts) =
     (if prefix ''-'' (unquote t) then
        (if timeout_value_flag (unquote t) then drop_timeout_flags (tl ts)
         else drop_timeout_flags ts)
      else t # ts)"

lemma drop_timeout_flags_suffix: "suffix (drop_timeout_flags ts) ts"
proof (induction ts rule: drop_timeout_flags.induct)
  case (2 t ts)
  then show ?case
    using suffix_order.trans [OF _ suffix_tl, of "drop_timeout_flags (tl ts)" ts]
    by (auto intro: suffix_ConsI)
qed simp

lemma suffix_tl_timeout: "suffix (tl (drop_timeout_flags ts)) ts"
  by (rule suffix_order.trans [OF suffix_tl drop_timeout_flags_suffix])

function strip_timeout :: "string list \<Rightarrow> string list" where
  "strip_timeout [] = []"
| "strip_timeout (t # ts) =
     (if command_name t = ''timeout'' then strip_timeout (tl (drop_timeout_flags ts)) else t # ts)"
  by pat_completeness auto
termination
  by (relation "measure length")
    (auto simp: less_Suc_eq_le intro: le_trans [OF diff_le_self] suffix_length_le drop_timeout_flags_suffix)

lemma strip_env_suffix: "suffix (strip_env ts) ts"
proof (induction ts rule: strip_env.induct)
  case (2 t ts)
  then show ?case
    using suffix_order.trans [OF _ drop_env_flags_suffix [of ts]] by (auto intro: suffix_ConsI)
qed simp

lemma strip_timeout_suffix: "suffix (strip_timeout ts) ts"
proof (induction ts rule: strip_timeout.induct)
  case (2 t ts)
  then show ?case
    using suffix_order.trans [OF _ suffix_tl_timeout [of ts]] by (auto intro: suffix_ConsI)
qed simp

section \<open>What is left of a segment\<close>

text \<open>
  The verdict of a segment is the pair the code returns, together with the set \<open>safe_vars\<close>
  that the code mutates. Preparation either ends with a verdict (an early return) or with the
  tokens of the command to be looked at; \<open>writes\<close> is \<open>redir_writes\<close>.
\<close>

record verdict =
  safe :: bool
  writes :: bool
  vars :: "string list"

definition mk_verdict :: "bool \<Rightarrow> bool \<Rightarrow> string list \<Rightarrow> verdict" where
  "mk_verdict ok w vs = \<lparr>safe = ok, writes = w, vars = vs\<rparr>"

datatype prepared = Settled verdict | Command "string list" bool "string list"

definition seg_done :: "string \<Rightarrow> bool" where
  "seg_done seg \<longleftrightarrow> seg \<in> {[], ''fi'', ''done'', ''esac'', ''true'', ''false''}"

definition command_tokens :: "string \<Rightarrow> string list" where
  "command_tokens seg = strip_timeout (strip_env (re_findall re_token seg))"

definition prepare_redirected :: "bool \<Rightarrow> string list \<Rightarrow> string \<Rightarrow> prepared" where
  "prepare_redirected w vs seg =
     (case strip_assignments vs (strip_export seg) of
        (rest, vs') \<Rightarrow>
          (case command_tokens rest of
             [] \<Rightarrow> Settled (mk_verdict True w vs')
           | t # ts \<Rightarrow> Command (t # ts) w vs'))"

definition prepare_segment :: "string list \<Rightarrow> string \<Rightarrow> prepared" where
  "prepare_segment vs segment =
     (let seg = strip_parens (trim segment) in
      if seg = [] \<or> prefix ''#'' seg then Settled (mk_verdict True False vs)
      else
        (case strip_keywords seg of
           None \<Rightarrow> Settled (mk_verdict True False vs)
         | Some seg' \<Rightarrow>
             if seg_done seg' then Settled (mk_verdict True False vs)
             else
               (case check_and_strip_redirections seg' vs of
                  (ok, seg'', w) \<Rightarrow>
                    if \<not> ok then Settled (mk_verdict False False vs)
                    else prepare_redirected w vs seg'')))"

lemma prepare_segment_tokens:
  "prepare_segment vs segment = Command toks w vs' \<Longrightarrow> toks \<noteq> []"
  by (auto simp: prepare_segment_def prepare_redirected_def Let_def
      split: if_splits option.splits prod.splits list.splits)

section \<open>The visible characters of the tokens come from the segment\<close>

text \<open>
  Every step only removes visible characters, which is what makes the recursion of
  \<open>is_safe_segment\<close> through \<open>xargs\<close> end.
\<close>

named_theorems ink_le

lemma ink_trim [ink_le]: "ink (trim s) \<le> ink s"
  by (rule ink_sublist) (rule strip_sublist)

lemma strip_parens_sublist: "sublist (strip_parens seg) seg"
proof (induction seg rule: strip_parens.induct)
  case (1 seg)
  have "sublist (strip_parens_once seg) seg"
    unfolding strip_parens_once_def
    by (rule sublist_order.order.trans [OF strip_sublist])
      (rule sublist_order.order.trans [OF rstrip_sublist lstrip_sublist])
  then show ?case
    using 1 by (subst strip_parens.simps) (auto intro: sublist_order.order.trans)
qed

lemma strip_keywords_sublist: "strip_keywords seg = Some seg' \<Longrightarrow> sublist seg' seg"
proof (induction seg arbitrary: seg' rule: strip_keywords.induct)
  case (1 seg)
  show ?case
  proof (cases "re_match re_for seg")
    case None
    note no_for = this
    show ?thesis
    proof (cases "re_match re_keyword seg")
      case None
      then show ?thesis
        using "1.prems" no_for by (simp add: strip_keywords.simps)
    next
      case (Some m)
      then have "strip_keywords (trim (group_text 1 m)) = Some seg'"
        using "1.prems" no_for by (simp add: strip_keywords.simps)
      then have "sublist seg' (trim (group_text 1 m))"
        using "1.IH" no_for Some by blast
      then show ?thesis
        using keyword_rest(1) [OF Some] by (rule sublist_order.order.trans)
    qed
  qed (use "1.prems" in \<open>simp add: strip_keywords.simps\<close>)
qed

lemma strip_assignments_sublist: "sublist (fst (strip_assignments vs seg)) seg"
proof (induction vs seg rule: strip_assignments.induct)
  case (1 vs seg)
  show ?case
  proof (cases "re_match re_assign seg")
    case None
    then show ?thesis
      by (simp add: strip_assignments.simps [of vs seg])
  next
    case (Some m)
    then show ?thesis
      using 1 assign_rest(1) [OF Some]
      by (subst strip_assignments.simps) (auto intro: sublist_order.order.trans)
  qed
qed

lemma ink_strip_export [ink_le]: "ink (strip_export seg) \<le> ink seg"
  unfolding strip_export_def by (rule ink_re_sub) (simp add: nothing_def)

lemma ink_clean [ink_le]: "ink (clean_redirections seg) \<le> ink seg"
  unfolding clean_redirections_def
  by (rule order_trans [OF ink_re_sub ink_re_sub]) (simp_all add: blank_def is_space_def code_def)

lemma ink_kept: "ink (concat (map kept_text ps)) \<le> ink (concat (map piece_text ps))"
proof (induction ps)
  case (Cons p ps)
  then show ?case by (cases p) (auto intro: le_SucI add_mono trans_le_add2)
qed simp

lemma ink_redirections:
  "ink (fst (snd (check_and_strip_redirections seg vs))) \<le> ink seg"
proof -
  have "ink (concat (map kept_text (re_scan re_redir [] (clean_redirections seg)))) \<le> ink seg"
    using ink_kept [of "re_scan re_redir [] (clean_redirections seg)"]
      re_scan_text [of re_redir "[]" "clean_redirections seg"] ink_clean [of seg] by simp
  then show ?thesis
    by (auto simp: check_and_strip_redirections_def redir_loop_eq Let_def)
qed

lemma sum_list_suffix: "suffix xs ys \<Longrightarrow> sum_list (map f xs) \<le> (sum_list (map f ys) :: nat)"
  by (auto simp: suffix_def)

lemma ink_tokens: "sum_list (map ink (command_tokens seg)) \<le> ink seg"
proof -
  have "suffix (command_tokens seg) (re_findall re_token seg)"
    unfolding command_tokens_def
    by (rule suffix_order.trans [OF strip_timeout_suffix strip_env_suffix])
  then show ?thesis
    using ink_findall [of re_token seg] sum_list_suffix [of _ _ ink] by (meson order_trans)
qed

lemma prepare_redirected_ink:
  assumes "prepare_redirected w vs seg = Command toks w' vs'"
  shows "sum_list (map ink toks) \<le> ink seg"
proof -
  obtain rest vs1 where sa: "strip_assignments vs (strip_export seg) = (rest, vs1)"
    by (cases "strip_assignments vs (strip_export seg)")
  then have "sublist rest (strip_export seg)"
    using strip_assignments_sublist [of vs "strip_export seg"] by simp
  then have "ink rest \<le> ink seg"
    using ink_sublist ink_strip_export [of seg] by (blast intro: order_trans)
  moreover have "toks = command_tokens rest"
    using assms sa by (auto simp: prepare_redirected_def split: list.splits)
  ultimately show ?thesis
    using ink_tokens [of rest] by simp
qed

theorem prepare_segment_ink:
  assumes "prepare_segment vs segment = Command toks w vs'"
  shows "sum_list (map ink toks) \<le> ink segment"
proof -
  let ?seg = "strip_parens (trim segment)"
  obtain seg' where kw: "strip_keywords ?seg = Some seg'"
    using assms by (auto simp: prepare_segment_def Let_def split: if_splits option.splits)
  obtain ok seg'' r where rd: "check_and_strip_redirections seg' vs = (ok, seg'', r)"
    by (cases "check_and_strip_redirections seg' vs") auto
  have "prepare_redirected r vs seg'' = Command toks w vs'"
    using assms kw rd by (auto simp: prepare_segment_def Let_def split: if_splits)
  then have "sum_list (map ink toks) \<le> ink seg''"
    by (rule prepare_redirected_ink)
  also have "\<dots> \<le> ink seg'"
    using ink_redirections [of seg' vs] rd by simp
  also have "\<dots> \<le> ink ?seg"
    using ink_sublist [OF strip_keywords_sublist [OF kw]] .
  also have "\<dots> \<le> ink segment"
    by (rule order_trans [OF ink_sublist [OF strip_parens_sublist] ink_trim])
  finally show ?thesis .
qed

end
