(* ===== verification/Guard_Segment.thy ===== *)
theory Guard_Segment
  imports Guard_Prepare
begin

text \<open>
  The second half of \<open>is_safe_segment\<close> in \<open>autonomous-exec-hook.py\<close>: the verdict on the tokens
  that \<open>prepare_segment\<close> leaves. One definition per command family, in the order of the
  code; every verdict is the pair \<open>(is_safe, needs_write_override)\<close>.
\<close>

type_synonym answer = "bool \<times> bool"

definition refuse :: answer where
  "refuse = (False, False)"

definition unquoted_args :: "string list \<Rightarrow> string list" where
  "unquoted_args tokens = map unquote (tl tokens)"

definition plain_args :: "string list \<Rightarrow> string list" where
  "plain_args tokens = filter (\<lambda>t. \<not> prefix ''-'' t) (unquoted_args tokens)"

section \<open>git and hg\<close>

definition SAFE_GIT_SUBCOMMANDS :: "string list" where
  "SAFE_GIT_SUBCOMMANDS =
    [''status'', ''log'', ''diff'', ''show'', ''rev-parse'', ''ls-files'', ''remote'',
     ''describe'', ''blame'', ''shortlog'', ''reflog'', ''cat-file'', ''check-ignore'',
     ''for-each-ref'', ''name-rev'', ''merge-base'', ''rev-list'', ''ls-tree'',
     ''symbolic-ref'', ''fetch'', ''branch'', ''checkout'', ''switch'', ''add'',
     ''commit'', ''stash'', ''rebase'', ''reset'', ''worktree'', ''tag'', ''config'',
     ''rm'', ''mv'', ''archive'', ''restore'', ''init'']"

definition SAFE_HG_SUBCOMMANDS :: "string list" where
  "SAFE_HG_SUBCOMMANDS =
    [''status'', ''st'', ''log'', ''history'', ''diff'', ''branch'', ''branches'', ''root'',
     ''id'', ''identify'', ''paths'', ''locate'', ''add'', ''commit'', ''update'', ''up'', ''pull'']"

definition vcs_value_flags :: "string list" where
  "vcs_value_flags =
    [''-C'', ''-c'', ''--git-dir'', ''--work-tree'', ''-R'', ''--repository'', ''--cwd'']"

text \<open>
  The index loops of the code as functions on what is left of the tokens: \<open>idx += 2\<close> drops
  a flag and its value, \<open>idx += 1\<close> a flag, \<open>break\<close> stops.
\<close>

fun skip_options :: "(string \<Rightarrow> bool) \<Rightarrow> string list \<Rightarrow> string list" where
  "skip_options takes_value [] = []"
| "skip_options takes_value (t # ts) =
     (if takes_value (unquote t) then skip_options takes_value (tl ts)
      else if prefix ''-'' (unquote t) then skip_options takes_value ts
      else t # ts)"

fun skip_vcs_options :: "string list \<Rightarrow> string list" where
  "skip_vcs_options [] = []"
| "skip_vcs_options (t # ts) =
     (if t \<in> set vcs_value_flags then skip_vcs_options (tl ts)
      else if prefix ''--git-dir='' t \<or> prefix ''--work-tree='' t then skip_vcs_options ts
      else if prefix ''-'' t then skip_vcs_options ts
      else t # ts)"

definition vcs_subcommand_ok :: "string \<Rightarrow> string \<Rightarrow> bool" where
  "vcs_subcommand_ok prog subcmd \<longleftrightarrow>
     subcmd \<noteq> ''push'' \<and>
     (if prog = ''git'' then subcmd \<in> set SAFE_GIT_SUBCOMMANDS
      else prog = ''hg'' \<and> subcmd \<in> set SAFE_HG_SUBCOMMANDS)"

fun is_safe_git_or_hg :: "string list \<Rightarrow> bool" where
  "is_safe_git_or_hg [] = False"
| "is_safe_git_or_hg (prog # args) =
     (case skip_vcs_options args of
        [] \<Rightarrow> True
      | subcmd # _ \<Rightarrow> vcs_subcommand_ok (basename prog) subcmd)"

section \<open>Programs with dangerous flags\<close>

text \<open>\<^verbatim>\<open>^-[a-zA-Z0-9]*i\<close> and \<^verbatim>\<open>^-[a-zA-Z0-9]*[xX]\<close>\<close>

definition re_sed_inplace :: re where
  "re_sed_inplace = seqs [Bos, chr CHR ''-'', star (Cls is_alnum_az), chr CHR ''i'']"

definition re_fd_exec :: re where
  "re_fd_exec = seqs [Bos, chr CHR ''-'', star (Cls is_alnum_az), one_of ''xX'']"

definition sed_writes :: "string \<Rightarrow> bool" where
  "sed_writes t \<longleftrightarrow> prefix ''--in-place'' t \<or> re_match re_sed_inplace t \<noteq> None"

definition awk_writes :: "string \<Rightarrow> bool" where
  "awk_writes t \<longleftrightarrow> t \<in> {''-i'', ''inplace''} \<or> prefix ''-i'' t"

definition find_acts :: "string \<Rightarrow> bool" where
  "find_acts t \<longleftrightarrow> t \<in> {''-delete'', ''-exec'', ''-execdir'', ''-ok'', ''-okdir'', ''-fprint'',
     ''-fprint0'', ''-fls''}"

definition fd_acts :: "string \<Rightarrow> bool" where
  "fd_acts t \<longleftrightarrow> t \<in> {''-x'', ''-X'', ''--exec'', ''--exec-batch''} \<or> prefix ''--exec'' t \<or>
     re_match re_fd_exec t \<noteq> None"

definition unless_flag :: "(string \<Rightarrow> bool) \<Rightarrow> string list \<Rightarrow> bool \<Rightarrow> answer" where
  "unless_flag bad tokens redir_writes =
     (if list_ex bad (unquoted_args tokens) then refuse else (True, redir_writes))"

section \<open>Network and cloud programs\<close>

fun curl_outputs_ok :: "string list \<Rightarrow> string list \<Rightarrow> bool" where
  "curl_outputs_ok vs (t # u # ts) =
     ((t \<in> {''-o'', ''--output''} \<longrightarrow> is_safe_special_target u vs) \<and> curl_outputs_ok vs (u # ts))"
| "curl_outputs_ok vs ts = True"

definition curl_answer :: "string list \<Rightarrow> string list \<Rightarrow> bool \<Rightarrow> answer" where
  "curl_answer vs tokens redir_writes =
     (if curl_outputs_ok vs (unquoted_args tokens) then (True, redir_writes) else refuse)"

definition gcloud_words :: "string list" where
  "gcloud_words = [''print-access-token'', ''print-identity-token'', ''get-credentials'',
     ''describe'', ''list'', ''ls'', ''cp'', ''info'']"

definition gcloud_answer :: "string list \<Rightarrow> answer" where
  "gcloud_answer tokens =
     (if list_ex (\<lambda>sub. sub \<in> set (unquoted_args tokens)) gcloud_words then (True, True) else refuse)"

definition kubectl_verbs :: "string list" where
  "kubectl_verbs = [''get'', ''describe'', ''logs'', ''top'', ''version'', ''cluster-info'',
     ''config'', ''explain'', ''api-resources'']"

definition kubectl_answer :: "string list \<Rightarrow> bool \<Rightarrow> answer" where
  "kubectl_answer tokens redir_writes =
     (case plain_args tokens of
        [] \<Rightarrow> refuse
      | verb # _ \<Rightarrow> if verb \<in> set kubectl_verbs then (True, redir_writes) else refuse)"

section \<open>Programs that write to their path arguments\<close>

text \<open>\<open>tee\<close>, and \<open>mkdir rmdir touch cp mv rm chmod\<close>: at least one path, all of them safe targets.\<close>

definition paths_answer :: "string list \<Rightarrow> string list \<Rightarrow> answer" where
  "paths_answer vs tokens =
     (if plain_args tokens \<noteq> [] \<and> list_all (\<lambda>p. is_safe_special_target p vs) (plain_args tokens)
      then (True, True) else refuse)"

section \<open>Package managers and build tools\<close>

definition npx_tools :: "string list" where
  "npx_tools = [''jest'', ''eslint'', ''prettier'', ''tsc'', ''vitest'', ''cypress'', ''playwright'']"

definition first_arg_in :: "string list \<Rightarrow> string list \<Rightarrow> bool" where
  "first_arg_in names tokens \<longleftrightarrow>
     (case unquoted_args tokens of [] \<Rightarrow> False | sub # _ \<Rightarrow> sub \<in> set names)"

definition npx_answer :: "string list \<Rightarrow> answer" where
  "npx_answer tokens = (if first_arg_in npx_tools tokens then (True, True) else refuse)"

definition npm_value_flag :: "string \<Rightarrow> bool" where
  "npm_value_flag t \<longleftrightarrow> t \<in> {''--prefix'', ''-C'', ''--cwd'', ''--workspace'', ''-w''}"

definition npm_scripts :: "string list" where
  "npm_scripts = [''test'', ''t'', ''tst'', ''list'', ''ls'', ''outdated'', ''why'', ''explain'',
     ''info'', ''view'', ''run'']"

definition npm_answer :: "string list \<Rightarrow> answer" where
  "npm_answer tokens =
     (case skip_options npm_value_flag (tl tokens) of
        [] \<Rightarrow> refuse
      | sub # _ \<Rightarrow> if unquote sub \<in> set npm_scripts then (True, True) else refuse)"

definition cargo_commands :: "string list" where
  "cargo_commands = [''test'', ''check'', ''clippy'', ''bench'', ''metadata'', ''tree'']"

definition go_commands :: "string list" where
  "go_commands = [''test'', ''vet'', ''list'', ''env'', ''version'']"

section \<open>Interpreters\<close>

text \<open>
  \<^verbatim>\<open>(?:writeFile|appendFile|unlink|rmSync|rmdir|child_process|exec|spawn|fork|createWriteStream|fs\.open)\<close>
  and
  \<^verbatim>\<open>(?:os\.system|subprocess|Popen|check_output|rmtree|shutil|unlink|remove|write_text|write_bytes|open\s*\([^)]*['\"][wa+])\<close>
\<close>

definition re_node_effect :: re where
  "re_node_effect = lits
     [''writeFile'', ''appendFile'', ''unlink'', ''rmSync'', ''rmdir'', ''child_process'', ''exec'',
      ''spawn'', ''fork'', ''createWriteStream'', ''fs.open'']"

definition re_python_effect :: re where
  "re_python_effect = Alt
     (lits [''os.system'', ''subprocess'', ''Popen'', ''check_output'', ''rmtree'', ''shutil'',
        ''unlink'', ''remove'', ''write_text'', ''write_bytes''])
     (seqs [lit ''open'', star space, chr CHR ''('', star (none_of '')''), one_of quote_chars,
        one_of ''wa+''])"

definition code_of :: "string list \<Rightarrow> string list \<Rightarrow> string" where
  "code_of tokens bodies = join '' '' (drop 2 tokens) @ '' '' @ join '' '' bodies"

definition node_answer :: "string list \<Rightarrow> string list \<Rightarrow> string list \<Rightarrow> bool \<Rightarrow> answer" where
  "node_answer vs bodies tokens redir_writes =
     (case unquoted_args tokens of
        [] \<Rightarrow> refuse
      | arg1 # _ \<Rightarrow>
          if (is_safe_special_target arg1 vs \<or> suffix ''.js'' arg1) \<and>
             \<not> re_search re_node_effect (join '' '' (tl tokens)) then (True, True)
          else if arg1 \<in> {''-e'', ''-p'', ''--eval'', ''--print'', ''-''} \<and>
             \<not> re_search re_node_effect (code_of tokens bodies) then (True, redir_writes)
          else refuse)"

definition python_answer :: "string list \<Rightarrow> string list \<Rightarrow> string list \<Rightarrow> bool \<Rightarrow> answer" where
  "python_answer vs bodies tokens redir_writes =
     (case unquoted_args tokens of
        [] \<Rightarrow> refuse
      | arg1 # rest \<Rightarrow>
          if is_safe_special_target arg1 vs then (True, True)
          else if ''--test'' \<in> set rest \<and>
             (sublist ''plugins/'' arg1 \<or> sublist ''plugins_data/'' arg1 \<or> sublist ''.github/'' arg1)
          then (True, redir_writes)
          else if arg1 \<in> {''-c'', ''-''} \<and> \<not> re_search re_python_effect (code_of tokens bodies)
          then (True, redir_writes)
          else refuse)"

definition shell_answer :: "string list \<Rightarrow> answer" where
  "shell_answer tokens =
     (case tl tokens of
        [] \<Rightarrow> refuse
      | script # _ \<Rightarrow> if is_anchored_plugin_script script then (True, True) else refuse)"

section \<open>The command families in order\<close>

definition SAFE_READ_COMMANDS :: "string list" where
  "SAFE_READ_COMMANDS =
    [''ls'', ''cat'', ''head'', ''tail'', ''less'', ''more'', ''wc'', ''du'', ''df'',
     ''locate'', ''which'', ''whereis'', ''type'', ''file'', ''stat'',
     ''realpath'', ''readlink'', ''dirname'', ''basename'', ''pwd'', ''tree'',
     ''md5'', ''md5sum'', ''shasum'', ''sha1sum'', ''sha256sum'', ''cmp'', ''diff'', ''comm'',
     ''javap'', ''jar'', ''dig'', ''nslookup'', ''host'', ''lsof'', ''ps'', ''pgrep'', ''uname'',
     ''whoami'', ''id'', ''hostname'', ''date'', ''sleep'', ''seq'', ''expr'', ''bc'', ''sw_vers'',
     ''gob-curl'', ''gsutil'', ''tar'', ''sso_client'', ''gcert'',
     ''grep'', ''egrep'', ''fgrep'', ''rg'', ''ag'', ''ack'',
     ''cut'', ''sort'', ''uniq'', ''tr'', ''column'', ''fmt'', ''fold'', ''nl'', ''od'',
     ''hexdump'', ''xxd'', ''strings'', ''jq'', ''yq'',
     ''echo'', ''printf'', ''true'', ''false'', ''test'', ''['', ''[['', ''printenv'',
     ''cd'', ''export'', ''local'', ''unset'', ''shift'', ''read'', ''set'', ''fi'',
     ''done'', ''esac'',
     ''jest'', ''eslint'', ''prettier'', ''tsc'', ''vitest'', ''pytest'', ''ruff'',
     ''flake8'', ''mypy'', ''shellcheck'', ''clippy'', ''revmux'', ''agentapi'']"

definition path_writers :: "string list" where
  "path_writers = [''mkdir'', ''rmdir'', ''touch'', ''cp'', ''mv'', ''rm'', ''chmod'']"

definition command_answer :: "string list \<Rightarrow> string list \<Rightarrow> string list \<Rightarrow> bool \<Rightarrow> answer" where
  "command_answer vs bodies tokens redir_writes =
     (let first_tok = unquote (hd tokens); cmd_name = basename first_tok in
      if is_anchored_plugin_script first_tok then (True, True)
      else if cmd_name \<in> {''gradlew'', ''gradle''} then (True, True)
      else if cmd_name = ''sed'' then unless_flag sed_writes tokens redir_writes
      else if cmd_name \<in> {''awk'', ''gawk''} then unless_flag awk_writes tokens redir_writes
      else if cmd_name = ''find'' then unless_flag find_acts tokens redir_writes
      else if cmd_name = ''fd'' then unless_flag fd_acts tokens redir_writes
      else if cmd_name = ''curl'' then curl_answer vs tokens redir_writes
      else if cmd_name = ''gcloud'' then gcloud_answer tokens
      else if cmd_name = ''kubectl'' then kubectl_answer tokens redir_writes
      else if cmd_name = ''tee'' then paths_answer vs tokens
      else if cmd_name \<in> set path_writers then paths_answer vs tokens
      else if cmd_name \<in> {''git'', ''hg''} then (is_safe_git_or_hg (map unquote tokens), True)
      else if cmd_name = ''npx'' then npx_answer tokens
      else if cmd_name \<in> {''npm'', ''yarn'', ''pnpm''} then npm_answer tokens
      else if cmd_name = ''cargo'' then (first_arg_in cargo_commands tokens, redir_writes)
      else if cmd_name = ''go'' then (first_arg_in go_commands tokens, redir_writes)
      else if cmd_name = ''node'' then node_answer vs bodies tokens redir_writes
      else if cmd_name \<in> {''python'', ''python3'', ''swift''}
        then python_answer vs bodies tokens redir_writes
      else if cmd_name \<in> {''bash'', ''sh'', ''zsh''} then shell_answer tokens
      else (cmd_name \<in> set SAFE_READ_COMMANDS, redir_writes))"

section \<open>xargs\<close>

definition xargs_value_flag :: "string \<Rightarrow> bool" where
  "xargs_value_flag t \<longleftrightarrow> t \<in> {''-n'', ''-I'', ''-L'', ''-P'', ''-s'', ''-d''}"

definition runs_xargs :: "string list \<Rightarrow> bool" where
  "runs_xargs tokens \<longleftrightarrow>
     \<not> is_anchored_plugin_script (unquote (hd tokens)) \<and> command_name (hd tokens) = ''xargs''"

definition xargs_tokens :: "string list \<Rightarrow> string list" where
  "xargs_tokens tokens = skip_options xargs_value_flag (tl tokens)"

lemma skip_options_suffix: "suffix (skip_options f ts) ts"
proof (induction f ts rule: skip_options.induct)
  case (2 f t ts)
  then show ?case
    using suffix_order.trans [OF _ suffix_tl, of "skip_options f (tl ts)" ts]
    by (auto intro: suffix_ConsI)
qed simp

lemma ink_basename: "ink (basename (unquote t)) \<le> ink t"
  using ink_sublist [OF strip_sublist, of is_quote t]
    ink_sublist [OF suffix_imp_sublist, of "basename (unquote t)" "unquote t"]
  by (simp add: basename_suffix)

lemma xargs_shorter:
  assumes "runs_xargs (t # ts)"
  shows "ink (join '' '' (xargs_tokens (t # ts))) < sum_list (map ink (t # ts))"
proof -
  have "ink (join '' '' (xargs_tokens (t # ts))) \<le> sum_list (map ink ts)"
    using sum_list_suffix [OF skip_options_suffix, of ink xargs_value_flag ts]
    by (simp add: ink_join_blank xargs_tokens_def)
  moreover have "0 < ink t"
    using ink_basename [of t] assms
    by (simp add: runs_xargs_def command_name_def is_space_def code_def)
  ultimately show ?thesis by simp
qed

definition answered :: "answer \<Rightarrow> string list \<Rightarrow> verdict" where
  "answered a vs = mk_verdict (fst a) (snd a) vs"

text \<open>
  \<open>is_safe_segment\<close>: the verdict on a segment, with the variables known to hold a safe path
  before it and after it. The code calls itself on the command that \<open>xargs\<close> runs.
\<close>

function is_safe_segment :: "string list \<Rightarrow> string list \<Rightarrow> string \<Rightarrow> verdict" where
  "is_safe_segment bodies vs segment =
     (case prepare_segment vs segment of
        Settled v \<Rightarrow> v
      | Command tokens w vs' \<Rightarrow>
          if runs_xargs tokens then
            (if xargs_tokens tokens = [] then mk_verdict True w vs'
             else
               (let v = is_safe_segment bodies vs' (join '' '' (xargs_tokens tokens)) in
                mk_verdict (safe v) (w \<or> writes v) (vars v)))
          else answered (command_answer vs' bodies tokens w) vs')"
  by pat_completeness auto
termination
proof (relation "measure (\<lambda>(bodies, vs, segment). ink segment)")
  fix bodies vs segment tokens w vs'
  assume p: "prepare_segment vs segment = Command tokens w vs'"
    and x: "runs_xargs tokens"
  obtain t ts where "tokens = t # ts"
    using prepare_segment_tokens [OF p] by (cases tokens) auto
  then show "((bodies, vs', join '' '' (xargs_tokens tokens)), (bodies, vs, segment))
      \<in> measure (\<lambda>(bodies, vs, segment). ink segment)"
    using prepare_segment_ink [OF p] xargs_shorter [of t ts] x by simp
qed simp

declare is_safe_segment.simps [simp del]

end
