(* ===== verification/Guard_Tier1.thy ===== *)
theory Guard_Tier1
  imports Guard_Danger Guard_Scanner Guard_Segment
begin

text \<open>
  \<open>evaluate_tier1_command\<close> of \<open>autonomous-exec-hook.py\<close>: here documents are taken out, command
  substitutions are validated by the function itself at the next depth, the rest is cut into
  segments and every segment is judged, with the set of safe variables threaded through.
\<close>

section \<open>The segments of a command\<close>

fun run_segments :: "string list \<Rightarrow> string list \<Rightarrow> string list \<Rightarrow> answer" where
  "run_segments bodies vs [] = (True, False)"
| "run_segments bodies vs (seg # segs) =
     (if trim seg = [] then run_segments bodies vs segs
      else
        (let v = is_safe_segment bodies vs seg in
         if \<not> safe v then refuse
         else
           (case run_segments bodies (vars v) segs of
              (ok, w) \<Rightarrow> if ok then (True, writes v \<or> w) else refuse)))"

section \<open>The command\<close>

lemma resolve_scan_cong:
  "(\<And>x. ok x = ok' x) \<Longrightarrow> resolve_scan ok sg es cmd = resolve_scan ok' sg es cmd"
  by (subgoal_tac "ok = ok'") auto

lemma resolve_with_cong [fundef_cong]:
  "depth = depth' \<Longrightarrow> cmd = cmd' \<Longrightarrow> (\<And>x. depth' \<le> 4 \<Longrightarrow> ok x = ok' x) \<Longrightarrow>
   resolve_with ok depth cmd = resolve_with ok' depth' cmd'"
  by (cases "depth' \<le> 4") (auto simp: resolve_with_def cong: resolve_scan_cong)

text \<open>
  A command at depth 5 or more is refused before its substitutions are looked at, so the
  recursion ends; the depth of the command itself is 0.
\<close>

function evaluate_tier1_command :: "nat \<Rightarrow> string \<Rightarrow> answer" where
  "evaluate_tier1_command depth cmd =
     (case strip_heredocs cmd of (cmd_no_heredocs, bodies) \<Rightarrow>
       (case resolve_with (\<lambda>inner. fst (evaluate_tier1_command (Suc depth) inner)) depth
               cmd_no_heredocs of (sub_ok, cmd_resolved) \<Rightarrow>
         if \<not> sub_ok then refuse
         else
           (case split_command_segments cmd_resolved of
              None \<Rightarrow> refuse
            | Some segments \<Rightarrow> run_segments bodies [] segments)))"
  by pat_completeness auto
termination
  by (relation "measure (\<lambda>(depth, cmd). 5 - depth)") auto

declare evaluate_tier1_command.simps [simp del]

text \<open>The verdict on an inner command as a function of its own, as the equations are evaluated.\<close>

definition tier1_ok :: "nat \<Rightarrow> string \<Rightarrow> bool" where
  "tier1_ok depth cmd \<longleftrightarrow> fst (evaluate_tier1_command depth cmd)"

definition judge :: "string list \<Rightarrow> bool \<times> string \<Rightarrow> answer" where
  "judge bodies r =
     (if \<not> fst r then refuse
      else
        (case split_command_segments (snd r) of
           None \<Rightarrow> refuse
         | Some segments \<Rightarrow> run_segments bodies [] segments))"

lemma evaluate_tier1_command_code [code]:
  "evaluate_tier1_command depth cmd =
     (let h = strip_heredocs cmd in
      judge (snd h) (resolve_with (tier1_ok (Suc depth)) depth (fst h)))"
proof -
  have "tier1_ok (Suc depth) = (\<lambda>inner. fst (evaluate_tier1_command (Suc depth) inner))"
    by (simp add: fun_eq_iff tier1_ok_def)
  then show ?thesis
    by (simp add: evaluate_tier1_command.simps [of depth cmd] judge_def Let_def case_prod_beta)
qed

definition is_tier1_safe_command :: "string \<Rightarrow> bool" where
  "is_tier1_safe_command cmd \<longleftrightarrow> tier1_ok 0 cmd"

end
