(* ===== verification/Guard_Words.thy ===== *)
theory Guard_Words
  imports Guard_Tier1
begin

text \<open>
  The words of plain commands, for what the guard of \<open>autonomous-exec-hook.py\<close> decides on them: program
  names and arguments of ordinary characters, quoted arguments, and redirections of the output. A text
  of such words has these words as its tokens, and no parenthesis, keyword, assignment or export is
  taken off it.
\<close>

section \<open>Plain words\<close>

definition special_chars :: string where
  "special_chars = [CHR ''\"'', CHR 0x27, CHR 0x5C, CHR 0x60, CHR ''$'', CHR ''('', CHR '')'',
     CHR ''<'', CHR ''>'', CHR ''&'', CHR ''|'', CHR '';'', CHR ''#'', CHR ''!'']"

definition plain_char :: "char \<Rightarrow> bool" where
  "plain_char c \<longleftrightarrow> \<not> is_space c \<and> c \<notin> set special_chars"

definition plain_word :: "string \<Rightarrow> bool" where
  "plain_word w \<longleftrightarrow> w \<noteq> [] \<and> list_all plain_char w"

text \<open>
  A quoted argument: in single quotes anything but the quote itself, in double quotes no
  substitution, no backslash and single quotes in pairs, and no angle bracket in either.
\<close>

definition single_char :: "char \<Rightarrow> bool" where
  "single_char c \<longleftrightarrow> c \<noteq> squote \<and> c \<noteq> CHR ''<'' \<and> c \<noteq> CHR ''>''"

definition double_char :: "char \<Rightarrow> bool" where
  "double_char c \<longleftrightarrow> c \<notin> set [dquote, backslash, backtick, CHR ''<'', CHR ''>'']"

definition double_body :: "string \<Rightarrow> bool" where
  "double_body s \<longleftrightarrow> list_all double_char s \<and> \<not> odd_count squote s \<and> \<not> sublist ''$('' s"

definition quoted_word :: "string \<Rightarrow> bool" where
  "quoted_word w \<longleftrightarrow> 2 \<le> length w \<and> last w = hd w \<and>
     (hd w = squote \<and> list_all single_char (butlast (tl w)) \<or>
      hd w = dquote \<and> double_body (butlast (tl w)))"

definition arg_word :: "string \<Rightarrow> bool" where
  "arg_word w \<longleftrightarrow> plain_word w \<or> quoted_word w"

lemma plain_arg: "plain_word w \<Longrightarrow> arg_word w"
  by (simp add: arg_word_def)

lemma quoted_wordE:
  assumes "quoted_word w"
  obtains q body where "w = q # body @ [q]" "q = squote \<and> list_all single_char body \<or> q = dquote \<and> double_body body"
proof -
  obtain q v where w: "w = q # v" "v \<noteq> []"
    using assms by (cases w; cases "tl w") (auto simp: quoted_word_def)
  then have "v = butlast v @ [q]"
    using assms append_butlast_last_id [of v] by (simp add: quoted_word_def)
  then have "w = q # butlast v @ [q]"
    using w(1) by simp
  then show ?thesis
    using assms w that [of q "butlast v"] by (simp add: quoted_word_def)
qed

lemma arg_wordE:
  assumes "arg_word w"
  obtains (plain) "plain_word w"
    | (quoted) q body where "w = q # body @ [q]"
        "q = squote \<and> list_all single_char body \<or> q = dquote \<and> double_body body"
  using assms quoted_wordE unfolding arg_word_def by metis

text \<open>Redirections that join two outputs or discard one. The guard takes them off a command.\<close>

definition dup_words :: "string list" where
  "dup_words = [''2>&1'', ''1>&2'', ''>&2'']"

definition null_words :: "string list" where
  "null_words = [''2>/dev/null'', ''>/dev/null'', ''&>/dev/null'']"

definition discards :: "string \<Rightarrow> bool" where
  "discards w \<longleftrightarrow> w \<in> set (dup_words @ null_words)"

text \<open>
  Redirections to a file: an operator, blanks, and a target of ordinary characters that is not below
  \<open>/dev/null\<close> and does not begin with a digit.
\<close>

definition redir_ops :: "string list" where
  "redir_ops = [''>'', ''>>'', ''1>'', ''1>>'', ''2>'', ''2>>'', ''&>'', ''&>>'']"

definition plain_target :: "string \<Rightarrow> bool" where
  "plain_target t \<longleftrightarrow> plain_word t \<and> \<not> prefix ''/dev/null'' t \<and> \<not> head_is is_digit09 t"

definition after_blanks :: "string \<Rightarrow> string" where
  "after_blanks s = dropWhile (\<lambda>c. c = CHR '' '') s"

definition redirects :: "string \<Rightarrow> bool" where
  "redirects w \<longleftrightarrow> list_ex (\<lambda>op. prefix op w \<and> plain_target (after_blanks (drop (length op) w))) redir_ops"

definition redir_char :: "char \<Rightarrow> bool" where
  "redir_char c \<longleftrightarrow> is_digit09 c \<or> c = CHR ''&'' \<or> c = CHR ''>'' \<or> is_space c"

definition redirect_target :: "string \<Rightarrow> string" where
  "redirect_target w = dropWhile redir_char w"

text \<open>
  The items of a command are its words and redirections, each with the blanks in it. The guard takes
  the redirections off and looks at the targets.
\<close>

definition taken_off :: "string \<Rightarrow> bool" where
  "taken_off w \<longleftrightarrow> discards w \<or> redirects w"

definition item_word :: "string \<Rightarrow> bool" where
  "item_word w \<longleftrightarrow> arg_word w \<or> taken_off w"

definition args_of :: "string list \<Rightarrow> string list" where
  "args_of ws = filter (\<lambda>w. \<not> taken_off w) ws"

definition targets_of :: "string list \<Rightarrow> string list" where
  "targets_of ws = map redirect_target (filter redirects ws)"

lemmas discards_defs = discards_def dup_words_def null_words_def

abbreviation words_text :: "string list \<Rightarrow> string" where
  "words_text ws \<equiv> join '' '' ws"

text \<open>Characters that may stand in the text of a plain command.\<close>

definition quiet_char :: "char \<Rightarrow> bool" where
  "quiet_char c \<longleftrightarrow> plain_char c \<or> c = CHR '' ''"

lemma plain_quiet: "list_all plain_char w \<Longrightarrow> list_all quiet_char w"
  by (auto simp: list_all_iff quiet_char_def)

lemma arg_chars:
  assumes "arg_word w"
  shows "w \<noteq> []" "CHR ''<'' \<notin> set w" "CHR ''>'' \<notin> set w"
  using assms by (auto elim!: arg_wordE simp: plain_word_def list_all_iff plain_char_def special_chars_def
      single_char_def double_char_def double_body_def)

lemma quiet_not_special: "list_all quiet_char s \<Longrightarrow> c \<in> set special_chars \<Longrightarrow> c \<notin> set s"
  by (auto simp: list_all_iff quiet_char_def plain_char_def special_chars_def)

lemma plain_item: "plain_word w \<Longrightarrow> item_word w"
  by (simp add: item_word_def plain_arg)

lemma head_is_set: "head_is P s \<Longrightarrow> \<exists>c \<in> set s. P c"
  by (cases s) auto

lemma head_is_hd: "s \<noteq> [] \<Longrightarrow> head_is P s \<longleftrightarrow> P (hd s)"
  by (cases s) simp_all

lemma plain_hd: "plain_word w \<Longrightarrow> plain_char (hd w)"
  by (cases w) (auto simp: plain_word_def)

lemma redir_op_cases:
  "op \<in> set redir_ops \<Longrightarrow> \<exists>pre \<in> set [[], ''1'', ''2'', ''&'']. \<exists>g \<in> set [''>'', ''>>'']. op = pre @ g"
  by (auto simp: redir_ops_def)

lemma is_space_blank [simp]: "is_space CHR '' ''"
  by (simp add: is_space_def code_def)

lemma taken_blanks: "takeWhile (\<lambda>c. c = d) s = replicate (length (takeWhile (\<lambda>c. c = d) s)) d"
  by (induction s) simp_all

lemma redir_op_chars: "op \<in> set redir_ops \<Longrightarrow> (\<forall>c \<in> set op. redir_char c) \<and> dropWhile redir_char op = []"
  by (auto simp: redir_ops_def redir_char_def is_digit09_def code_def)

lemma target_chars:
  assumes "plain_target t"
  shows "t \<noteq> []" "\<And>c. c \<in> set t \<Longrightarrow> plain_char c" "\<not> redir_char (hd t)"
proof -
  show "t \<noteq> []" and p: "\<And>c. c \<in> set t \<Longrightarrow> plain_char c"
    using assms by (auto simp: plain_target_def plain_word_def list_all_iff)
  then have "plain_char (hd t)" "\<not> is_digit09 (hd t)"
    using assms by (auto simp: plain_target_def head_is_hd)
  then show "\<not> redir_char (hd t)"
    by (auto simp: redir_char_def plain_char_def special_chars_def)
qed

lemma redirectsE:
  assumes "redirects w"
  obtains op n t where "w = op @ replicate n CHR '' '' @ t" "op \<in> set redir_ops" "plain_target t"
    "redirect_target w = t"
proof -
  obtain op where op: "op \<in> set redir_ops" "prefix op w" "plain_target (after_blanks (drop (length op) w))"
    using assms by (auto simp: redirects_def list_ex_iff)
  let ?s = "drop (length op) w" and ?t = "after_blanks (drop (length op) w)"
  let ?n = "length (takeWhile (\<lambda>c. c = CHR '' '') ?s)"
  have "?s = replicate ?n CHR '' '' @ ?t"
    unfolding after_blanks_def using takeWhile_dropWhile_id [of "\<lambda>c. c = CHR '' ''" ?s] taken_blanks by metis
  moreover have "w = op @ ?s"
    using op(2) by (auto simp: prefix_def)
  ultimately obtain n t where w: "w = op @ replicate n CHR '' '' @ t" and t: "plain_target t"
    using op(3) by metis
  have "redirect_target w = t"
    using redir_op_chars [OF op(1)] target_chars [OF t] by (simp add: w redirect_target_def dropWhile_append dropWhile_eq_self_iff redir_char_def)
  with that w op(1) t show ?thesis by blast
qed

lemma taken_off_gt: "taken_off w \<Longrightarrow> CHR ''>'' \<in> set w"
  by (auto simp: taken_off_def discards_defs redir_ops_def elim!: redirectsE)

lemma arg_not_taken: "arg_word w \<Longrightarrow> \<not> taken_off w"
  using taken_off_gt arg_chars(3) by blast

lemma args_of_simps [simp]:
  "args_of [] = []"
  "args_of (w # ws) = (if taken_off w then args_of ws else w # args_of ws)"
  by (simp_all add: args_of_def)

lemma targets_of_simps [simp]:
  "targets_of [] = []"
  "targets_of (w # ws) = (if redirects w then redirect_target w # targets_of ws else targets_of ws)"
  by (simp_all add: targets_of_def)

lemma args_of_args: "list_all arg_word ws \<Longrightarrow> args_of ws = ws \<and> targets_of ws = []"
  by (induction ws) (use arg_not_taken in \<open>auto simp: taken_off_def\<close>)

lemma args_of_items: "list_all item_word ws \<Longrightarrow> list_all arg_word (args_of ws)"
  by (induction ws) (auto simp: item_word_def)

lemma items_args: "list_all arg_word ws \<Longrightarrow> list_all item_word ws"
  by (auto simp: list_all_iff item_word_def)

lemma words_text_Cons: "ws \<noteq> [] \<Longrightarrow> words_text (w # ws) = w @ '' '' @ words_text ws"
  by (cases ws) auto

section \<open>Blanks around a text\<close>

lemma strip_keep:
  assumes "s \<noteq> []" "\<not> P (hd s)" "\<not> P (last s)"
  shows "strip P s = s"
proof -
  have "lstrip P s = s"
    using assms by (cases s) (simp_all add: lstrip_def)
  moreover have "s = butlast s @ [last s]"
    using assms by simp
  ultimately show ?thesis
    unfolding strip_def using assms(3) by (metis rstrip_append_keep)
qed

lemma unquote_plain: "list_all plain_char w \<Longrightarrow> unquote w = w"
proof (cases "w = []")
  case False
  assume "list_all plain_char w"
  then have "\<not> is_quote c" if "c \<in> set w" for c
    using that by (auto simp: list_all_iff plain_char_def special_chars_def is_quote_def code_def)
  then show ?thesis
    using False by (intro strip_keep) auto
qed (simp add: strip_def lstrip_def rstrip_def)

lemma hd_words_text: "plain_word w \<Longrightarrow> hd (words_text (w # ws)) = hd w"
  by (cases ws) (auto simp: plain_word_def)

lemma words_text_nonempty: "plain_word w \<Longrightarrow> words_text (w # ws) \<noteq> []"
  by (cases ws) (auto simp: plain_word_def)

lemma last_arg: "arg_word w \<Longrightarrow> \<not> is_space (last w) \<and> last w \<noteq> CHR '')''"
proof (elim arg_wordE)
  assume "plain_word w"
  then have "plain_char (last w)"
    by (auto simp: plain_word_def list_all_iff)
  then show ?thesis
    by (auto simp: plain_char_def special_chars_def)
qed (auto simp: is_space_def code_def)

lemma last_item:
  assumes "item_word w"
  shows "w \<noteq> [] \<and> \<not> is_space (last w) \<and> last w \<noteq> CHR '')''"
proof (cases "redirects w")
  case True
  then obtain op n t where w: "w = (op @ replicate n CHR '' '') @ t" and t: "plain_target t"
    by (elim redirectsE) simp
  then have "t \<noteq> []" "\<not> is_space (last t) \<and> last t \<noteq> CHR '')''"
    using last_arg [OF plain_arg, of t] by (simp_all add: plain_target_def plain_word_def)
  then show ?thesis
    unfolding w by (simp del: append_assoc)
next
  case False
  then show ?thesis
    using assms last_arg [of w] arg_chars(1) [of w]
    by (auto simp: item_word_def taken_off_def discards_defs is_space_def code_def)
qed

lemma args_text_nonempty: "item_word w \<Longrightarrow> words_text (w # ws) \<noteq> []"
  using last_item [of w] by (cases ws) auto

lemma last_words_text:
  "list_all item_word (w # ws) \<Longrightarrow>
     \<not> is_space (last (words_text (w # ws))) \<and> last (words_text (w # ws)) \<noteq> CHR '')''"
proof (induction ws arbitrary: w)
  case Nil
  then show ?case using last_item by simp
next
  case (Cons v ws)
  then show ?case using args_text_nonempty [of v ws] by simp
qed

lemma trim_words_text:
  "plain_word w \<Longrightarrow> list_all item_word ws \<Longrightarrow> trim (words_text (w # ws)) = words_text (w # ws)"
  using last_words_text [of w ws] hd_words_text [of w ws] words_text_nonempty [of w ws] plain_hd [of w]
  by (intro strip_keep) (auto simp: plain_char_def plain_item)

section \<open>Tokens\<close>

lemma first_quoted:
  "list_all (\<lambda>c. c \<noteq> q) body \<Longrightarrow>
     takes_first (quoted q) (b, q # body @ q # rest, g) (q # rev body @ q # b, rest, g)"
  unfolding quoted_def seqs.simps
  by (rule first_seq [OF first_chr first_seq [OF first_star_cls first_chr]]) simp_all

lemma mt_quoted_none: "\<not> head_is (\<lambda>c. c = q) a \<Longrightarrow> mt (quoted q) (b, a, g) = []"
  by (cases a) (auto simp: quoted_def chr_def)

lemma plain_bare: "plain_char c \<Longrightarrow> is_bare_char c"
  by (auto simp: plain_char_def is_bare_char_def special_chars_def is_quote_def code_def)

text \<open>The tokens of words separated by blanks are the words.\<close>

lemma first_token_plain:
  assumes "plain_word w" "\<not> head_is is_bare_char rest"
  shows "takes_first re_token (b, w @ rest, []) (rev w @ b, rest, [])"
proof -
  have "\<not> head_is (\<lambda>c. c = q) (w @ rest)" if "q \<in> {CHR ''\"'', CHR 0x27}" for q
    using plain_hd [OF assms(1)] assms(1) that
    by (cases w) (auto simp: plain_word_def plain_char_def special_chars_def)
  moreover have "list_all is_bare_char w" "w \<noteq> []"
    using assms(1) plain_bare by (auto simp: plain_word_def list_all_iff)
  ultimately show ?thesis
    unfolding re_token_def alts.simps
    by (intro first_alt_right mt_quoted_none first_plus_cls assms(2)) simp_all
qed

lemma first_token_quoted:
  assumes "quoted_word w"
  shows "takes_first re_token (b, w @ rest, []) (rev w @ b, rest, [])"
proof -
  obtain q body where w: "w = q # body @ [q]" and q: "q = squote \<or> q = dquote" and free: "list_all (\<lambda>c. c \<noteq> q) body"
    using assms by (elim quoted_wordE) (auto simp: list_all_iff single_char_def double_char_def double_body_def)
  have first: "takes_first (quoted q) (b, w @ rest, []) (rev w @ b, rest, [])"
    using first_quoted [OF free, of b rest "[]"] by (simp add: w)
  show ?thesis
  proof (cases "q = dquote")
    case True
    then show ?thesis
      unfolding re_token_def alts.simps using first by (intro first_alt) simp
  next
    case False
    then have "mt (quoted dquote) (b, w @ rest, []) = []"
      by (intro mt_quoted_none) (simp add: w)
    then show ?thesis
      unfolding re_token_def alts.simps using first q False by (intro first_alt_right first_alt) simp_all
  qed
qed

lemma first_token:
  "arg_word w \<Longrightarrow> \<not> head_is is_bare_char rest \<Longrightarrow> takes_first re_token (b, w @ rest, []) (rev w @ b, rest, [])"
  using first_token_plain first_token_quoted by (auto simp: arg_word_def)

lemma mt_token_blank: "mt re_token (b, CHR '' '' # a, []) = []"
proof -
  have "mt (plus (Cls is_bare_char)) (b, CHR '' '' # a, []) = []"
    by (simp add: plus_def is_bare_char_def is_space_def code_def)
  then show ?thesis
    by (simp add: re_token_def mt_quoted_none)
qed

lemma scan_token_plain:
  assumes "arg_word w" "\<not> head_is is_bare_char rest"
  shows "concat (map hit_of (re_scan re_token b (w @ rest))) =
    w # concat (map hit_of (re_scan re_token (rev w @ b) rest))"
  using re_scan_first [OF first_token [OF assms] arg_chars(1) [OF assms(1)]] by (simp add: taken_def)

definition is_blank :: "string \<Rightarrow> bool" where
  "is_blank w \<longleftrightarrow> w \<in> {[], '' ''}"

definition arg_or_blank :: "string \<Rightarrow> bool" where
  "arg_or_blank w \<longleftrightarrow> arg_word w \<or> is_blank w"

lemma arg_not_blank: "arg_word w \<Longrightarrow> \<not> is_blank w"
proof
  assume "arg_word w" "is_blank w"
  then show False
    using last_arg [of w] arg_chars(1) [of w] by (auto simp: is_blank_def is_space_def code_def)
qed

lemma scan_token_word:
  assumes "arg_or_blank w" "\<not> head_is is_bare_char rest"
  shows "concat (map hit_of (re_scan re_token b (w @ rest))) =
    (if is_blank w then [] else [w]) @ concat (map hit_of (re_scan re_token (rev w @ b) rest))"
proof (cases "is_blank w")
  case True
  have "re_scan re_token b (CHR '' '' # rest) = Gap CHR '' '' # re_scan re_token (CHR '' '' # b) rest"
    by (subst re_scan.simps) (simp add: mt_token_blank)
  then show ?thesis
    using True by (auto simp: is_blank_def)
next
  case False
  then show ?thesis
    using assms scan_token_plain [of w rest b] by (simp add: arg_or_blank_def)
qed

lemma scan_tokens_plain:
  "list_all arg_or_blank ws \<Longrightarrow>
     concat (map hit_of (re_scan re_token b (words_text ws))) = filter (\<lambda>w. \<not> is_blank w) ws"
proof (induction ws arbitrary: b)
  case Nil
  have "mt re_token (b, [], []) = []"
    by (simp add: re_token_def mt_quoted_none plus_def)
  then show ?case
    by (subst re_scan.simps) simp
next
  case (Cons w ws)
  show ?case
  proof (cases ws)
    case Nil
    have "re_scan re_token b' [] = []" for b'
      by (subst re_scan.simps) (simp add: re_token_def mt_quoted_none plus_def)
    then show ?thesis
      using Nil Cons.prems scan_token_word [of w "[]" b] by simp
  next
    case (Cons v vs)
    let ?rest = "words_text ws"
    have "words_text (w # ws) = w @ CHR '' '' # ?rest"
      using Cons by simp
    moreover have "re_scan re_token (rev w @ b) (CHR '' '' # ?rest)
        = Gap CHR '' '' # re_scan re_token (CHR '' '' # rev w @ b) ?rest"
      by (subst re_scan.simps) (simp add: mt_token_blank)
    ultimately show ?thesis
      using Cons.IH Cons.prems scan_token_word [of w "CHR '' '' # ?rest" b]
      by (simp add: is_bare_char_def is_space_def code_def)
  qed
qed

lemma tokens_plain: "list_all arg_or_blank ws \<Longrightarrow> re_findall re_token (words_text ws) = filter (\<lambda>w. \<not> is_blank w) ws"
  unfolding re_findall_def by (rule scan_tokens_plain)

section \<open>Nothing is taken off a plain command\<close>

definition shell_keywords :: "string list" where
  "shell_keywords = [''if'', ''then'', ''elif'', ''else'', ''while'', ''until'', ''do'']"

definition starts_keyword :: "string \<Rightarrow> bool" where
  "starts_keyword w \<longleftrightarrow>
     list_ex (\<lambda>k. prefix k w \<and> \<not> head_is is_word (drop (length k) w)) shell_keywords"

definition plain_command :: "string \<Rightarrow> bool" where
  "plain_command w \<longleftrightarrow> plain_word w \<and> CHR ''='' \<notin> set w \<and> \<not> starts_keyword w \<and>
     w \<notin> {''for'', ''export'', ''fi'', ''done'', ''esac'', ''true'', ''false''} \<and>
     command_name w \<notin> {''env'', ''timeout''}"

lemma prefix_words_text:
  assumes "prefix k (words_text (w # ws))" "CHR '' '' \<notin> set k"
  shows "prefix k w"
proof (cases ws)
  case Nil
  then show ?thesis using assms by simp
next
  case (Cons v vs)
  then have "prefix k (w @ '' '' @ words_text ws)"
    using assms(1) by simp
  then show ?thesis
    using assms(2) by (auto simp: prefix_append prefix_Cons)
qed

lemma strip_parens_plain:
  assumes "plain_word w" "list_all item_word ws"
  shows "strip_parens (words_text (w # ws)) = words_text (w # ws)"
proof -
  let ?s = "words_text (w # ws)"
  have "?s \<noteq> []" "hd ?s \<noteq> CHR ''(''" "last ?s \<noteq> CHR '')''"
    using words_text_nonempty [OF assms(1)] hd_words_text [OF assms(1)] plain_hd [OF assms(1)]
      last_words_text [of w ws] assms
    by (auto simp: plain_char_def special_chars_def plain_item simp del: join.simps)
  then have "\<not> head_is open_paren ?s" "\<not> head_is shut_paren (rev ?s)"
    by (simp_all add: head_is_hd hd_rev open_paren_def shut_paren_def del: join.simps)
  then show ?thesis
    by (subst strip_parens.simps) simp
qed

lemma re_for_needs:
  assumes "re_match re_for s \<noteq> None"
  shows "\<exists>c s'. s = ''for'' @ c # s' \<and> is_space c"
proof -
  have "\<exists>u a'. s = ''for'' @ u @ a' \<and> u \<noteq> [] \<and> list_all is_space u"
    using assms unfolding re_match_can re_for_def seqs.simps space_def
    by (auto simp: can_seq [OF reads_lit] can_seq [OF reads_plus_cls])
  then show ?thesis
    by (auto simp: neq_Nil_conv)
qed

text \<open>A word of the text that a blank ends is its first word.\<close>

lemma first_word:
  assumes "plain_word w" "words_text (w # ws) = k @ c # s'" "is_space c" "CHR '' '' \<notin> set k"
  shows "w = k"
proof -
  have "prefix k w"
    using assms(2,4) by (intro prefix_words_text [of k w ws]) simp_all
  then obtain u where w: "w = k @ u"
    by (auto simp: prefix_def)
  have "u = []"
  proof (rule ccontr)
    assume "u \<noteq> []"
    then have "hd u = c"
      using assms(2) by (cases ws; cases u) (simp_all add: w)
    then show False
      using assms(1,3) \<open>u \<noteq> []\<close> by (auto simp: plain_word_def w list_all_iff plain_char_def)
  qed
  then show ?thesis
    by (simp add: w)
qed

lemma re_for_plain:
  assumes "plain_command w"
  shows "re_match re_for (words_text (w # ws)) = None"
proof (rule ccontr)
  assume "re_match re_for (words_text (w # ws)) \<noteq> None"
  then obtain c s' where "words_text (w # ws) = ''for'' @ c # s'" "is_space c"
    using re_for_needs by blast
  then have "w = ''for''"
    using assms by (intro first_word [of w ws "''for''" c s']) (simp_all add: plain_command_def)
  then show False
    using assms by (simp add: plain_command_def)
qed

lemma re_keyword_needs:
  assumes "re_match re_keyword s \<noteq> None"
  shows "head_is (\<lambda>c. c = CHR ''!'') s \<or>
    (\<exists>k \<in> set shell_keywords. prefix k s \<and> \<not> head_is is_word (drop (length k) s))"
proof -
  have word_end: "head_is is_word (rev k)" if "k \<in> set shell_keywords" for k
    using that by (auto simp: shell_keywords_def is_word_def is_alnum_def is_alnum_az_def
        is_alpha_az_def is_lower_az_def code_def)
  obtain st where "matches re_keyword_word ([], s, []) st"
    using assms unfolding re_match_can re_keyword_def can_def by auto
  then have "matches (Seq (lits shell_keywords) WordB) ([], s, []) st \<or> matches (chr CHR ''!'') ([], s, []) st"
    unfolding re_keyword_word_def shell_keywords_def by simp
  then consider k a where "k \<in> set shell_keywords" "s = k @ a" "at_word_boundary (rev k) a"
    | a where "s = CHR ''!'' # a"
    by (force simp: matches_lits_iff matches_chr_iff)
  then show ?thesis
  proof cases
    case 1
    then show ?thesis
      using word_end [OF 1(1)] by (auto simp: at_word_boundary_def intro!: bexI [of _ k])
  qed simp
qed

lemma re_keyword_plain:
  assumes "plain_command w"
  shows "re_match re_keyword (words_text (w # ws)) = None"
proof (rule ccontr)
  let ?s = "words_text (w # ws)"
  have w: "plain_word w" "w \<noteq> []" "\<not> starts_keyword w"
    using assms by (auto simp: plain_command_def plain_word_def)
  assume "re_match re_keyword ?s \<noteq> None"
  then consider "head_is (\<lambda>c. c = CHR ''!'') ?s"
    | k where "k \<in> set shell_keywords" "prefix k ?s" "\<not> head_is is_word (drop (length k) ?s)"
    using re_keyword_needs by blast
  then show False
  proof cases
    case 1
    then have "hd w = CHR ''!''"
      using w(2) hd_words_text [OF w(1), of ws] by (cases ?s) auto
    then show False
      using plain_hd [OF w(1)] by (simp add: plain_char_def special_chars_def)
  next
    case 2
    have "prefix k w"
      using 2 by (intro prefix_words_text [of k w ws]) (auto simp: shell_keywords_def)
    then have "head_is is_word (drop (length k) w)"
      using w(3) 2(1) by (auto simp: starts_keyword_def list_ex_iff)
    then have "head_is is_word (drop (length k) ?s)"
      using \<open>prefix k w\<close> by (cases ws; cases "drop (length k) w") (auto simp: prefix_def)
    then show False
      using 2 by simp
  qed
qed

lemma strip_keywords_plain:
  "plain_command w \<Longrightarrow> strip_keywords (words_text (w # ws)) = Some (words_text (w # ws))"
  by (subst strip_keywords.simps) (simp add: re_for_plain re_keyword_plain)

lemma seg_done_plain:
  assumes "plain_command w"
  shows "\<not> seg_done (words_text (w # ws))"
proof (cases ws)
  case Nil
  then show ?thesis
    using assms by (auto simp: seg_done_def plain_command_def plain_word_def)
next
  case (Cons v vs)
  then have "CHR '' '' \<in> set (words_text (w # ws))"
    by simp
  then show ?thesis
    unfolding seg_done_def by fastforce
qed

text \<open>An assignment needs a name and \<open>=\<close> at the start.\<close>

lemma reads_name: "reads re_name (\<lambda>w. \<exists>c v. w = c # v \<and> is_name_start c \<and> list_all is_name_char v)"
proof -
  have "(\<exists>u v. w = u @ v \<and> (\<exists>c. u = [c] \<and> is_name_start c) \<and> list_all is_name_char v) \<longleftrightarrow>
      (\<exists>c v. w = c # v \<and> is_name_start c \<and> list_all is_name_char v)" for w
    by (metis append_Cons append_Nil)
  then show ?thesis
    using reads_seq [OF reads_cls reads_star_cls, of is_name_start is_name_char]
    by (simp add: re_name_def)
qed

lemma name_no_blank:
  "is_name_start c \<Longrightarrow> list_all is_name_char v \<Longrightarrow> CHR '' '' \<notin> set (c # v @ ''='')"
  by (auto simp: list_all_iff is_name_start_def is_name_char_def is_alnum_az_def is_alpha_az_def
      is_lower_az_def is_upper_az_def is_digit09_def code_def)

lemma assign_start:
  assumes "can (Seq (Grp n re_name) (Seq (chr CHR ''='') r)) ([], s, g)"
  shows "\<exists>k. prefix (k @ ''='') s \<and> CHR '' '' \<notin> set (k @ ''='')"
proof -
  obtain st1 st2 where m: "matches (Grp n re_name) ([], s, g) st1" "matches (chr CHR ''='') st1 st2"
    using assms by (auto simp: can_def)
  from m(1) obtain b a g' where "matches re_name ([], s, g) (b, a, g')"
      "fst (snd st1) = a"
    by (auto simp: matches_grp_iff)
  then obtain c v where "s = (c # v) @ a" "is_name_start c" "list_all is_name_char v"
    by (auto simp: reads_iff [OF reads_name])
  moreover obtain a' where "a = CHR ''='' # a'"
    using m(2) \<open>fst (snd st1) = a\<close> by (auto simp: matches_chr_iff)
  ultimately show ?thesis
    using name_no_blank [of c v] by (intro exI [of _ "c # v"]) (auto simp: prefix_def)
qed

lemma no_assignment:
  assumes "plain_command w" "can (Seq (Grp n re_name) (Seq (chr CHR ''='') r)) ([], words_text (w # ws), g)"
  shows False
proof -
  obtain k where k: "prefix (k @ ''='') (words_text (w # ws))" "CHR '' '' \<notin> set (k @ ''='')"
    using assign_start [OF assms(2)] by blast
  then have "CHR ''='' \<in> set w"
    using prefix_words_text [OF k] by (auto simp: prefix_def)
  then show False
    using assms(1) by (simp add: plain_command_def)
qed

lemma re_assign_plain:
  assumes "plain_command w"
  shows "re_match re_assign (words_text (w # ws)) = None"
proof (rule ccontr)
  assume "re_match re_assign (words_text (w # ws)) \<noteq> None"
  then obtain st where "matches re_assign_head ([], words_text (w # ws), []) st"
    unfolding re_match_can re_assign_def can_def by auto
  then have "can (Seq Bos (Seq (Grp 1 re_name) (Seq (chr CHR ''='') (seqs [alts [quoted_group 2 CHR ''\"'',
      quoted_group 3 CHR 0x27, Grp 4 (star (Cls is_target_char))], star space]))))
      ([], words_text (w # ws), [])"
    unfolding re_assign_head_def seqs.simps can_def by blast
  then show False
    using no_assignment [OF assms] by simp
qed

lemma strip_assignments_plain:
  "plain_command w \<Longrightarrow> strip_assignments vs (words_text (w # ws)) = (words_text (w # ws), vs)"
  by (subst strip_assignments.simps) (simp add: re_assign_plain)

lemma re_export_needs:
  assumes "matches re_export (b, s, []) st"
  shows "b = [] \<and> (\<exists>c s'. s = ''export'' @ c # s' \<and> is_space c)"
proof -
  have "can re_export (b, s, [])"
    using assms by (auto simp: can_def)
  then have "b = [] \<and> (\<exists>u a'. s = ''export'' @ u @ a' \<and> u \<noteq> [] \<and> list_all is_space u)"
    unfolding re_export_def seqs.simps space_def
    by (auto simp: can_seq [OF reads_lit] can_seq [OF reads_plus_cls])
  then show ?thesis
    by (auto simp: neq_Nil_conv)
qed

lemma strip_export_plain:
  assumes "plain_command w"
  shows "strip_export (words_text (w # ws)) = words_text (w # ws)"
proof -
  let ?s = "words_text (w # ws)"
  have "mt re_export (rev p @ [], q, []) = []" if s: "?s = p @ q" for p q
  proof -
    have False if m: "matches re_export (rev p, q, []) st" for st
    proof -
      obtain c s' where "?s = ''export'' @ c # s'" "is_space c"
        using re_export_needs [OF m] s by auto
      then have "w = ''export''"
        using assms by (intro first_word [of w ws "''export''" c s']) (simp_all add: plain_command_def)
      then show False
        using assms by (simp add: plain_command_def)
    qed
    then show ?thesis
      by (auto simp: mt_Nil_iff)
  qed
  then have "re_scan re_export [] ?s = map Gap ?s"
    by (rule re_scan_no_match)
  then show ?thesis
    unfolding strip_export_def re_sub_def by (simp only: concat_map_sub_gaps)
qed

section \<open>Assignments of one word\<close>

definition assign_name :: "string \<Rightarrow> bool" where
  "assign_name v \<longleftrightarrow> v \<noteq> [] \<and> is_name_start (hd v) \<and> list_all is_name_char (tl v)"

lemma first_name:
  assumes "assign_name v" "\<not> head_is is_name_char rest"
  shows "takes_first re_name (b, v @ rest, g) (rev v @ b, rest, g)"
proof -
  obtain c u where v: "v = c # u" "is_name_start c" "list_all is_name_char u"
    using assms(1) by (cases v) (auto simp: assign_name_def)
  then have "takes_first re_name (b, c # u @ rest, g) (rev u @ c # b, rest, g)"
    unfolding re_name_def by (intro first_seq [OF first_cls first_star_cls] assms(2))
  then show ?thesis by (simp add: v(1))
qed

text \<open>The value, bare or in double quotes, is the whole of the rest.\<close>

lemma first_value:
  assumes "list_all is_target_char x" "\<not> head_is is_quote x"
  shows "takes_first (alts [quoted_group 2 CHR ''\"'', quoted_group 3 CHR 0x27, Grp 4 (star (Cls is_target_char))])
    (b, x, g) (rev x @ b, [], (4, x) # g)"
proof -
  have "mt (quoted_group n q) (b, x, g) = []" if "is_quote q" for n q
    using assms(2) that by (cases x) (auto simp: quoted_group_def chr_def)
  moreover have "takes_first (Grp 4 (star (Cls is_target_char))) (b, x, g) (rev x @ b, [], (4, x) # g)"
    using first_grp [OF first_star_cls [OF assms(1), of "[]"], of 4 b g] by (simp add: taken_def)
  ultimately show ?thesis
    unfolding alts.simps by (intro first_alt_right) (simp_all add: is_quote_def code_def)
qed

lemma first_quoted_value:
  assumes "CHR ''\"'' \<notin> set x"
  shows "takes_first (alts [quoted_group 2 CHR ''\"'', quoted_group 3 CHR 0x27, Grp 4 (star (Cls is_target_char))])
    (b, CHR ''\"'' # x @ [CHR ''\"''], g) (CHR ''\"'' # rev x @ CHR ''\"'' # b, [], (2, x) # g)"
proof -
  let ?q = "CHR ''\"''"
  have "list_all (\<lambda>c. c \<noteq> ?q) x"
    using assms by (auto simp: list_all_iff)
  then have "takes_first (Grp 2 (star (Cls (\<lambda>c. c \<noteq> ?q)))) (?q # b, x @ [?q], g) (rev x @ ?q # b, [?q], (2, x) # g)"
    using first_grp [OF first_star_cls [of _ x "[?q]"], of "\<lambda>c. c \<noteq> ?q" 2 "?q # b" g] by (simp add: taken_def)
  then show ?thesis
    unfolding alts.simps quoted_group_def seqs.simps
    by (rule first_alt [OF first_seq [OF first_chr first_seq [OF _ first_chr]]])
qed

lemma strip_assignment:
  assumes "assign_name v"
    and "takes_first (alts [quoted_group 2 CHR ''\"'', quoted_group 3 CHR 0x27, Grp 4 (star (Cls is_target_char))])
      (CHR ''='' # rev v, s, [(1, v)]) (b, [], [(n, x), (1, v)])"
    and "n \<in> {2, 4}"
  shows "strip_assignments vs (v @ CHR ''='' # s) = ([], record_var v x vs)"
proof -
  let ?eq = "CHR ''=''"
  have "\<not> head_is is_name_char (?eq # s)"
    by (simp add: is_name_char_def is_alnum_az_def is_alpha_az_def is_lower_az_def is_upper_az_def is_digit09_def code_def)
  then have name: "takes_first (Grp 1 re_name) ([], v @ ?eq # s, []) (rev v, ?eq # s, [(1, v)])"
    using first_grp [OF first_name [OF assms(1)], of "?eq # s" 1 "[]" "[]"] by (simp add: taken_def)
  have none: "takes_first (star (Cls p)) (b, [], g) (b, [], g)" for p b g
    using first_star_cls [of p "[]" "[]" b g] by simp
  let ?last = "(b, [], [(5, []), (n, x), (1, v)])"
  have "takes_first (Grp 5 (star any_char)) (b, [], [(n, x), (1, v)]) ?last"
    using first_grp [OF none, of 5] by (simp add: any_char_def taken_def)
  then have "takes_first re_assign ([], v @ ?eq # s, []) ?last"
    unfolding re_assign_def re_assign_head_def seqs.simps space_def
    by (rule first_seq [OF first_seq [OF first_bos first_seq [OF name first_seq [OF first_chr first_seq [OF assms(2) none]]]]])
  then have m: "re_match re_assign (v @ ?eq # s) = Some ?last"
    by (rule re_match_first)
  have "re_match re_assign [] = None" "trim [] = []"
    by code_simp+
  moreover have "group_text 1 ?last = v" "group_text 5 ?last = []" "assigned_value ?last = x"
    using assms(3) by (auto simp: group_text_def group_def assigned_value_def)
  ultimately show ?thesis
    using m strip_assignments.simps [of vs "v @ ?eq # s"] strip_assignments.simps [of "record_var v x vs" "[]"] by simp
qed

lemma strip_assignment_bare:
  "assign_name v \<Longrightarrow> list_all is_target_char x \<Longrightarrow> \<not> head_is is_quote x \<Longrightarrow>
     strip_assignments vs (v @ CHR ''='' # x) = ([], record_var v x vs)"
  using strip_assignment [OF _ first_value] by blast

lemma strip_assignment_quoted:
  "assign_name v \<Longrightarrow> CHR ''\"'' \<notin> set x \<Longrightarrow>
     strip_assignments vs (v @ CHR ''='' # CHR ''\"'' # x @ [CHR ''\"'']) = ([], record_var v x vs)"
  using strip_assignment [OF _ first_quoted_value] by blast

end
