(* ===== verification/Guard_Plain.thy ===== *)
theory Guard_Plain
  imports Guard_Words
begin

text \<open>
  What the guard of \<open>autonomous-exec-hook.py\<close> decides on plain commands. The redirection patterns are
  followed over the words of a command: redirections that discard or join outputs become blanks, those
  to a file are taken off when their target is a safe special path. So the whole preparation of a
  segment is worked out once, and the verdict on the text is the verdict of the command family on its
  words and of the path test on its targets.
\<close>

section \<open>Scanning for redirections\<close>

text \<open>Every redirection pattern needs a \<open>>\<close>.\<close>

lemma needs_redirections: "needs re_redir [''>'']" "needs re_left_gt [''>'']"
proof -
  have gt: "needs gt_gt [''>'']"
    unfolding gt_gt_def by (rule needs_seq_left) (rule needs_chr, simp)
  show "needs re_redir [''>'']"
    unfolding re_redir_def by (rule needs_seqs [OF _ gt]) simp
  show "needs re_left_gt [''>'']"
    unfolding re_left_gt_def by (rule needs_seq_right [OF gt])
qed

lemma re_search_needs:
  assumes "needs r ws" "\<And>w. w \<in> set ws \<Longrightarrow> \<not> sublist w s"
  shows "\<not> re_search r s"
proof
  assume "re_search r s"
  then obtain p q where pq: "s = p @ q" "can r (rev p, q, [])"
    by (auto simp: re_search_can)
  then obtain st' where "matches r (rev p, q, []) st'"
    by (auto simp: can_def)
  then obtain w where "w \<in> set ws" "sublist w q"
    using needsD [OF assms(1)] by blast
  then show False
    using assms(2) [of w] sublist_append by (auto simp: pq)
qed

lemma redir_loop_gaps: "redir_loop vs (map Gap s) = Some (s, False)"
  by (induction s) auto

text \<open>A text without \<open>>\<close> keeps none when its quoted parts are emptied.\<close>

lemma piece_chars: "set (concat (map piece_text (re_scan r b a))) = set a"
  by (simp only: re_scan_text)

lemma remove_quoted_no:
  assumes "CHR ''>'' \<notin> set s"
  shows "CHR ''>'' \<notin> set (remove_quoted s)"
proof -
  have "set (sub_piece (\<lambda>st st'. [CHR ''\"'', CHR ''\"'']) p) \<subseteq> set (piece_text p) \<union> {CHR ''\"''}" for p
    by (cases p) auto
  then have "set (remove_quoted s) \<subseteq> set (concat (map piece_text (re_scan re_quoted [] s))) \<union> {CHR ''\"''}"
    unfolding remove_quoted_def re_sub_def by (fastforce simp: image_iff)
  then show ?thesis
    using assms unfolding piece_chars by auto
qed

text \<open>
  A pattern that begins with characters of a class and then a key finds nothing in a stretch without
  the key that ends at a blank. Where it matches whole words, substituting is a map over the words.
\<close>

definition begins :: "re \<Rightarrow> (char \<Rightarrow> bool) \<Rightarrow> string \<Rightarrow> bool" where
  "begins r P k \<longleftrightarrow> \<not> P CHR '' '' \<and> CHR '' '' \<notin> set k \<and> k \<noteq> [] \<and>
     (\<forall>b a g st. matches r (b, a, g) st \<longrightarrow> (\<exists>v a'. a = v @ k @ a' \<and> list_all P v))"

definition takes :: "re \<Rightarrow> string \<Rightarrow> bool" where
  "takes r d \<longleftrightarrow> d \<noteq> [] \<and> (\<forall>b rest. (rest = [] \<or> hd rest = CHR '' '') \<longrightarrow>
     (\<exists>g. takes_first r (b, d @ rest, []) (rev d @ b, rest, g)))"

lemma begins_first:
  assumes "begins r P k" "matches r (b, q @ rest, g) st" "q \<noteq> []"
    "rest = [] \<or> hd rest = CHR '' '' \<or> last q = CHR '' ''"
  shows "sublist k q"
proof -
  obtain v a' where a: "q @ rest = v @ k @ a'" and v: "list_all P v"
    using assms(1,2) unfolding begins_def by blast
  have free: "CHR '' '' \<notin> set (v @ k)"
    using assms(1) v by (auto simp: begins_def list_all_iff)
  obtain us where us: "q = (v @ k) @ us \<or> q @ us = v @ k \<and> rest = us @ a'"
    using a append_eq_append_conv2 [of q rest "v @ k" a'] by auto
  have "\<exists>u. q = (v @ k) @ u \<or> (v @ k = q @ u \<and> u \<noteq> [] \<and> rest = u @ a')"
  proof (cases "us = []")
    case True
    then show ?thesis
      using us by (intro exI [of _ "[]"]) auto
  qed (use us in \<open>intro exI [of _ us]; auto\<close>)
  then obtain u where "q = (v @ k) @ u \<or> (v @ k = q @ u \<and> u \<noteq> [] \<and> rest = u @ a')" ..
  then show ?thesis
  proof
    assume "q = (v @ k) @ u"
    then show ?thesis by (auto simp: sublist_def)
  next
    assume u: "v @ k = q @ u \<and> u \<noteq> [] \<and> rest = u @ a'"
    then have "hd u \<in> set (v @ k)" "last q \<in> set (v @ k)"
      using assms(3) u by simp_all
    moreover have "rest \<noteq> []" "hd rest = hd u"
      using u by simp_all
    ultimately have "CHR '' '' \<in> set (v @ k)"
      using assms(4) by metis
    then show ?thesis using free by blast
  qed
qed

text \<open>A stretch that is passed over: no match begins in it, whatever follows after a blank.\<close>

definition passes :: "re \<Rightarrow> string \<Rightarrow> bool" where
  "passes r w \<longleftrightarrow> (\<forall>b rest p q. w = p @ q \<longrightarrow> q \<noteq> [] \<longrightarrow>
     (rest = [] \<or> hd rest = CHR '' '' \<or> last w = CHR '' '') \<longrightarrow> mt r (rev p @ b, q @ rest, []) = [])"

lemma begins_passes:
  assumes "begins r P k" "\<not> sublist k w"
  shows "passes r w"
  unfolding passes_def
proof (intro allI impI)
  fix b rest p q
  assume w: "w = p @ q" "q \<noteq> []" "rest = [] \<or> hd rest = CHR '' '' \<or> last w = CHR '' ''"
  then have "\<not> sublist k q" "rest = [] \<or> hd rest = CHR '' '' \<or> last q = CHR '' ''"
    using assms(2) sublist_append by auto
  then show "mt r (rev p @ b, q @ rest, []) = []"
    unfolding mt_Nil_iff using begins_first [OF assms(1), of "rev p @ b" q rest "[]"] w(2) by blast
qed

lemma scan_over:
  assumes "passes r u" "u = [] \<or> rest = [] \<or> hd rest = CHR '' '' \<or> last u = CHR '' ''"
  shows "re_scan r b (u @ rest) = map Gap u @ re_scan r (rev u @ b) rest"
proof -
  have "re_scan r (rev p @ b) (q @ rest) = map Gap q @ re_scan r (rev u @ b) rest" if "u = p @ q" for p q
    using that
  proof (induction q arbitrary: p)
    case (Cons c q)
    have "mt r (rev p @ b, (c # q) @ rest, []) = []"
      using assms Cons.prems unfolding passes_def by blast
    then have "re_scan r (rev p @ b) ((c # q) @ rest) = Gap c # re_scan r (rev (p @ [c]) @ b) (q @ rest)"
      by (subst re_scan.simps) simp
    then show ?case
      using Cons.IH [of "p @ [c]"] Cons.prems by simp
  qed simp
  from this [of "[]" u] show ?thesis by simp
qed

lemma begins_blank: "begins r P k \<Longrightarrow> passes r '' ''"
  by (rule begins_passes) (auto simp: begins_def sublist_Cons_right prefix_Cons)

lemma begins_empty:
  assumes "begins r P k"
  shows "re_scan r b [] = []"
proof -
  have "\<not> matches r (b, [], []) st" for st
    using assms by (auto simp: begins_def)
  then have "mt r (b, [], []) = []"
    by (simp add: mt_Nil_iff)
  then show ?thesis
    by (subst re_scan.simps) simp
qed

lemma scan_taken:
  assumes "takes r d" "rest = [] \<or> hd rest = CHR '' ''"
  shows "concat (map (sub_piece blank) (re_scan r b (d @ rest))) =
    '' '' @ concat (map (sub_piece blank) (re_scan r (rev d @ b) rest))"
proof -
  obtain g where "takes_first r (b, d @ rest, []) (rev d @ b, rest, g)"
    using assms unfolding takes_def by blast
  from re_scan_first [OF this] show ?thesis
    using assms(1) by (auto simp: takes_def blank_def)
qed

definition blanked :: "string list \<Rightarrow> string list \<Rightarrow> string list" where
  "blanked ds ws = map (\<lambda>w. if w \<in> set ds then '' '' else w) ws"

lemma words_scan:
  assumes r: "begins r P k" and word: "\<And>w b rest. w \<in> set ws \<Longrightarrow> rest = [] \<or> hd rest = CHR '' '' \<Longrightarrow>
      concat (map (sub_piece blank) (re_scan r b (w @ rest))) = f w @ concat (map (sub_piece blank) (re_scan r (rev w @ b) rest))"
  shows "concat (map (sub_piece blank) (re_scan r b (words_text ws))) = words_text (map f ws)"
  using word
proof (induction ws arbitrary: b)
  case Nil
  show ?case by (simp add: begins_empty [OF r])
next
  case (Cons w ws)
  show ?case
  proof (cases ws)
    case Nil
    then show ?thesis
      using Cons.prems [of w "[]" b] by (simp add: begins_empty [OF r])
  next
    case (Cons v vs)
    let ?rest = "words_text ws"
    have "re_scan r (rev w @ b) (CHR '' '' # ?rest) = Gap CHR '' '' # re_scan r (CHR '' '' # rev w @ b) ?rest"
      using scan_over [OF begins_blank [OF r], of ?rest "rev w @ b"] by simp
    moreover have "words_text (w # ws) = w @ CHR '' '' # ?rest"
      "words_text (map f (w # ws)) = f w @ CHR '' '' # words_text (map f ws)"
      by (simp_all add: Cons)
    moreover have "concat (map (sub_piece blank) (re_scan r (CHR '' '' # rev w @ b) ?rest)) = words_text (map f ws)"
      using Cons.IH Cons.prems by simp
    ultimately show ?thesis
      using Cons.prems [of w "CHR '' '' # ?rest" b] by (simp del: join.simps)
  qed
qed

lemma sub_words:
  assumes "begins r P k" "\<And>d. d \<in> set ds \<Longrightarrow> takes r d" "list_all (\<lambda>w. w \<in> set ds \<or> passes r w) ws"
  shows "re_sub r blank (words_text ws) = words_text (blanked ds ws)"
  unfolding re_sub_def blanked_def
proof (rule words_scan [OF assms(1)])
  fix w b rest
  assume w: "w \<in> set ws" "rest = [] \<or> hd rest = CHR '' ''"
  show "concat (map (sub_piece blank) (re_scan r b (w @ rest))) =
      (if w \<in> set ds then '' '' else w) @ concat (map (sub_piece blank) (re_scan r (rev w @ b) rest))"
  proof (cases "w \<in> set ds")
    case False
    then have "passes r w"
      using assms(3) w(1) by (auto simp: list_all_iff)
    then show ?thesis
      using scan_over [of r w rest b] False w(2) concat_map_sub_gaps [of blank w] by (auto simp del: map_map)
  qed (use scan_taken [OF assms(2) w(2)] in simp)
qed

text \<open>The two patterns of the guard and the words that they take.\<close>

lemma begins_dup: "begins re_dup_fd is_digit09 ''>&''"
proof -
  have "\<exists>v a'. a = v @ ''>&'' @ a' \<and> list_all is_digit09 v" if m: "matches re_dup_fd (b, a, g) st" for b a g st
  proof -
    have "can re_dup_fd (b, a, g)"
      using m by (auto simp: can_def)
    then show ?thesis
      unfolding re_dup_fd_def seqs.simps digit_def
      by (auto simp: can_seq [OF reads_star_cls] can_seq [OF reads_lit])
  qed
  then show ?thesis
    by (auto simp: begins_def is_digit09_def code_def)
qed

lemma begins_gt:
  assumes "reads d P" "\<And>w. P w \<Longrightarrow> list_all is_digit09 w"
  shows "begins (Seq (opt (Alt d (chr CHR ''&''))) (Seq gt_gt r)) (\<lambda>c. is_digit09 c \<or> c = CHR ''&'') ''>''"
proof -
  have first: "reads (opt (Alt d (chr CHR ''&''))) (\<lambda>w. (P w \<or> w = ''&'') \<or> w = [])"
    using assms(1) by (intro reads_intros)
  have "\<exists>v a'. a = v @ ''>'' @ a' \<and> list_all (\<lambda>c. is_digit09 c \<or> c = CHR ''&'') v"
    if "matches (Seq (opt (Alt d (chr CHR ''&''))) (Seq gt_gt r)) (b, a, g) st" for b a g st
  proof -
    have "can (Seq (opt (Alt d (chr CHR ''&''))) (Seq gt_gt r)) (b, a, g)"
      using that unfolding can_def by blast
    then obtain v a1 where v: "a = v @ a1" "(P v \<or> v = ''&'') \<or> v = []" "can (Seq gt_gt r) (rev v @ b, a1, g)"
      unfolding can_seq [OF first] by blast
    then obtain a' where "a1 = CHR ''>'' # a'"
      by (auto simp: can_def gt_gt_def matches_chr_iff)
    moreover have "list_all (\<lambda>c. is_digit09 c \<or> c = CHR ''&'') v"
      using v(2) assms(2) by (auto simp: list_all_iff)
    moreover note v(1)
    ultimately show ?thesis by auto
  qed
  then show ?thesis
    by (auto simp: begins_def is_digit09_def code_def)
qed

lemma begins_null: "begins re_dev_null (\<lambda>c. is_digit09 c \<or> c = CHR ''&'') ''>''"
  unfolding re_dev_null_def seqs.simps digit_def by (rule begins_gt [OF reads_star_cls])

lemma begins_redir: "begins re_redir (\<lambda>c. is_digit09 c \<or> c = CHR ''&'') ''>''"
  unfolding re_redir_def seqs.simps digit_def by (rule begins_gt [OF reads_plus_cls]) simp

lemma takes_dup: "d \<in> set dup_words \<Longrightarrow> takes re_dup_fd d"
  unfolding takes_def
proof (intro conjI allI impI)
  fix b rest :: string
  assume "d \<in> set dup_words" "rest = [] \<or> hd rest = CHR '' ''"
  then show "\<exists>g. takes_first re_dup_fd (b, d @ rest, []) (rev d @ b, rest, g)"
    unfolding takes_first_def by (cases rest) (auto simp: dup_words_def re_dup_fd_def digit_def lit_def chr_def plus_def star_def
        is_digit09_def code_def Let_def)
qed (auto simp: dup_words_def)

lemma takes_null: "d \<in> set null_words \<Longrightarrow> takes re_dev_null d"
  unfolding takes_def
proof (intro conjI allI impI)
  fix b rest :: string
  assume "d \<in> set null_words" "rest = [] \<or> hd rest = CHR '' ''"
  then show "\<exists>g. takes_first re_dev_null (b, d @ rest, []) (rev d @ b, rest, g)"
    unfolding takes_first_def by (cases rest) (auto simp: null_words_def re_dev_null_def gt_gt_def opt_def digit_def lit_def chr_def
        space_def is_space_def star_def is_digit09_def at_word_boundary_def is_word_def is_alnum_def
        is_alnum_az_def is_alpha_az_def is_lower_az_def is_upper_az_def is_alnum_high_def code_def Let_def)
qed (auto simp: null_words_def)

text \<open>A redirection to a file is passed over by both patterns.\<close>

lemma redirects_dup: "redirects w \<Longrightarrow> \<not> sublist ''>&'' w"
proof (elim redirectsE)
  fix op n t
  assume w: "w = op @ replicate n CHR '' '' @ t" "op \<in> set redir_ops" "plain_target t"
  have "CHR ''&'' \<notin> set (tl op)" "op \<noteq> []"
    using w(2) by (auto simp: redir_ops_def)
  moreover have "CHR ''&'' \<notin> set t"
    using w(3) by (auto simp: plain_target_def plain_word_def list_all_iff plain_char_def special_chars_def)
  ultimately have "CHR ''&'' \<notin> set (tl w)"
    by (simp add: w(1))
  moreover have "CHR ''&'' \<in> set (tl w)" if "sublist ''>&'' w"
    using that by (auto simp: sublist_def tl_append split: list.split)
  ultimately show ?thesis by blast
qed

lemma dev_null_shape:
  assumes "matches re_dev_null (b, a, g) st"
  shows "\<exists>v x. a = v @ ''/dev/null'' @ x \<and> (\<forall>c \<in> set v. redir_char c)"
proof -
  have digits: "reads (opt (Alt (star digit) (chr CHR ''&''))) (\<lambda>w. (list_all is_digit09 w \<or> w = ''&'') \<or> w = [])"
    and gts: "reads gt_gt (\<lambda>w. \<exists>u v. w = u @ v \<and> u = ''>'' \<and> (v = ''>'' \<or> v = []))"
    unfolding digit_def gt_gt_def by (intro reads_intros)+
  have "can re_dev_null (b, a, g)"
    using assms by (auto simp: can_def)
  then obtain d a1 where d: "a = d @ a1" "(list_all is_digit09 d \<or> d = ''&'') \<or> d = []"
      "can (Seq gt_gt (Seq (star space) (Seq (lit ''/dev/null'') WordB))) (rev d @ b, a1, g)"
    unfolding re_dev_null_def seqs.simps can_seq [OF digits] by blast
  then obtain e a2 where e: "a1 = e @ a2" "\<exists>u v. e = u @ v \<and> u = ''>'' \<and> (v = ''>'' \<or> v = [])"
      "can (Seq (star space) (Seq (lit ''/dev/null'') WordB)) (rev e @ rev d @ b, a2, g)"
    unfolding can_seq [OF gts] by blast
  then obtain s x where s: "a2 = s @ ''/dev/null'' @ x" "list_all is_space s"
    unfolding space_def can_seq [OF reads_star_cls] can_seq [OF reads_lit] by blast
  have "\<forall>c \<in> set (d @ e @ s). redir_char c"
    using d(2) e(2) s(2) by (auto simp: list_all_iff redir_char_def)
  then show ?thesis
    unfolding d(1) e(1) s(1) by (intro exI [of _ "d @ e @ s"] exI [of _ x]) simp
qed

lemma redirects_null:
  assumes "redirects w"
  shows "passes re_dev_null w"
  unfolding passes_def
proof (intro allI impI)
  fix b rest p q
  assume wq: "w = p @ q" "q \<noteq> []" "rest = [] \<or> hd rest = CHR '' '' \<or> last w = CHR '' ''"
  obtain op n t where w: "w = (op @ replicate n CHR '' '') @ t" and op: "op \<in> set redir_ops" and t: "plain_target t"
    using assms by (elim redirectsE) simp
  have rest: "rest = [] \<or> hd rest = CHR '' ''"
    using wq(3) last_item [of w] assms by (auto simp: item_word_def taken_off_def)
  have t_gt: "CHR ''>'' \<notin> set t"
    using target_chars(2) [OF t] by (auto simp: plain_char_def special_chars_def)
  show "mt re_dev_null (rev p @ b, q @ rest, []) = []"
    unfolding mt_Nil_iff
  proof (intro allI notI)
    fix st
    assume m: "matches re_dev_null (rev p @ b, q @ rest, []) st"
    then have "sublist ''>'' q"
      using rest begins_first [OF begins_null _ wq(2)] by blast
    then have "CHR ''>'' \<in> set q"
      by (simp add: sublist_singleton)
    then obtain us where us: "q = us @ t" "p @ us = op @ replicate n CHR '' ''"
      using wq(1) t_gt unfolding w append_eq_append_conv2 [of "op @ replicate n CHR '' ''" t] by auto
    have "redir_char c" if "c \<in> set us" for c
    proof -
      have "c \<in> set (op @ replicate n CHR '' '')"
        using that unfolding us(2) [symmetric] by simp
      then show ?thesis
        using redir_op_chars [OF op] by (auto simp: redir_char_def)
    qed
    then have "dropWhile redir_char (q @ rest) = dropWhile redir_char (t @ rest)"
      by (simp add: us(1))
    also have "\<dots> = t @ rest"
      using target_chars [OF t] by (cases t) simp_all
    finally have left: "dropWhile redir_char (q @ rest) = t @ rest" .
    obtain v x where v: "q @ rest = v @ ''/dev/null'' @ x" "\<forall>c \<in> set v. redir_char c"
      using dev_null_shape [OF m] by blast
    then have "dropWhile redir_char (q @ rest) = ''/dev/null'' @ x"
      by (simp add: redir_char_def is_digit09_def is_space_def code_def)
    then have eq: "t @ rest = ''/dev/null'' @ x"
      using left by simp
    then have "\<exists>y. ''/dev/null'' = t @ y \<and> y \<noteq> [] \<and> rest = y @ x"
      using t unfolding append_eq_append_conv2 [of t rest] plain_target_def
      by (metis append_Nil2 prefixI)
    then show False
      using rest in_set_conv_decomp_last by (auto simp: append_eq_Cons_conv Cons_eq_append_conv)
  qed
qed

lemma redirects_not_discards: "redirects w \<Longrightarrow> \<not> discards w"
proof
  assume w: "redirects w" "discards w"
  have "\<not> redirects ''2>/dev/null''" "\<not> redirects ''>/dev/null''" "\<not> redirects ''&>/dev/null''"
    by code_simp+
  then have "w \<in> set dup_words"
    using w by (auto simp: discards_defs)
  then have "sublist ''>&'' w"
    by (auto simp: dup_words_def sublist_Cons_right)
  then show False
    using redirects_dup [OF w(1)] by blast
qed

abbreviation left_of :: "string list \<Rightarrow> string list" where
  "left_of ws \<equiv> blanked (dup_words @ null_words) ws"

lemma left_of_eq: "left_of ws = map (\<lambda>w. if discards w then '' '' else w) ws"
  by (simp add: blanked_def discards_def)

lemma clean_items:
  assumes "list_all item_word ws"
  shows "clean_redirections (words_text ws) = words_text (left_of ws)"
proof -
  have gt: "\<not> sublist ''>&'' w" "\<not> sublist ''>'' w" if "arg_word w" for w
    using arg_chars(3) [OF that] set_mono_sublist by fastforce+
  have null: "\<not> sublist ''>&'' w" if "w \<in> set null_words" for w
    using that by (auto simp: null_words_def sublist_Cons_right prefix_Cons)
  have item: "arg_word w \<or> redirects w \<or> w \<in> set dup_words \<or> w \<in> set null_words" if "w \<in> set ws" for w
    using assms that by (auto simp: list_all_iff item_word_def taken_off_def discards_def)
  have "list_all (\<lambda>w. w \<in> set dup_words \<or> passes re_dup_fd w) ws"
    using item gt(1) null redirects_dup begins_passes [OF begins_dup] unfolding list_all_iff by blast
  then have "re_sub re_dup_fd blank (words_text ws) = words_text (blanked dup_words ws)"
    by (intro sub_words [OF begins_dup] takes_dup)
  moreover have "list_all (\<lambda>w. w \<in> set null_words \<or> passes re_dev_null w) (blanked dup_words ws)"
    using item gt(2) redirects_null begins_passes [OF begins_null] begins_blank [OF begins_null]
    by (fastforce simp: list_all_iff blanked_def)
  then have "re_sub re_dev_null blank (words_text (blanked dup_words ws))
      = words_text (blanked null_words (blanked dup_words ws))"
    by (intro sub_words [OF begins_null] takes_null)
  moreover have "blanked null_words (blanked dup_words ws) = left_of ws"
    by (auto simp: blanked_def null_words_def)
  ultimately show ?thesis
    by (simp add: clean_redirections_def)
qed

text \<open>The first match of the redirection pattern at a redirection is the whole of it.\<close>

lemma first_redir_sign:
  assumes "pre \<in> set [[], ''1'', ''2'', ''&'']" "g \<in> set [''>'', ''>>'']"
  shows "takes_first (opt (Alt (plus digit) (chr CHR ''&''))) (b, pre @ g @ x, []) (rev pre @ b, g @ x, [])"
  using assms by (auto simp: takes_first_def opt_def plus_def star_def digit_def chr_def is_digit09_def code_def Let_def)

lemma first_gt_gt:
  "g \<in> set [''>'', ''>>''] \<Longrightarrow> \<not> head_is (\<lambda>c. c = CHR ''>'') x \<Longrightarrow>
     takes_first gt_gt (b, g @ x, []) (rev g @ b, x, [])"
  unfolding takes_first_def by (cases x) (auto simp: gt_gt_def opt_def chr_def)

lemma first_target:
  assumes "plain_target t" "rest = [] \<or> hd rest = CHR '' ''"
  shows "takes_first (Grp 1 (alts [quoted CHR ''\"'', quoted CHR 0x27, plus (Cls is_target_char)])) (b, t @ rest, [])
    (rev t @ b, rest, [(1, t)])"
proof -
  note t = target_chars [OF assms(1)]
  have "list_all is_target_char t"
    using t(2) by (auto simp: list_all_iff plain_char_def special_chars_def is_target_char_def)
  moreover have "\<not> head_is is_target_char rest"
    using assms(2) by (cases rest) (auto simp: is_target_char_def)
  moreover have "plain_char (hd t)"
    using t(1,2) by simp
  then have "\<not> head_is (\<lambda>c. c = CHR ''\"'') (t @ rest)" "\<not> head_is (\<lambda>c. c = CHR 0x27) (t @ rest)"
    using t(1) by (auto simp: head_is_hd plain_char_def special_chars_def)
  ultimately have "takes_first (alts [quoted CHR ''\"'', quoted CHR 0x27, plus (Cls is_target_char)]) (b, t @ rest, [])
      (rev t @ b, rest, [])"
    using t(1) unfolding alts.simps by (intro first_alt_right mt_quoted_none first_plus_cls)
  from first_grp [OF this, of 1] show ?thesis
    by (simp add: taken_def)
qed

lemma takes_redirection:
  assumes "redirects w" "rest = [] \<or> hd rest = CHR '' ''"
  shows "takes_first re_redir (b, w @ rest, []) (rev w @ b, rest, [(1, redirect_target w)])"
proof -
  obtain op n t where w: "w = op @ replicate n CHR '' '' @ t" "op \<in> set redir_ops" "plain_target t" "redirect_target w = t"
    using assms(1) by (elim redirectsE)
  obtain pre g where op: "op = pre @ g" "pre \<in> set [[], ''1'', ''2'', ''&'']" "g \<in> set [''>'', ''>>'']"
    using redir_op_cases [OF w(2)] by blast
  let ?r = "replicate n CHR '' ''"
  have t: "\<not> head_is is_space (t @ rest)" "hd t \<noteq> CHR ''>''" "t \<noteq> []"
    using target_chars [OF w(3)] by (auto simp: head_is_hd redir_char_def)
  then have gt: "\<not> head_is (\<lambda>c. c = CHR ''>'') (?r @ t @ rest)"
    by (cases n) (simp_all add: head_is_hd)
  have "list_all is_space ?r"
    by (simp add: list_all_iff)
  then have "takes_first re_redir (b, pre @ g @ ?r @ t @ rest, []) (rev t @ rev ?r @ rev g @ rev pre @ b, rest, [(1, t)])"
    unfolding re_redir_def seqs.simps space_def
    by (intro first_seq [OF first_redir_sign [OF op(2,3)]] first_seq [OF first_gt_gt [OF op(3) gt]]
        first_seq [OF first_star_cls] first_target w(3) assms(2) t(1))
  then show ?thesis
    unfolding w(4) by (simp add: w(1) op(1))
qed

text \<open>
  The loop over the redirections. It only takes them off where an even number of quotes of each kind
  stands before, so quoted arguments with a single quote of the other kind are set apart.
\<close>

definition calm :: "string list \<Rightarrow> bool" where
  "calm ws \<longleftrightarrow> targets_of ws = [] \<or> list_all (\<lambda>w. \<not> in_quotes w) ws"

definition safe_targets :: "string list \<Rightarrow> string list \<Rightarrow> bool" where
  "safe_targets vs ws \<longleftrightarrow> list_all (\<lambda>t. is_safe_special_target t vs) (targets_of ws)"

definition without_redirections :: "string list \<Rightarrow> string list" where
  "without_redirections ws = map (\<lambda>w. if redirects w then [] else w) ws"

lemma redir_loop_over:
  "redir_loop vs (map Gap u @ ps) = map_option (\<lambda>(t, w). (u @ t, w)) (redir_loop vs ps)"
  by (induction u) (simp_all add: option.map_comp o_def case_prod_beta option.map_ident)

lemma in_quotes_append: "\<not> in_quotes x \<Longrightarrow> \<not> in_quotes y \<Longrightarrow> \<not> in_quotes (x @ y)"
  by (simp add: in_quotes_def)

lemma redir_loop_word:
  assumes "redirects w \<or> passes re_redir w" "w \<noteq> []" "rest = [] \<or> hd rest = CHR '' ''" "\<not> in_quotes (rev b)"
  shows "redir_loop vs (re_scan re_redir b (w @ rest)) =
    (if redirects w then
       (if is_safe_special_target (redirect_target w) vs
        then map_option (\<lambda>(t, _). (t, True)) (redir_loop vs (re_scan re_redir (rev w @ b) rest)) else None)
     else map_option (\<lambda>(t, u). (w @ t, u)) (redir_loop vs (re_scan re_redir (rev w @ b) rest)))"
proof (cases "redirects w")
  case True
  then have "re_scan re_redir b (w @ rest)
      = Hit (b, w @ rest, []) (rev w @ b, rest, [(1, redirect_target w)]) # re_scan re_redir (rev w @ b) rest"
    using re_scan_first [OF takes_redirection assms(2)] assms(3) by blast
  then show ?thesis
    using True assms(4) by (simp add: group_text_def group_def)
next
  case False
  then have "passes re_redir w"
    using assms(1) by blast
  then have "re_scan re_redir b (w @ rest) = map Gap w @ re_scan re_redir (rev w @ b) rest"
    using scan_over assms(3) by blast
  then show ?thesis
    using False by (simp add: redir_loop_over)
qed

lemma redir_loop_words:
  "list_all (\<lambda>w. w \<noteq> [] \<and> (redirects w \<or> passes re_redir w) \<and> \<not> in_quotes w) ws \<Longrightarrow> \<not> in_quotes (rev b) \<Longrightarrow>
     redir_loop vs (re_scan re_redir b (words_text ws)) =
       (if safe_targets vs ws then Some (words_text (without_redirections ws), targets_of ws \<noteq> []) else None)"
proof (induction ws arbitrary: b)
  case Nil
  then show ?case
    by (simp add: begins_empty [OF begins_redir] safe_targets_def without_redirections_def)
next
  case (Cons w ws)
  then have w: "redirects w \<or> passes re_redir w" "w \<noteq> []" "\<not> in_quotes (rev (rev w @ b))"
    using in_quotes_append [of "rev b" w] by simp_all
  note word = redir_loop_word [OF w(1,2) _ Cons.prems(2), of _ vs]
  show ?case
  proof (cases ws)
    case Nil
    then show ?thesis
      using word [of "[]"] by (simp add: begins_empty [OF begins_redir] safe_targets_def without_redirections_def)
  next
    case (Cons v us)
    let ?rest = "words_text ws" and ?b = "CHR '' '' # rev w @ b"
    have "\<not> in_quotes (rev ?b)"
      using in_quotes_append [OF w(3), of "'' ''"] by (simp add: in_quotes_def)
    then have "redir_loop vs (re_scan re_redir ?b ?rest) =
        (if safe_targets vs ws then Some (words_text (without_redirections ws), targets_of ws \<noteq> []) else None)"
      using Cons.IH Cons.prems by simp
    moreover have "re_scan re_redir (rev w @ b) (CHR '' '' # ?rest) = Gap CHR '' '' # re_scan re_redir ?b ?rest"
      using scan_over [OF begins_blank [OF begins_redir], of ?rest "rev w @ b"] by simp
    moreover have "words_text (w # ws) = w @ CHR '' '' # ?rest"
      "words_text (without_redirections (w # ws)) =
         (if redirects w then [] else w) @ CHR '' '' # words_text (without_redirections ws)"
      by (simp_all add: Cons without_redirections_def)
    ultimately show ?thesis
      using word [of "CHR '' '' # ?rest"] by (simp add: safe_targets_def del: join.simps)
  qed
qed

section \<open>What is left of the redirections\<close>

lemma redirections_cleaned:
  assumes "clean_redirections s = t" "redir_loop vs (re_scan re_redir [] t) = Some (u, w)" "CHR ''>'' \<notin> set u"
  shows "check_and_strip_redirections s vs = (True, u, w)"
proof -
  have no: "\<not> sublist v (remove_quoted u)" if "v \<in> set [''>'']" for v
    using remove_quoted_no [OF assms(3)] that by (auto simp: sublist_singleton)
  show ?thesis
    using re_search_needs [OF needs_redirections(2) no] assms(1,2)
    by (simp add: check_and_strip_redirections_def)
qed

lemma words_text_chars: "(\<And>w. w \<in> set ws \<Longrightarrow> c \<notin> set w) \<Longrightarrow> c \<noteq> CHR '' '' \<Longrightarrow> c \<notin> set (words_text ws)"
  by (induction ws rule: induct_list012) simp_all

definition left_words :: "string list \<Rightarrow> string list" where
  "left_words ws = without_redirections (left_of ws)"

lemma is_blank_simps [simp]: "is_blank '' ''" "is_blank []"
  by (simp_all add: is_blank_def)

lemma not_redirects_blank [simp]: "\<not> redirects '' ''" "\<not> redirects []"
  by code_simp+

lemma left_words_Cons: "left_words (w # ws) =
    (if redirects w then [] else if discards w then '' '' else w) # left_words ws"
  by (auto simp: left_words_def without_redirections_def left_of_eq redirects_not_discards)

lemma left_words_items:
  assumes "list_all item_word ws"
  shows "list_all arg_or_blank (left_words ws)" "filter (\<lambda>w. \<not> is_blank w) (left_words ws) = args_of ws"
  using assms
proof (induction ws)
  case (Cons w ws)
  {
    case 1
    then show ?case
      using Cons by (auto simp: left_words_Cons arg_or_blank_def item_word_def taken_off_def)
  next
    case 2
    then show ?case
      using Cons arg_not_taken [of w] arg_not_blank [of w]
      by (auto simp: left_words_Cons item_word_def taken_off_def)
  }
qed (simp_all add: left_words_def without_redirections_def left_of_eq)

lemma left_words_gt:
  assumes "list_all item_word ws"
  shows "CHR ''>'' \<notin> set (words_text (left_words ws))"
proof -
  have "CHR ''>'' \<notin> set w" if "w \<in> set (left_words ws)" for w
    using left_words_items(1) [OF assms] that arg_chars(3) [of w] by (auto simp: list_all_iff arg_or_blank_def is_blank_def)
  then show ?thesis
    by (intro words_text_chars) simp_all
qed

lemma targets_left: "targets_of (left_of ws) = targets_of ws"
  by (induction ws) (auto simp: left_of_eq redirects_not_discards)

lemma redirections_items:
  assumes items: "list_all item_word ws" and "calm ws"
  shows "check_and_strip_redirections (words_text ws) vs =
    (if safe_targets vs ws then (True, words_text (left_words ws), targets_of ws \<noteq> [])
     else (False, words_text ws, False))"
proof -
  have loop: "redir_loop vs (re_scan re_redir [] (words_text (left_of ws))) =
    (if safe_targets vs ws then Some (words_text (left_words ws), targets_of ws \<noteq> []) else None)"
  proof (cases "targets_of ws = []")
    case True
    then have none: "left_of ws = left_words ws"
      by (auto simp: left_words_def without_redirections_def left_of_eq targets_of_def filter_empty_conv)
    have no: "\<not> sublist w (words_text (left_words ws))" if "w \<in> set [''>'']" for w
      using left_words_gt [OF items] that by (auto simp: sublist_singleton)
    show ?thesis
      using True by (simp only: none re_scan_needs [OF needs_redirections(1) no] redir_loop_gaps safe_targets_def) simp
  next
    case False
    then have even: "list_all (\<lambda>w. \<not> in_quotes w) ws"
      using assms(2) by (simp add: calm_def)
    have word: "w \<noteq> [] \<and> (redirects w \<or> discards w \<or> passes re_redir w)" if "w \<in> set ws" for w
    proof -
      have "item_word w" "w \<noteq> []"
        using items that last_item [of w] by (auto simp: list_all_iff)
      moreover have "passes re_redir w" if "arg_word w"
        using arg_chars(3) [OF that] set_mono_sublist by (intro begins_passes [OF begins_redir]) fastforce
      ultimately show ?thesis
        by (auto simp: item_word_def taken_off_def)
    qed
    have "list_all (\<lambda>w. w \<noteq> [] \<and> (redirects w \<or> passes re_redir w) \<and> \<not> in_quotes w) (left_of ws)"
      using word even begins_blank [OF begins_redir] by (fastforce simp: list_all_iff left_of_eq in_quotes_def)
    then have "redir_loop vs (re_scan re_redir [] (words_text (left_of ws))) =
      (if safe_targets vs (left_of ws) then Some (words_text (left_words ws), targets_of (left_of ws) \<noteq> []) else None)"
      unfolding left_words_def by (intro redir_loop_words) (simp_all add: in_quotes_def)
    then show ?thesis
      by (simp add: safe_targets_def targets_left)
  qed
  show ?thesis
  proof (cases "safe_targets vs ws")
    case True
    then show ?thesis
      using redirections_cleaned [OF clean_items [OF items] _ left_words_gt [OF items]] loop by simp
  next
    case False
    then show ?thesis
      using loop clean_items [OF items] by (simp add: check_and_strip_redirections_def)
  qed
qed

lemma odd_count_none: "d \<notin> set s \<Longrightarrow> \<not> odd_count d s"
  by (induction s) auto

theorem prepare_plain:
  assumes "plain_command w" "list_all item_word ws" "calm ws"
  shows "prepare_segment vs (words_text (w # ws)) =
    (if safe_targets vs ws then Command (w # args_of ws) (targets_of ws \<noteq> []) vs
     else Settled (mk_verdict False False vs))"
proof -
  let ?s = "words_text (w # ws)" and ?t = "words_text (w # left_words ws)"
  have w: "plain_word w" "\<not> taken_off w" and ws: "list_all item_word (w # ws)"
    using assms arg_not_taken [of w] by (simp_all add: plain_command_def plain_arg plain_item)
  then have off: "\<not> discards w" "\<not> redirects w"
    by (simp_all add: taken_off_def)
  have "\<not> in_quotes w"
  proof -
    have "squote \<notin> set w" "dquote \<notin> set w"
      using w(1) by (auto simp: plain_word_def list_all_iff plain_char_def special_chars_def)
    then show ?thesis
      by (simp add: in_quotes_def odd_count_none)
  qed
  then have "calm (w # ws)"
    using assms(3) off by (auto simp: calm_def)
  then have redirs: "check_and_strip_redirections ?s vs =
      (if safe_targets vs ws then (True, ?t, targets_of ws \<noteq> []) else (False, ?s, False))"
    using redirections_items [OF ws, of vs] off by (simp only: left_words_Cons safe_targets_def targets_of_simps if_False)
  have "hd ?s \<noteq> CHR ''#''"
    using hd_words_text [OF w(1)] plain_hd [OF w(1)] by (auto simp: plain_char_def special_chars_def simp del: join.simps)
  then have "?s \<noteq> []" "\<not> prefix ''#'' ?s"
    using words_text_nonempty [OF w(1)] by (auto simp: prefix_def simp del: join.simps)
  moreover have "re_findall re_token ?t = w # args_of ws"
    using tokens_plain [of "w # left_words ws"] left_words_items [OF ws] off w(2)
    by (simp only: left_words_Cons args_of_simps if_False)
  then have "prepare_redirected u vs ?t = Command (w # args_of ws) u vs" for u
    using assms(1) by (simp add: prepare_redirected_def strip_export_plain strip_assignments_plain
        command_tokens_def plain_command_def del: join.simps)
  ultimately show ?thesis
    using assms(1) trim_words_text [OF w(1) assms(2)] strip_parens_plain [OF w(1) assms(2)] redirs
    by (simp add: prepare_segment_def strip_keywords_plain seg_done_plain del: join.simps)
qed

section \<open>The verdict on a plain command\<close>

definition direct_command :: "string list \<Rightarrow> bool" where
  "direct_command ws \<longleftrightarrow> ws \<noteq> [] \<and> plain_command (hd ws) \<and> list_all item_word (tl ws) \<and> calm (tl ws) \<and>
     command_name (hd ws) \<noteq> ''xargs''"

definition item_answer :: "string list \<Rightarrow> string list \<Rightarrow> string list \<Rightarrow> answer" where
  "item_answer vs bodies ws =
     (if safe_targets vs ws then command_answer vs bodies (args_of ws) (targets_of ws \<noteq> []) else refuse)"

lemma plain_not_taken: "plain_command w \<Longrightarrow> item_word w \<and> \<not> taken_off w \<and> \<not> redirects w"
  using arg_not_taken [of w] by (simp add: plain_command_def plain_arg plain_item taken_off_def)

lemma direct_commandE:
  assumes "direct_command ws"
  obtains w us where "ws = w # us" "plain_command w" "list_all item_word us" "calm us" "command_name w \<noteq> ''xargs''"
  using assms by (cases ws) (auto simp: direct_command_def)

lemma direct_commandD:
  assumes "direct_command ws"
  shows "\<And>vs. prepare_segment vs (words_text ws) =
      (if safe_targets vs ws then Command (args_of ws) (targets_of ws \<noteq> []) vs else Settled (mk_verdict False False vs))"
    "\<not> runs_xargs (args_of ws)" "list_all item_word ws" "ws \<noteq> []"
proof -
  obtain w us where ws: "ws = w # us" "plain_command w" "list_all item_word us" "calm us" "command_name w \<noteq> ''xargs''"
    using assms by (rule direct_commandE)
  note w = plain_not_taken [OF ws(2)]
  show "prepare_segment vs (words_text ws) =
      (if safe_targets vs ws then Command (args_of ws) (targets_of ws \<noteq> []) vs else Settled (mk_verdict False False vs))" for vs
    using prepare_plain [OF ws(2-4), of vs] w by (simp add: ws(1) safe_targets_def del: join.simps)
  show "\<not> runs_xargs (args_of ws)" "list_all item_word ws" "ws \<noteq> []"
    using ws w by (simp_all add: runs_xargs_def)
qed

text \<open>Without its redirections a command is a plain command with the same program.\<close>

lemma direct_args:
  assumes "direct_command ws"
  shows "direct_command (args_of ws)" "hd (args_of ws) = hd ws"
proof -
  obtain w us where ws: "ws = w # us" "plain_command w" "list_all item_word us" "calm us" "command_name w \<noteq> ''xargs''"
    using assms by (rule direct_commandE)
  then show "hd (args_of ws) = hd ws" "direct_command (args_of ws)"
    using plain_not_taken [OF ws(2)] args_of_items [OF ws(3)] args_of_args [OF args_of_items [OF ws(3)]]
    by (simp_all add: direct_command_def items_args calm_def)
qed

lemma segment_answer:
  assumes "direct_command ws" "prepare_segment vs segment = prepare_segment vs (words_text ws)"
  shows "is_safe_segment bodies vs segment = answered (item_answer vs bodies ws) vs"
  using direct_commandD [OF assms(1)] assms(2)
  by (subst is_safe_segment.simps) (simp add: item_answer_def answered_def refuse_def)

text \<open>\<open>xargs\<close> with any options is judged as the command it runs.\<close>

lemma segment_xargs:
  assumes "plain_command w" "list_all item_word ws" "calm ws" "runs_xargs (w # args_of ws)"
    "skip_options xargs_value_flag (args_of ws) = u # us"
  shows "safe (is_safe_segment bodies vs (words_text (w # ws))) \<longleftrightarrow>
    safe_targets vs ws \<and> safe (is_safe_segment bodies vs (words_text (u # us)))"
proof (cases "safe_targets vs ws")
  case True
  then have "is_safe_segment bodies vs (words_text (w # ws)) =
      (let v = is_safe_segment bodies vs (words_text (u # us)) in
       mk_verdict (safe v) (targets_of ws \<noteq> [] \<or> writes v) (vars v))"
    using assms prepare_plain [OF assms(1-3), of vs]
    by (subst is_safe_segment.simps) (simp add: xargs_tokens_def del: join.simps)
  then show ?thesis
    using True by (simp only: Let_def) (simp add: mk_verdict_def del: join.simps)
next
  case False
  then show ?thesis
    using prepare_plain [OF assms(1-3), of vs]
    by (subst is_safe_segment.simps) (simp add: mk_verdict_def del: join.simps)
qed

end
