(* ===== verification/Guard_Script.thy ===== *)
theory Guard_Script
  imports Guard_Plain
begin

text \<open>
  Sequences of plain commands, with any blanks around them and joined by the separators of the shell: the
  scanners of \<open>autonomous-exec-hook.py\<close> pass over quoted arguments and discarding redirections, the
  splitter cuts such a text at its separators, and the verdict on it is put together from the verdicts
  on its commands. What no approved sequence contains follows from the command families.
\<close>

section \<open>Blanks around a command\<close>

definition pad :: "nat \<Rightarrow> string" where
  "pad n = replicate n CHR '' ''"

lemma lstrip_pad: "lstrip is_space (pad n @ s) = lstrip is_space s"
  unfolding lstrip_def pad_def by (induction n) simp_all

lemma rstrip_pad: "rstrip is_space (s @ pad n) = rstrip is_space s"
  using lstrip_pad [of n "rev s"] by (simp add: rstrip_def lstrip_def pad_def)

lemma trim_pad: "s \<noteq> [] \<Longrightarrow> \<not> is_space (hd s) \<Longrightarrow> trim (pad m @ s @ pad n) = trim s"
proof -
  assume "s \<noteq> []" "\<not> is_space (hd s)"
  then have "lstrip is_space (s @ pad n) = s @ pad n" "lstrip is_space s = s"
    by (cases s; simp add: lstrip_def)+
  then show ?thesis
    by (simp add: strip_def lstrip_pad rstrip_pad)
qed

definition padded :: "nat \<times> string list \<times> nat \<Rightarrow> string" where
  "padded c = (case c of (m, ws, n) \<Rightarrow> pad m @ words_text ws @ pad n)"

definition items_of :: "nat \<times> string list \<times> nat \<Rightarrow> string list" where
  "items_of c = fst (snd c)"

lemma trim_padded:
  assumes "direct_command (items_of c)"
  shows "trim (padded c) = words_text (items_of c)" "trim (words_text (items_of c)) = words_text (items_of c)"
    "words_text (items_of c) \<noteq> []"
proof -
  obtain m ws n where c: "c = (m, ws, n)" by (cases c)
  obtain w us where ws: "ws = w # us" "plain_word w" "list_all item_word us"
    using assms by (cases ws) (auto simp: c items_of_def direct_command_def plain_command_def)
  then have ne: "words_text ws \<noteq> []" "\<not> is_space (hd (words_text ws))"
    using words_text_nonempty [of w us] hd_words_text [of w us] plain_hd [of w]
    by (simp_all add: plain_char_def del: join.simps)
  show "trim (words_text (items_of c)) = words_text (items_of c)" "words_text (items_of c) \<noteq> []"
    using trim_words_text [OF ws(2,3)] ne by (simp_all add: c ws items_of_def del: join.simps)
  then show "trim (padded c) = words_text (items_of c)"
    using trim_pad [OF ne] by (simp add: c padded_def items_of_def)
qed

lemma prepare_trim: "trim (trim s) = trim s \<Longrightarrow> prepare_segment vs (trim s) = prepare_segment vs s"
  by (simp add: prepare_segment_def)

lemma segment_padded:
  assumes "direct_command (items_of c)"
  shows "is_safe_segment bodies vs (padded c) = answered (item_answer vs bodies (items_of c)) vs"
  using prepare_trim [of "padded c" vs] trim_padded [OF assms] by (intro segment_answer [OF assms]) simp

section \<open>Sequences of plain commands\<close>

definition seq_ops :: "string list" where
  "seq_ops = ['';'', ''|'', [newline_char], ''&&'', ''||'']"

lemma quiet_newline: "quiet_char c \<Longrightarrow> c \<noteq> newline_char"
  by (auto simp: quiet_char_def plain_char_def is_space_def code_def)

text \<open>
  A text that both scanners pass over: it is carried into the current segment and it leaves the
  quoting state as it was. Angle brackets are left out, which other steps look for.
\<close>

definition inert :: "string \<Rightarrow> bool" where
  "inert s \<longleftrightarrow>
     (\<forall>prev cur rest. \<exists>prev'. split_scan False False False prev cur (s @ rest)
        = split_scan False False False prev' (cur @ s) rest) \<and>
     (\<forall>ok rest. resolve_scan ok False False (s @ rest) = map_option ((@) s) (resolve_scan ok False False rest))"

lemma append_funs: "(@) [] = (\<lambda>x. x)" "(@) (c # s) = (\<lambda>x. c # s @ x)" "(@) (s @ t) = (\<lambda>x. s @ t @ x)"
  by (simp_all add: fun_eq_iff)

lemma inert_Nil: "inert []"
  by (auto simp: inert_def append_funs option.map_ident)

lemma inert_append:
  assumes "inert s" "inert t"
  shows "inert (s @ t)"
  unfolding inert_def
proof (intro conjI allI)
  fix prev cur rest
  obtain prev1 where "split_scan False False False prev cur (s @ t @ rest)
      = split_scan False False False prev1 (cur @ s) (t @ rest)"
    using assms(1) unfolding inert_def by blast
  moreover obtain prev2 where "split_scan False False False prev1 (cur @ s) (t @ rest)
      = split_scan False False False prev2 ((cur @ s) @ t) rest"
    using assms(2) unfolding inert_def by blast
  ultimately show "\<exists>prev'. split_scan False False False prev cur ((s @ t) @ rest)
      = split_scan False False False prev' (cur @ s @ t) rest"
    by (intro exI [of _ prev2]) simp
next
  fix ok rest
  show "resolve_scan ok False False ((s @ t) @ rest) = map_option ((@) (s @ t)) (resolve_scan ok False False rest)"
    using assms by (simp add: inert_def append_funs option.map_comp o_def)
qed

lemma inert_char:
  assumes "quiet_char c"
  shows "inert [c]"
proof -
  have c: "c \<notin> set special_chars" "c \<noteq> newline_char"
    using quiet_not_special [of "[c]" c] quiet_newline [of c] assms by auto
  have "split_scan False False False prev cur ([c] @ rest) = split_scan False False False (Some c) (cur @ [c]) rest"
    for prev cur rest
    using c by (simp add: split_scan.simps double_op_def single_op_def special_chars_def)
  moreover have "resolve_scan ok False False ([c] @ rest) = map_option ((@) [c]) (resolve_scan ok False False rest)"
    for ok rest
    using c by (simp add: resolve_scan.simps special_chars_def append_funs)
  ultimately show ?thesis
    unfolding inert_def by blast
qed

lemma inert_quiet: "list_all quiet_char s \<Longrightarrow> inert s"
proof (induction s)
  case (Cons c s)
  then show ?case
    using inert_append [OF inert_char, of c s] by simp
qed (simp add: inert_Nil)

text \<open>Inside quotes the scanners pass over everything but what ends them.\<close>

lemma split_single:
  "list_all single_char s \<Longrightarrow>
     \<exists>prev'. split_scan True False False prev cur (s @ rest) = split_scan True False False prev' (cur @ s) rest"
proof (induction s arbitrary: prev cur)
  case (Cons c s)
  then show ?case
    using Cons.IH [of "Some c" "cur @ [c]"] by (simp add: split_scan.simps single_char_def)
qed auto

lemma substitution_step:
  "\<not> sublist ''$('' (c # s) \<Longrightarrow> c = CHR ''$'' \<Longrightarrow> \<not> head_is (\<lambda>c. c = CHR ''('') (s @ dquote # rest)"
  by (cases s) (auto simp: sublist_Cons_right prefix_def)

lemma split_double:
  "list_all double_char s \<Longrightarrow> \<not> sublist ''$('' s \<Longrightarrow>
     \<exists>prev'. split_scan False True False prev cur (s @ dquote # rest)
       = split_scan False True False prev' (cur @ s) (dquote # rest)"
proof (induction s arbitrary: prev cur)
  case (Cons c s)
  have "\<not> sublist ''$('' s"
    using Cons.prems(2) by (simp add: sublist_Cons_right)
  moreover have "\<not> (c = CHR ''$'' \<and> starts_paren (s @ dquote # rest))"
    using substitution_step [OF Cons.prems(2)] by (auto simp: starts_paren_def)
  ultimately show ?case
    using Cons.IH [of "Some c" "cur @ [c]"] Cons.prems(1) by (auto simp: split_scan.simps(2) [of _ _ _ _ _ c] double_char_def)
qed auto

lemma resolve_single:
  "list_all single_char s \<Longrightarrow> resolve_scan ok True False (s @ rest) = map_option ((@) s) (resolve_scan ok True False rest)"
  by (induction s) (simp_all add: resolve_scan.simps single_char_def append_funs option.map_comp option.map_ident o_def)

lemma resolve_double:
  "list_all double_char s \<Longrightarrow> \<not> sublist ''$('' s \<Longrightarrow>
     resolve_scan ok sg False (s @ dquote # rest) =
       map_option ((@) s) (resolve_scan ok (sg \<noteq> odd_count squote s) False (dquote # rest))"
proof (induction s arbitrary: sg)
  case Nil
  then show ?case
    by (simp add: append_funs option.map_ident)
next
  case (Cons c s)
  have "\<not> sublist ''$('' s"
    using Cons.prems(2) by (simp add: sublist_Cons_right)
  moreover have "c \<noteq> CHR ''$'' \<or> \<not> head_is (\<lambda>c. c = CHR ''('') (s @ dquote # rest)"
    using substitution_step [OF Cons.prems(2)] by blast
  moreover have "odd_count squote (c # s) = (odd_count squote s \<noteq> (c = squote))"
    by simp
  ultimately show ?case
    using Cons.IH [of "sg"] Cons.IH [of "\<not> sg"] Cons.prems(1)
    by (auto simp: resolve_scan.simps(2) [of _ _ _ c] double_char_def append_funs option.map_comp o_def)
qed

lemma inert_single:
  assumes "list_all single_char body"
  shows "inert (squote # body @ [squote])"
  unfolding inert_def
proof (intro conjI allI)
  fix prev cur rest
  obtain prev' where "split_scan True False False (Some squote) (cur @ [squote]) (body @ squote # rest)
      = split_scan True False False prev' ((cur @ [squote]) @ body) (squote # rest)"
    using split_single [OF assms] by blast
  then show "\<exists>prev'. split_scan False False False prev cur ((squote # body @ [squote]) @ rest)
      = split_scan False False False prev' (cur @ squote # body @ [squote]) rest"
    by (intro exI [of _ "Some squote"]) (simp add: split_scan.simps)
next
  fix ok rest
  show "resolve_scan ok False False ((squote # body @ [squote]) @ rest)
      = map_option ((@) (squote # body @ [squote])) (resolve_scan ok False False rest)"
    using resolve_single [OF assms, of ok "squote # rest"] by (simp add: resolve_scan.simps append_funs option.map_comp o_def)
qed

lemma inert_double:
  assumes "double_body body"
  shows "inert (dquote # body @ [dquote])"
  unfolding inert_def
proof (intro conjI allI)
  fix prev cur rest
  obtain prev' where "split_scan False True False (Some dquote) (cur @ [dquote]) (body @ dquote # rest)
      = split_scan False True False prev' ((cur @ [dquote]) @ body) (dquote # rest)"
    using split_double assms unfolding double_body_def by blast
  then show "\<exists>prev'. split_scan False False False prev cur ((dquote # body @ [dquote]) @ rest)
      = split_scan False False False prev' (cur @ dquote # body @ [dquote]) rest"
    by (intro exI [of _ "Some dquote"]) (simp add: split_scan.simps)
next
  fix ok rest
  show "resolve_scan ok False False ((dquote # body @ [dquote]) @ rest)
      = map_option ((@) (dquote # body @ [dquote])) (resolve_scan ok False False rest)"
    using resolve_double [of body ok False rest] assms by (simp add: resolve_scan.simps append_funs double_body_def option.map_comp o_def)
qed

lemma inert_arg: "arg_word w \<Longrightarrow> inert w"
  by (elim arg_wordE) (auto intro: inert_quiet inert_single inert_double simp: plain_word_def plain_quiet)

lemma inert_discards: "discards w \<Longrightarrow> inert w"
proof -
  assume "discards w"
  then have "split_scan False False False prev cur (w @ rest) = split_scan False False False (Some (last w)) (cur @ w) rest"
    "resolve_scan ok False False (w @ rest) = map_option ((@) w) (resolve_scan ok False False rest)"
    for prev cur rest ok
    unfolding discards_defs
    by (auto simp: split_scan.simps resolve_scan.simps double_op_def single_op_def starts_paren_def
        append_funs option.map_comp o_def)
  then show "inert w"
    unfolding inert_def by blast
qed

text \<open>The sign of a redirection is passed over unless a parenthesis or another sign follows.\<close>

lemma inert_redirects:
  assumes "redirects w"
  shows "inert w"
proof -
  obtain op n t where w: "w = op @ replicate n CHR '' '' @ t" and op: "op \<in> set redir_ops" and t: "plain_target t"
    using assms by (elim redirectsE)
  let ?x = "replicate n CHR '' '' @ t"
  have x: "list_all quiet_char ?x" "?x \<noteq> []"
    using target_chars [OF t] by (auto simp: list_all_iff quiet_char_def)
  then obtain c x where cx: "?x = c # x" "quiet_char c"
    by (cases ?x) auto
  have c: "c \<notin> set special_chars" "c \<noteq> newline_char"
    using quiet_not_special [of "[c]" c] quiet_newline [OF cx(2)] cx(2) by auto
  have "split_scan False False False prev cur (op @ c # x @ rest) =
      split_scan False False False (Some (last op)) (cur @ op) (c # x @ rest)"
    "resolve_scan ok False False (op @ c # x @ rest) = map_option ((@) op) (resolve_scan ok False False (c # x @ rest))"
    for prev cur rest ok
    using op c unfolding redir_ops_def special_chars_def
    by (auto simp: split_scan.simps resolve_scan.simps double_op_def single_op_def starts_paren_def
        append_funs option.map_comp o_def)
  then have sign: "split_scan False False False prev cur (op @ ?x @ rest) =
      split_scan False False False (Some (last op)) (cur @ op) (?x @ rest)"
    "resolve_scan ok False False (op @ ?x @ rest) = map_option ((@) op) (resolve_scan ok False False (?x @ rest))"
    for prev cur rest ok
    by (simp_all only: cx append_Cons)
  note quiet = inert_quiet [OF x(1), unfolded inert_def]
  show ?thesis
    unfolding inert_def
  proof (intro conjI allI)
    fix prev cur rest
    obtain prev' where "split_scan False False False (Some (last op)) (cur @ op) (?x @ rest)
        = split_scan False False False prev' ((cur @ op) @ ?x) rest"
      using quiet by blast
    then show "\<exists>prev'. split_scan False False False prev cur (w @ rest) = split_scan False False False prev' (cur @ w) rest"
      using sign(1) [of prev cur rest] by (intro exI [of _ prev']) (simp add: w)
  next
    fix ok rest
    have "resolve_scan ok False False (?x @ rest) = map_option ((@) ?x) (resolve_scan ok False False rest)"
      using quiet by blast
    then show "resolve_scan ok False False (w @ rest) = map_option ((@) w) (resolve_scan ok False False rest)"
      using sign(2) [of ok rest] by (simp add: w option.map_comp o_def append_funs)
  qed
qed

lemma inert_item: "item_word w \<Longrightarrow> inert w"
  by (auto simp: item_word_def taken_off_def inert_arg inert_discards inert_redirects)

lemma inert_words: "list_all item_word ws \<Longrightarrow> inert (words_text ws)"
proof (induction ws rule: induct_list012)
  case (3 v w ws)
  then show ?case
    using inert_append [OF inert_item inert_append [OF inert_char, of "CHR '' ''"], of v] by (simp add: quiet_char_def)
qed (simp_all add: inert_Nil inert_item)

lemma inert_pad: "inert (pad n)"
  by (rule inert_quiet) (simp add: pad_def quiet_char_def list_all_iff)

lemma inert_padded: "list_all item_word (items_of c) \<Longrightarrow> inert (padded c)"
  by (cases c) (simp add: padded_def items_of_def inert_append inert_words inert_pad)

lemma inert_split:
  "inert s \<Longrightarrow> \<exists>prev'. split_scan False False False prev cur (s @ rest)
     = split_scan False False False prev' (cur @ s) rest"
  by (simp add: inert_def)

lemma split_scan_op:
  assumes "op \<in> set seq_ops" "\<not> head_is (\<lambda>c. c = CHR ''|'') rest"
  shows "\<exists>prev'. split_scan False False False prev cur (op @ rest) =
    map_option (Cons cur) (split_scan False False False prev' [] rest)"
  using assms by (auto simp: seq_ops_def split_scan.simps double_op_def single_op_def)

text \<open>The text of a sequence: a command, then operators each followed by a command.\<close>

definition seq_text :: "string \<Rightarrow> (string \<times> string) list \<Rightarrow> string" where
  "seq_text c rest = c @ concat (map (\<lambda>(op, d). op @ d) rest)"

definition quiet_text :: "string \<Rightarrow> bool" where
  "quiet_text s \<longleftrightarrow> s \<noteq> [] \<and> hd s \<noteq> CHR ''|'' \<and> inert s"

lemma split_scan_seq:
  assumes "quiet_text c" "list_all (\<lambda>(op, d). op \<in> set seq_ops \<and> quiet_text d) rest"
  shows "split_scan False False False prev [] (seq_text c rest) = Some (c # map snd rest)"
  using assms
proof (induction rest arbitrary: c prev)
  case Nil
  obtain prev' where "split_scan False False False prev [] (c @ []) = split_scan False False False prev' ([] @ c) []"
    using inert_split Nil.prems by (metis quiet_text_def)
  then show ?case
    using Nil.prems by (simp add: seq_text_def quiet_text_def)
next
  case (Cons x rest)
  obtain op d where x: "x = (op, d)" by (cases x)
  have d: "quiet_text d" "op \<in> set seq_ops"
    using Cons.prems by (simp_all add: x)
  then have "\<not> head_is (\<lambda>c. c = CHR ''|'') (seq_text d rest)"
    by (cases d) (auto simp: seq_text_def quiet_text_def)
  then obtain prev1 prev2 where
    "split_scan False False False prev [] (c @ op @ seq_text d rest) =
       split_scan False False False prev1 c (op @ seq_text d rest)"
    "split_scan False False False prev1 c (op @ seq_text d rest) =
       map_option (Cons c) (split_scan False False False prev2 [] (seq_text d rest))"
    using inert_split [of c prev "[]"] split_scan_op [OF d(2)] Cons.prems(1) unfolding quiet_text_def
    by (metis append_Nil)
  moreover have "seq_text c (x # rest) = c @ op @ seq_text d rest"
    by (simp add: seq_text_def x)
  ultimately show ?case
    using Cons.IH [of d prev2] Cons.prems d by (simp add: x)
qed

type_synonym padded_command = "nat \<times> string list \<times> nat"

definition script_text :: "padded_command \<Rightarrow> (string \<times> padded_command) list \<Rightarrow> string" where
  "script_text c rest = seq_text (padded c) (map (\<lambda>(op, d). (op, padded d)) rest)"

definition script_ok :: "padded_command \<Rightarrow> (string \<times> padded_command) list \<Rightarrow> bool" where
  "script_ok c rest \<longleftrightarrow> direct_command (items_of c) \<and>
     list_all (\<lambda>(op, d). op \<in> set seq_ops \<and> direct_command (items_of d)) rest"

definition script_items :: "padded_command \<Rightarrow> (string \<times> padded_command) list \<Rightarrow> string list list" where
  "script_items c rest = items_of c # map (items_of \<circ> snd) rest"

text \<open>The commands of a script, as words, and the files that it redirects output to.\<close>

definition script_commands :: "padded_command \<Rightarrow> (string \<times> padded_command) list \<Rightarrow> string list list" where
  "script_commands c rest = map args_of (script_items c rest)"

definition script_targets :: "padded_command \<Rightarrow> (string \<times> padded_command) list \<Rightarrow> string list" where
  "script_targets c rest = concat (map targets_of (script_items c rest))"

abbreviation plain_answer :: "string list \<Rightarrow> answer" where
  "plain_answer ws \<equiv> item_answer [] [] ws"

lemma padded_hd:
  assumes "direct_command (items_of c)"
  shows "padded c \<noteq> [] \<and> hd (padded c) \<noteq> CHR ''|''"
proof -
  obtain m w us n where c: "c = (m, w # us, n)" "plain_word w"
    using assms by (cases c; cases "items_of c") (auto simp: items_of_def direct_command_def plain_command_def)
  then show ?thesis
    using words_text_nonempty [of w us] hd_words_text [of w us] plain_hd [of w]
    by (cases m) (auto simp: padded_def pad_def plain_char_def special_chars_def simp del: join.simps)
qed

lemma quiet_text_padded: "direct_command (items_of c) \<Longrightarrow> quiet_text (padded c)"
  using padded_hd [of c] inert_padded [of c] direct_commandD(3) [of "items_of c"] by (simp add: quiet_text_def)

lemma item_angle: "item_word w \<Longrightarrow> CHR ''<'' \<notin> set w"
proof -
  have "CHR ''<'' \<notin> set w" if "redirects w"
    using that target_chars(2)
    by (fastforce elim!: redirectsE simp: redir_ops_def plain_char_def special_chars_def)
  then show "item_word w \<Longrightarrow> ?thesis"
    using arg_chars(2) [of w] by (auto simp: item_word_def taken_off_def discards_defs)
qed

lemma padded_angle:
  assumes "direct_command (items_of c)"
  shows "CHR ''<'' \<notin> set (padded c)"
proof -
  have "CHR ''<'' \<notin> set (words_text (items_of c))"
    using direct_commandD(3) [OF assms] item_angle by (intro words_text_chars) (auto simp: list_all_iff)
  then show ?thesis
    by (cases c) (auto simp: padded_def items_of_def pad_def)
qed

lemma script_angle:
  assumes "script_ok c rest"
  shows "CHR ''<'' \<notin> set (script_text c rest)"
proof -
  have "CHR ''<'' \<notin> set op" if "op \<in> set seq_ops" for op
    using that by (auto simp: seq_ops_def)
  then show ?thesis
    using assms padded_angle by (fastforce simp: script_text_def seq_text_def script_ok_def list_all_iff)
qed

lemma resolve_op:
  "op \<in> set seq_ops \<Longrightarrow>
     resolve_scan ok False False (op @ rest) = map_option ((@) op) (resolve_scan ok False False rest)"
  by (auto simp: seq_ops_def resolve_scan.simps append_funs option.map_comp o_def)

lemma resolve_seq:
  assumes "quiet_text c" "list_all (\<lambda>(op, d). op \<in> set seq_ops \<and> quiet_text d) rest"
  shows "resolve_scan ok False False (seq_text c rest) = Some (seq_text c rest)"
  using assms
proof (induction rest arbitrary: c)
  case Nil
  then have "resolve_scan ok False False (c @ []) = map_option ((@) c) (resolve_scan ok False False [])"
    unfolding quiet_text_def inert_def by blast
  then show ?case
    by (simp add: seq_text_def)
next
  case (Cons x rest)
  obtain op d where x: "x = (op, d)" by (cases x)
  have d: "quiet_text d" "op \<in> set seq_ops"
    using Cons.prems by (simp_all add: x)
  have "resolve_scan ok False False (c @ op @ seq_text d rest)
      = map_option ((@) c) (resolve_scan ok False False (op @ seq_text d rest))"
    using Cons.prems(1) unfolding quiet_text_def inert_def by blast
  then show ?case
    using Cons.IH [OF d(1)] Cons.prems(2) resolve_op [OF d(2), of ok "seq_text d rest"]
    by (simp add: seq_text_def x)
qed

lemma quiet_parts:
  assumes "script_ok c rest"
  shows "quiet_text (padded c)"
    "list_all (\<lambda>(op, d). op \<in> set seq_ops \<and> quiet_text d) (map (\<lambda>(op, d). (op, padded d)) rest)"
  using assms by (auto simp: script_ok_def list_all_iff intro: quiet_text_padded)

lemma split_script:
  assumes "script_ok c rest"
  shows "split_command_segments (script_text c rest) = Some (padded c # map (padded \<circ> snd) rest)"
proof -
  have "map snd (map (\<lambda>(op, d). (op, padded d)) rest) = map (padded \<circ> snd) rest"
    by (simp add: case_prod_beta)
  then show ?thesis
    using split_scan_seq [OF quiet_parts [OF assms]] by (simp add: split_command_segments_def script_text_def)
qed

lemma run_segments_direct:
  "list_all (\<lambda>d. direct_command (items_of d)) ds \<Longrightarrow>
     run_segments bodies vs (map padded ds) =
       (let as = map (\<lambda>d. item_answer vs bodies (items_of d)) ds in
        if list_all fst as then (True, list_ex snd as) else refuse)"
proof (induction ds)
  case (Cons d ds)
  then have "trim (padded d) \<noteq> []"
    using trim_padded [of d] by simp
  moreover have "is_safe_segment bodies vs (padded d)
      = answered (item_answer vs bodies (items_of d)) vs"
    using Cons.prems by (intro segment_padded) simp
  ultimately show ?case
    using Cons by (simp add: Let_def answered_def mk_verdict_def refuse_def)
qed simp

theorem script_answer:
  assumes "script_ok c rest" "depth \<le> 4"
  shows "evaluate_tier1_command depth (script_text c rest) =
    (if list_all (\<lambda>ws. fst (plain_answer ws)) (script_items c rest)
     then (True, list_ex (\<lambda>ws. snd (plain_answer ws)) (script_items c rest))
     else refuse)"
proof -
  let ?s = "script_text c rest"
  have "\<not> sublist ''<<'' ?s"
    using script_angle [OF assms(1)] by (auto simp: sublist_def)
  then have "evaluate_tier1_command depth ?s = run_segments [] [] (map padded (c # map snd rest))"
    using assms(2) resolve_seq [OF quiet_parts [OF assms(1)]] split_script [OF assms(1)]
    by (simp add: evaluate_tier1_command_code strip_heredocs_none resolve_with_def judge_def script_text_def)
  also have "\<dots> = (if list_all (\<lambda>ws. fst (plain_answer ws)) (script_items c rest)
     then (True, list_ex (\<lambda>ws. snd (plain_answer ws)) (script_items c rest)) else refuse)"
    using assms(1) run_segments_direct [of "c # map snd rest" "[]" "[]"]
    by (simp add: script_ok_def script_items_def list_all_iff list_ex_iff case_prod_beta Let_def)
  finally show ?thesis .
qed

text \<open>A script is approved exactly when every command of it is.\<close>

lemma script_approved:
  "script_ok c rest \<Longrightarrow>
     is_tier1_safe_command (script_text c rest) \<longleftrightarrow>
       list_all (\<lambda>ws. fst (plain_answer ws)) (script_items c rest)"
  by (simp add: is_tier1_safe_command_def tier1_ok_def script_answer refuse_def)

lemma script_answer_of:
  assumes "script_ok c rest" "is_tier1_safe_command (script_text c rest)" "ws \<in> set (script_commands c rest)"
  shows "\<exists>w. fst (command_answer [] [] ws w)"
proof -
  obtain items where "items \<in> set (script_items c rest)" "ws = args_of items"
    using assms(3) by (auto simp: script_commands_def)
  moreover from this have "fst (plain_answer items)"
    using assms(1,2) by (simp add: script_approved list_all_iff)
  ultimately show ?thesis
    by (auto simp: item_answer_def refuse_def split: if_splits)
qed

lemma script_targets_safe:
  assumes "script_ok c rest" "is_tier1_safe_command (script_text c rest)" "t \<in> set (script_targets c rest)"
  shows "is_safe_special_target t []"
proof -
  obtain items where "items \<in> set (script_items c rest)" "t \<in> set (targets_of items)"
    using assms(3) by (auto simp: script_targets_def)
  moreover from this have "fst (plain_answer items)"
    using assms(1,2) by (simp add: script_approved list_all_iff)
  ultimately show ?thesis
    by (auto simp: item_answer_def refuse_def safe_targets_def list_all_iff split: if_splits)
qed

lemma script_direct:
  "script_ok c rest \<Longrightarrow> ws \<in> set (script_commands c rest) \<Longrightarrow> direct_command ws"
  using direct_args(1) by (auto simp: script_ok_def script_commands_def script_items_def list_all_iff)

section \<open>What an approved script cannot contain\<close>

lemma direct_hd:
  assumes "direct_command ws"
  shows "unquote (hd ws) = hd ws" "newline_char \<notin> set (hd ws)"
proof -
  have p: "plain_word (hd ws)"
    using assms by (simp add: direct_command_def plain_command_def)
  then show "unquote (hd ws) = hd ws"
    by (intro unquote_plain) (simp add: plain_word_def)
  show "newline_char \<notin> set (hd ws)"
    using p quiet_newline by (auto simp: plain_word_def list_all_iff quiet_char_def)
qed

text \<open>A program name without the suffix of a script is not an anchored script.\<close>

lemma direct_not_anchored:
  assumes "direct_command ws" "\<not> suffix ''.sh'' (command_name (hd ws))"
    "\<not> suffix ''.py'' (command_name (hd ws))"
  shows "\<not> is_anchored_plugin_script (unquote (hd ws))"
  using anchored_name [of "hd ws"] direct_hd [OF assms(1)] assms(2,3)
  by (auto simp: command_name_def)

text \<open>
  The words after the program of a writing program: at least one does not begin with a dash, and all of
  those are safe targets.
\<close>

lemma plain_args_mem: "p \<in> set (plain_args ws) \<longleftrightarrow> p \<in> set (map unquote (tl ws)) \<and> \<not> prefix ''-'' p"
  by (auto simp: plain_args_def unquoted_args_def)

definition names_file :: "string \<Rightarrow> bool" where
  "names_file w \<longleftrightarrow> \<not> prefix ''-'' (unquote w)"

definition files_safe :: "string list \<Rightarrow> string list \<Rightarrow> bool" where
  "files_safe vs ws \<longleftrightarrow> (\<exists>u \<in> set ws. names_file u) \<and>
     (\<forall>u \<in> set ws. names_file u \<longrightarrow> is_safe_special_target (unquote u) vs)"

lemma paths_files: "fst (paths_answer vs ws) \<longleftrightarrow> files_safe vs (tl ws)"
proof -
  have "plain_args ws \<noteq> [] \<longleftrightarrow> (\<exists>u \<in> set (tl ws). names_file u)"
    by (auto simp: plain_args_def unquoted_args_def names_file_def filter_empty_conv)
  moreover have "(\<forall>p \<in> set (plain_args ws). is_safe_special_target p vs) \<longleftrightarrow>
      (\<forall>u \<in> set (tl ws). names_file u \<longrightarrow> is_safe_special_target (unquote u) vs)"
    by (auto simp: plain_args_mem names_file_def)
  ultimately show ?thesis
    by (auto simp: files_safe_def paths_answer_def refuse_def list_all_iff)
qed

definition writing_programs :: "string list" where
  "writing_programs = [''rm'', ''cp'', ''mv'', ''mkdir'', ''rmdir'', ''touch'', ''chmod'', ''tee'']"

lemma writer_answer:
  assumes "direct_command ws" "command_name (hd ws) \<in> set writing_programs"
  shows "fst (command_answer vs bodies ws w) \<longleftrightarrow> files_safe vs (tl ws)"
proof -
  have "\<not> is_anchored_plugin_script (unquote (hd ws))"
    using assms(2) by (intro direct_not_anchored [OF assms(1)])
      (auto simp: writing_programs_def suffix_def dest: arg_cong [of _ _ length])
  moreover have "basename (unquote (hd ws)) \<in> set writing_programs"
    using assms(2) by (simp add: command_name_def)
  ultimately have "command_answer vs bodies ws w = paths_answer vs ws"
    unfolding command_answer_def Let_def path_writers_def writing_programs_def by auto
  then show ?thesis
    by (simp add: paths_files)
qed

text \<open>git and hg: the first word after the options decides, and it is never \<open>push\<close>.\<close>

lemma git_subcommand:
  assumes "is_safe_git_or_hg (prog # args)" "skip_vcs_options args = sub # rest"
  shows "sub \<noteq> ''push'' \<and>
    (basename prog = ''git'' \<and> sub \<in> set SAFE_GIT_SUBCOMMANDS \<or>
     basename prog = ''hg'' \<and> sub \<in> set SAFE_HG_SUBCOMMANDS)"
  using assms by (auto simp: vcs_subcommand_ok_def split: if_splits)

lemma direct_vcs:
  assumes "direct_command ws" "command_name (hd ws) \<in> {''git'', ''hg''}"
    "fst (command_answer vs bodies ws w)"
  shows "is_safe_git_or_hg (map unquote ws)"
proof -
  have "\<not> is_anchored_plugin_script (unquote (hd ws))"
    using assms(2) by (intro direct_not_anchored [OF assms(1)])
      (auto simp: suffix_def dest: arg_cong [of _ _ length])
  moreover have "basename (unquote (hd ws)) \<in> {''git'', ''hg''}"
    using assms(2) by (simp add: command_name_def)
  ultimately show ?thesis
    using assms(3) unfolding command_answer_def Let_def by (auto simp: path_writers_def)
qed

text \<open>
  The options that may stand before the subcommand of \<open>git\<close> and \<open>hg\<close>, as their manuals give them: those
  whose value is the next word, and any other word with a dash.
\<close>

definition separate_value :: "string \<Rightarrow> string \<Rightarrow> bool" where
  "separate_value prog f \<longleftrightarrow>
     (if prog = ''git'' then f \<in> {''-C'', ''-c'', ''--git-dir'', ''--work-tree''}
      else f \<in> {''-R'', ''--repository'', ''--cwd''})"

fun option_words :: "string \<Rightarrow> string list \<Rightarrow> bool" where
  "option_words prog [f, v] = separate_value prog f"
| "option_words prog [f] = (prefix ''-'' f \<and> \<not> separate_value ''git'' f \<and> \<not> separate_value ''hg'' f)"
| "option_words prog ws = False"

lemma skip_option:
  "option_words prog os \<Longrightarrow> skip_vcs_options (os @ ws) = skip_vcs_options ws"
  by (induction prog os rule: option_words.induct)
    (auto simp: separate_value_def vcs_value_flags_def split: if_splits)

lemma skip_all_options:
  "list_all (option_words prog) opts \<Longrightarrow> skip_vcs_options (concat opts @ ws) = skip_vcs_options ws"
proof (induction opts)
  case (Cons opt opts)
  then show ?case
    using skip_option [of prog opt "concat opts @ ws"] by simp
qed simp

lemma direct_no_push:
  assumes "direct_command ws" "command_name (hd ws) \<in> {''git'', ''hg''}"
    "map unquote (tl ws) = concat opts @ ''push'' # rest" "list_all (option_words (command_name (hd ws))) opts"
  shows "\<not> fst (command_answer vs bodies ws w)"
proof
  assume "fst (command_answer vs bodies ws w)"
  then have "is_safe_git_or_hg (map unquote ws)"
    using direct_vcs [OF assms(1,2)] by blast
  moreover have "map unquote ws = unquote (hd ws) # map unquote (tl ws)"
    using direct_commandD(4) [OF assms(1)] by (cases ws) auto
  moreover have "skip_vcs_options (map unquote (tl ws)) = ''push'' # rest"
    unfolding assms(3) skip_all_options [OF assms(4)] by (simp add: vcs_value_flags_def)
  ultimately show False
    using git_subcommand by metis
qed

text \<open>An option that is not in this table is skipped alone, so what follows it is judged as if it were absent.\<close>

lemma option_dropped:
  assumes "direct_command (w # f # us)" "direct_command (w # us)" "command_name w \<in> {''git'', ''hg''}"
    "plain_word f" "option_words prog [f]"
  shows "item_answer vs bodies (w # f # us) = item_answer vs bodies (w # us)"
proof -
  have "arg_word f"
    using assms(4) by (rule plain_arg)
  then have f: "\<not> taken_off f" "\<not> redirects f"
    using arg_not_taken by (auto simp: taken_off_def)
  have w: "\<not> taken_off w" "\<not> redirects w"
    using assms(2) plain_not_taken by (auto simp: direct_command_def)
  have "unquote f = f"
    using assms(4) by (intro unquote_plain) (simp add: plain_word_def)
  then have "is_safe_git_or_hg (map unquote (w # f # us')) = is_safe_git_or_hg (map unquote (w # us'))" for us'
    using skip_option [OF assms(5), of "map unquote us'"] by simp
  moreover have "\<not> is_anchored_plugin_script (unquote w)"
    using assms(3) direct_not_anchored [OF assms(2)] by (auto simp: suffix_def dest: arg_cong [of _ _ length])
  moreover have "basename (unquote w) \<in> {''git'', ''hg''}"
    using assms(3) by (simp add: command_name_def)
  ultimately have "command_answer vs bodies (w # f # us') u = command_answer vs bodies (w # us') u" for us' u
    unfolding command_answer_def Let_def by (auto simp: path_writers_def)
  then show ?thesis
    using f w by (simp add: item_answer_def safe_targets_def)
qed

lemma script_option_dropped:
  assumes "script_ok (m, w # f # us, n) rest" "script_ok (m, w # us, n) rest" "command_name w \<in> {''git'', ''hg''}"
    "plain_word f" "option_words prog [f]" "depth \<le> 4"
  shows "evaluate_tier1_command depth (script_text (m, w # f # us, n) rest) =
    evaluate_tier1_command depth (script_text (m, w # us, n) rest)"
proof -
  have "plain_answer (w # f # us) = plain_answer (w # us)"
    using assms(1-5) by (intro option_dropped) (auto simp: script_ok_def items_of_def)
  then show ?thesis
    using script_answer [OF assms(1,6)] script_answer [OF assms(2,6)] by (simp add: script_items_def items_of_def)
qed

text \<open>Approval of a script from its commands and its targets.\<close>

lemma script_approvedI:
  assumes "script_ok c rest" "\<And>t. t \<in> set (script_targets c rest) \<Longrightarrow> is_safe_special_target t []"
    "\<And>ws w. ws \<in> set (script_commands c rest) \<Longrightarrow> fst (command_answer [] [] ws w)"
  shows "is_tier1_safe_command (script_text c rest)"
  unfolding script_approved [OF assms(1)] list_all_iff
proof
  fix items
  assume "items \<in> set (script_items c rest)"
  then have "args_of items \<in> set (script_commands c rest)"
    "\<And>t. t \<in> set (targets_of items) \<Longrightarrow> t \<in> set (script_targets c rest)"
    by (auto simp: script_commands_def script_targets_def)
  then show "fst (plain_answer items)"
    using assms(2,3) by (simp add: item_answer_def safe_targets_def list_all_iff)
qed

definition known_programs :: "string list" where
  "known_programs = SAFE_READ_COMMANDS @ path_writers @
     [''gradlew'', ''gradle'', ''sed'', ''awk'', ''gawk'', ''find'', ''fd'', ''curl'', ''gcloud'',
      ''kubectl'', ''tee'', ''git'', ''hg'', ''npx'', ''npm'', ''yarn'', ''pnpm'', ''cargo'', ''go'',
      ''node'', ''python'', ''python3'', ''swift'', ''bash'', ''sh'', ''zsh'']"

lemma answer_known:
  assumes "fst (command_answer vs bodies ws w)"
  shows "is_anchored_plugin_script (unquote (hd ws)) \<or> command_name (hd ws) \<in> set known_programs"
proof (rule ccontr)
  assume no: "\<not> ?thesis"
  then have "basename (unquote (hd ws)) \<notin> set known_programs"
    by (simp add: command_name_def)
  then have "command_answer vs bodies ws w = (False, w)"
    using no unfolding command_answer_def Let_def known_programs_def by simp
  then show False
    using assms by simp
qed

lemma program_no_script:
  "n \<in> set known_programs \<Longrightarrow> \<not> suffix ''.sh'' n \<and> \<not> suffix ''.py'' n"
proof -
  have "list_all (\<lambda>n. \<not> suffix ''.sh'' n \<and> \<not> suffix ''.py'' n) known_programs"
    by code_simp
  then show "n \<in> set known_programs \<Longrightarrow> \<not> suffix ''.sh'' n \<and> \<not> suffix ''.py'' n"
    by (simp add: list_all_iff)
qed

text \<open>
  The flags that let a reading program write or run another, as words: a cluster of one-letter flags
  with one of the given letters, after letters and digits only, or a spelling from a list.
\<close>

definition flag_cluster :: "string \<Rightarrow> string \<Rightarrow> bool" where
  "flag_cluster letters t \<longleftrightarrow> prefix ''-'' t \<and> list_ex (\<lambda>c. c \<in> set letters) (takeWhile is_alnum_az (tl t))"

definition acting_flag :: "string \<Rightarrow> string \<Rightarrow> bool" where
  "acting_flag name t \<longleftrightarrow>
     name = ''sed'' \<and> (prefix ''--in-place'' t \<or> flag_cluster ''i'' t) \<or>
     name \<in> {''awk'', ''gawk''} \<and> (prefix ''-i'' t \<or> t = ''inplace'') \<or>
     name = ''find'' \<and> t \<in> {''-delete'', ''-exec'', ''-execdir'', ''-ok'', ''-okdir'', ''-fls'', ''-fprint'', ''-fprint0''} \<or>
     name = ''fd'' \<and> (prefix ''--exec'' t \<or> flag_cluster ''xX'' t)"

definition reading_programs :: "string list" where
  "reading_programs = [''sed'', ''awk'', ''gawk'', ''find'', ''fd'']"

definition no_acting_flag :: "string list \<Rightarrow> bool" where
  "no_acting_flag ws \<longleftrightarrow> (\<forall>t \<in> set (tl ws). \<not> acting_flag (command_name (hd ws)) (unquote t))"

lemma flag_pattern:
  assumes r: "reads r (\<lambda>w. \<exists>c. w = [c] \<and> c \<in> set letters)" and letters: "\<And>l. l \<in> set letters \<Longrightarrow> is_alnum_az l"
  shows "re_match (seqs [Bos, chr CHR ''-'', star (Cls is_alnum_az), r]) t \<noteq> None \<longleftrightarrow> flag_cluster letters t"
proof -
  have "can r (b, x, []) \<longleftrightarrow> (\<exists>l z. x = l # z \<and> l \<in> set letters)" for b x
    unfolding can_reads [OF r] by auto
  then have "re_match (seqs [Bos, chr CHR ''-'', star (Cls is_alnum_az), r]) t \<noteq> None \<longleftrightarrow>
      (\<exists>v. t = CHR ''-'' # v \<and> (\<exists>w x. list_all is_alnum_az w \<and> v = w @ x \<and> (\<exists>l z. x = l # z \<and> l \<in> set letters)))"
    unfolding re_match_can seqs.simps can_bos can_seq [OF reads_chr] can_seq [OF reads_star_cls] by auto
  also have "\<dots> \<longleftrightarrow> (\<exists>v. t = CHR ''-'' # v \<and> (\<exists>ls l z. v = ls @ l # z \<and> list_all is_alnum_az ls \<and> l \<in> set letters))"
    by (intro ex_cong1) blast
  also have "\<dots> \<longleftrightarrow> (\<exists>v. t = CHR ''-'' # v \<and> list_ex (\<lambda>c. c \<in> set letters) (takeWhile is_alnum_az v))"
  proof -
    have "(\<exists>ls l z. v = ls @ l # z \<and> list_all is_alnum_az ls \<and> l \<in> set letters) \<longleftrightarrow>
        list_ex (\<lambda>c. c \<in> set letters) (takeWhile is_alnum_az v)" for v
      using letters by (rule ex_takeWhile)
    then show ?thesis
      by (simp only:)
  qed
  finally show ?thesis
    by (auto simp: flag_cluster_def prefix_def)
qed

lemma flags_of_readers:
  "sed_writes t \<longleftrightarrow> acting_flag ''sed'' t" "awk_writes t \<longleftrightarrow> acting_flag ''awk'' t"
  "awk_writes t \<longleftrightarrow> acting_flag ''gawk'' t" "find_acts t \<longleftrightarrow> acting_flag ''find'' t" "fd_acts t \<longleftrightarrow> acting_flag ''fd'' t"
proof -
  have letters: "l \<in> set ''i'' \<Longrightarrow> is_alnum_az l" "l \<in> set ''xX'' \<Longrightarrow> is_alnum_az l" for l
    by (auto simp: is_alnum_az_def is_alpha_az_code)
  have "reads (chr CHR ''i'') (\<lambda>w. \<exists>c. w = [c] \<and> c \<in> set ''i'')"
    using reads_chr by simp
  note i = flag_pattern [where letters = "''i''" and t = t, OF this letters(1), folded re_sed_inplace_def]
  note x = flag_pattern [where letters = "''xX''" and t = t, OF reads_one_of letters(2), folded re_fd_exec_def]
  show "sed_writes t \<longleftrightarrow> acting_flag ''sed'' t"
    using i by (simp add: acting_flag_def sed_writes_def)
  show awk: "awk_writes t \<longleftrightarrow> acting_flag ''awk'' t"
    by (auto simp: acting_flag_def awk_writes_def)
  then show "awk_writes t \<longleftrightarrow> acting_flag ''gawk'' t"
    by (simp add: acting_flag_def)
  show "find_acts t \<longleftrightarrow> acting_flag ''find'' t"
    by (auto simp: acting_flag_def find_acts_def)
  have "flag_cluster ''xX'' u" if "u \<in> {''-x'', ''-X''}" for u
  proof -
    have "flag_cluster ''xX'' ''-x''" "flag_cluster ''xX'' ''-X''"
      by code_simp+
    then show ?thesis
      using that by blast
  qed
  moreover have "prefix ''--exec'' u" if "u \<in> {''--exec'', ''--exec-batch''}" for u
    using that by auto
  ultimately have "t \<in> {''-x'', ''-X'', ''--exec'', ''--exec-batch''} \<longrightarrow> prefix ''--exec'' t \<or> flag_cluster ''xX'' t"
    by blast
  moreover have "acting_flag ''fd'' t \<longleftrightarrow> prefix ''--exec'' t \<or> flag_cluster ''xX'' t"
    by (simp add: acting_flag_def)
  ultimately show "fd_acts t \<longleftrightarrow> acting_flag ''fd'' t"
    unfolding fd_acts_def using x by blast
qed

lemma flag_tests: "sed_writes = acting_flag ''sed''" "awk_writes = acting_flag ''awk''" "acting_flag ''gawk'' = acting_flag ''awk''"
    "find_acts = acting_flag ''find''" "fd_acts = acting_flag ''fd''"
  using flags_of_readers by (auto intro!: ext)

lemma flag_reader_answer:
  assumes "direct_command ws" "command_name (hd ws) \<in> set reading_programs"
  shows "command_answer vs bodies ws w = (if no_acting_flag ws then (True, w) else refuse)"
proof -
  have "\<not> is_anchored_plugin_script (unquote (hd ws))"
    using direct_not_anchored [OF assms(1)] program_no_script [of "command_name (hd ws)"] assms(2)
    by (auto simp: known_programs_def reading_programs_def)
  moreover have "unless_flag (acting_flag (command_name (hd ws))) ws w = (if no_acting_flag ws then (True, w) else refuse)"
    by (auto simp: unless_flag_def no_acting_flag_def unquoted_args_def list_ex_iff)
  moreover consider "command_name (hd ws) = ''sed''" | "command_name (hd ws) = ''awk''"
    | "command_name (hd ws) = ''gawk''" | "command_name (hd ws) = ''find''" | "command_name (hd ws) = ''fd''"
    using assms(2) by (auto simp: reading_programs_def)
  then have "command_answer vs bodies ws w = unless_flag (acting_flag (command_name (hd ws))) ws w"
    if "\<not> is_anchored_plugin_script (unquote (hd ws))"
  proof cases
  qed (use that in \<open>simp_all add: command_answer_def Let_def command_name_def [symmetric] flag_tests\<close>)
  ultimately show ?thesis
    by simp
qed

lemma direct_reader_flags:
  assumes "direct_command ws" "fst (command_answer vs bodies ws w)" "command_name (hd ws) \<in> set reading_programs"
  shows "no_acting_flag ws"
  using flag_reader_answer [OF assms(1,3), of vs bodies w] assms(2) by (auto simp: refuse_def split: if_splits)

end
