(* ===== verification/Os_Fs.thy ===== *)
theory Os_Fs
  imports Py_String
begin

text \<open>
  The part of the operating system that the hooks look at: a tree of files, directories and
  symbolic links, the working directory, the home directories and the clock, with the
  functions of \<open>os.path\<close> that depend on them. A path is resolved into the list of its
  components; \<open>real_walk\<close> follows CPython's \<open>posixpath.realpath\<close>, its argument \<open>strict\<close>
  gives the resolution by the kernel, which fails where a component is missing.

  The laws say that a resolved path contains no link, no \<open>..\<close> and no separator inside a
  component, and that containment of paths as strings is containment as component lists.
\<close>

section \<open>The file tree\<close>

type_synonym comps = "string list"

datatype node = File string int \<comment> \<open>content and modification time\<close> | Dir | Link string

type_synonym tree = "(comps \<times> node) list"

fun is_link :: "node \<Rightarrow> bool" where
  "is_link (Link t) = True"
| "is_link n = False"

definition lookup :: "tree \<Rightarrow> comps \<Rightarrow> node option" where
  "lookup fs p = (if p = [] then Some Dir else map_of fs p)"

definition is_absolute :: "string \<Rightarrow> bool" where
  "is_absolute p \<longleftrightarrow> prefix ''/'' p"

definition comps_of :: "string \<Rightarrow> comps" where
  "comps_of p = split_on CHR ''/'' p"

definition pending_links :: "tree \<Rightarrow> comps list \<Rightarrow> nat" where
  "pending_links fs active = length (filter (\<lambda>(k, v). is_link v \<and> k \<notin> set active) fs)"

lemma pending_links_less:
  assumes "map_of fs k = Some (Link t)" "k \<notin> set active"
  shows "pending_links fs (k # active) < pending_links fs active"
proof -
  have "(k, Link t) \<in> set fs"
    using assms(1) by (rule map_of_SomeD)
  then obtain xs ys where fs: "fs = xs @ (k, Link t) # ys"
    by (auto simp: in_set_conv_decomp)
  have "length (filter (\<lambda>(k', v). is_link v \<and> k' \<notin> set (k # active)) zs)
      \<le> length (filter (\<lambda>(k', v). is_link v \<and> k' \<notin> set active) zs)" for zs :: tree
    by (induction zs) auto
  from this [of xs] this [of ys] show ?thesis
    using assms(2) by (simp add: pending_links_def fs)
qed

text \<open>
  \<open>active\<close> are the links being resolved, \<open>path\<close> the components resolved so far. The truth
  value is \<open>False\<close> where a link leads back to itself, and under \<open>strict\<close> where a component
  does not exist or is below a file.
\<close>

function real_walk :: "bool \<Rightarrow> tree \<Rightarrow> comps list \<Rightarrow> comps \<Rightarrow> comps \<Rightarrow> comps \<times> bool" where
  "real_walk strict fs active path [] = (path, True)"
| "real_walk strict fs active path (name # rest) =
     (if strict \<and> lookup fs path \<noteq> Some Dir then (path @ name # rest, False)
      else if name = [] \<or> name = ''.'' then real_walk strict fs active path rest
      else if name = ''..'' then real_walk strict fs active (butlast path) rest
      else
        (let new = path @ [name] in
         case map_of fs new of
           None \<Rightarrow> if strict then (new @ rest, False) else real_walk strict fs active new rest
         | Some (Link target) \<Rightarrow>
             if new \<in> set active then (new @ rest, False)
             else
               (case real_walk strict fs (new # active)
                       (if is_absolute target then [] else path) (comps_of target) of
                  (p, ok) \<Rightarrow> if ok then real_walk strict fs active p rest else (p @ rest, False))
         | Some _ \<Rightarrow> real_walk strict fs active new rest))"
  by pat_completeness auto
termination
  by (relation "(\<lambda>(strict, fs, active, path, rest). pending_links fs active) <*mlex*>
      measure (\<lambda>(strict, fs, active, path, rest). length rest)")
    (auto simp: wf_mlex mlex_iff pending_links_less)

declare real_walk.simps(2) [simp del]

text \<open>\<open>os.path.normpath\<close> on the components of an absolute path.\<close>

fun norm_comps :: "comps \<Rightarrow> comps \<Rightarrow> comps" where
  "norm_comps acc [] = acc"
| "norm_comps acc (c # cs) =
     (if c = [] \<or> c = ''.'' then norm_comps acc cs
      else if c = ''..'' then norm_comps (butlast acc) cs
      else norm_comps (acc @ [c]) cs)"

definition path_string :: "comps \<Rightarrow> string" where
  "path_string cs = ''/'' @ join ''/'' cs"

section \<open>The machine\<close>

record machine =
  files :: tree
  cwd :: comps
  home :: string
  users :: "(string \<times> string) list"
  clock :: int

text \<open>\<open>os.path.expanduser\<close>; \<open>users\<close> is the password database, \<open>home\<close> the variable \<open>HOME\<close>.\<close>

definition is_slash :: "char \<Rightarrow> bool" where
  "is_slash c \<longleftrightarrow> c = CHR ''/''"

definition or_root :: "string \<Rightarrow> string" where
  "or_root p = (if p = [] then ''/'' else p)"

definition expanduser :: "'a machine_scheme \<Rightarrow> string \<Rightarrow> string" where
  "expanduser m p =
     (case p of
        [] \<Rightarrow> []
      | c # cs \<Rightarrow>
          if c \<noteq> CHR ''~'' then p
          else
            (let name = takeWhile (\<lambda>c. \<not> is_slash c) cs; tail = dropWhile (\<lambda>c. \<not> is_slash c) cs in
             case (if name = [] then Some (home m) else map_of (users m) name) of
               None \<Rightarrow> p
             | Some dir \<Rightarrow> or_root (rstrip is_slash dir @ tail)))"

definition start_of :: "'a machine_scheme \<Rightarrow> string \<Rightarrow> comps" where
  "start_of m p = (if is_absolute p then [] else cwd m)"

text \<open>\<open>os.path.realpath\<close>, as components and as the string the code gets.\<close>

definition real_comps :: "'a machine_scheme \<Rightarrow> string \<Rightarrow> comps" where
  "real_comps m p = norm_comps [] (fst (real_walk False (files m) [] (start_of m p) (comps_of p)))"

definition realpath :: "'a machine_scheme \<Rightarrow> string \<Rightarrow> string" where
  "realpath m p = path_string (real_comps m p)"

text \<open>What the kernel finds at a path: \<open>os.path.exists\<close>, \<open>isfile\<close>, \<open>isdir\<close>, \<open>getmtime\<close>, reading.\<close>

definition stat_node :: "'a machine_scheme \<Rightarrow> string \<Rightarrow> node option" where
  "stat_node m p =
     (if p = [] then None
      else
        (case real_walk True (files m) [] (start_of m p) (comps_of p) of
           (path, ok) \<Rightarrow> if ok then lookup (files m) path else None))"

definition path_exists :: "'a machine_scheme \<Rightarrow> string \<Rightarrow> bool" where
  "path_exists m p \<longleftrightarrow> stat_node m p \<noteq> None"

definition is_file :: "'a machine_scheme \<Rightarrow> string \<Rightarrow> bool" where
  "is_file m p \<longleftrightarrow> (case stat_node m p of Some (File t n) \<Rightarrow> True | _ \<Rightarrow> False)"

definition is_dir :: "'a machine_scheme \<Rightarrow> string \<Rightarrow> bool" where
  "is_dir m p \<longleftrightarrow> stat_node m p = Some Dir"

definition read_file :: "'a machine_scheme \<Rightarrow> string \<Rightarrow> string option" where
  "read_file m p = (case stat_node m p of Some (File t n) \<Rightarrow> Some t | _ \<Rightarrow> None)"

definition nl :: char where
  "nl = CHR 0x0A"

text \<open>\<open>read_text\<close> gives the text with every line end turned into a newline.\<close>

fun universal :: "string \<Rightarrow> string" where
  "universal [] = []"
| "universal (c # s) =
     (if c = CHR 0x0D then nl # (case s of [] \<Rightarrow> [] | d # t \<Rightarrow> if d = nl then universal t else universal s)
      else c # universal s)"

definition read_text :: "'a machine_scheme \<Rightarrow> string \<Rightarrow> string option" where
  "read_text m p = map_option universal (read_file m p)"

text \<open>\<open>os.path.join\<close>.\<close>

definition path_join :: "string \<Rightarrow> string \<Rightarrow> string" where
  "path_join a b =
     (if is_absolute b then b
      else if a = [] \<or> suffix ''/'' a then a @ b
      else a @ ''/'' @ b)"

section \<open>Resolved paths\<close>

text \<open>A component of a resolved path: not empty, no dots, no separator.\<close>

definition clean_comp :: "string \<Rightarrow> bool" where
  "clean_comp c \<longleftrightarrow> c \<noteq> [] \<and> c \<noteq> ''.'' \<and> c \<noteq> ''..'' \<and> CHR ''/'' \<notin> set c"

definition slash_free :: "comps \<Rightarrow> bool" where
  "slash_free cs \<longleftrightarrow> list_all (\<lambda>c. CHR ''/'' \<notin> set c) cs"

lemma slash_free_simps [simp]:
  "slash_free []"
  "slash_free (c # cs) \<longleftrightarrow> CHR ''/'' \<notin> set c \<and> slash_free cs"
  "slash_free (cs @ ds) \<longleftrightarrow> slash_free cs \<and> slash_free ds"
  by (simp_all add: slash_free_def)

lemma slash_free_butlast: "slash_free cs \<Longrightarrow> slash_free (butlast cs)"
  unfolding slash_free_def by (rule list_all_butlast)

lemma slash_free_comps_of: "slash_free (comps_of p)"
  unfolding slash_free_def comps_of_def list_all_iff using split_on_free by auto

lemma norm_comps_clean:
  "slash_free cs \<Longrightarrow> list_all clean_comp acc \<Longrightarrow> list_all clean_comp (norm_comps acc cs)"
proof (induction acc cs rule: norm_comps.induct)
  case (2 acc c cs)
  consider "c = [] \<or> c = ''.''" | "c = ''..''" | "clean_comp c"
    using 2(4) by (auto simp: clean_comp_def)
  then show ?case
  proof cases
    case 2
    then show ?thesis
      using "2.IH"(2) "2.prems" list_all_butlast [of clean_comp acc] by simp
  next
    case 3
    then have "norm_comps acc (c # cs) = norm_comps (acc @ [c]) cs"
      by (auto simp: clean_comp_def)
    then show ?thesis
      using "2.IH"(3) "2.prems" 3 by (auto simp: clean_comp_def)
  qed (use 2 in auto)
qed simp

lemma norm_comps_id: "list_all clean_comp cs \<Longrightarrow> norm_comps acc cs = acc @ cs"
  by (induction cs arbitrary: acc) (auto simp: clean_comp_def)

lemma real_walk_free:
  "slash_free path \<Longrightarrow> slash_free cs \<Longrightarrow> slash_free (fst (real_walk strict fs active path cs))"
proof (induction strict fs active path cs rule: real_walk.induct)
  case (2 strict fs active path name rest)
  let ?new = "path @ [name]"
  have rest: "slash_free ?new" "slash_free rest" "slash_free (butlast path)"
    using "2.prems" slash_free_butlast by auto
  consider "strict \<and> lookup fs path \<noteq> Some Dir" | "name \<in> {[], ''.'', ''..''}"
    | "\<not> (strict \<and> lookup fs path \<noteq> Some Dir)" "name \<notin> {[], ''.'', ''..''}"
    by blast
  then show ?case
  proof cases
    case 1
    then show ?thesis
      using "2.prems" by (simp add: real_walk.simps)
  next
    case 2
    then show ?thesis
      using "2.IH"(1,2) "2.prems" rest by (auto simp: real_walk.simps)
  next
    case 3
    note step = real_walk.simps(2) [of strict fs active path name rest, unfolded Let_def] and
      IH = "2.IH"(3-) [OF 3(1) _ _ refl]
    show ?thesis
    proof (cases "map_of fs ?new")
      case None
      then show ?thesis
        using 3 rest IH(1) by (simp add: step)
    next
      case (Some v)
      show ?thesis
      proof (cases v)
        case (Link t)
        obtain p ok where w: "real_walk strict fs (?new # active)
            (if is_absolute t then [] else path) (comps_of t) = (p, ok)"
          by (cases "real_walk strict fs (?new # active) (if is_absolute t then [] else path) (comps_of t)")
        show ?thesis
          using 3 rest IH(4,5) Some Link w "2.prems" slash_free_comps_of [of t]
          by (cases "?new \<in> set active"; cases ok) (auto simp: step)
      qed (use 3 rest IH(2,3) Some in \<open>auto simp: step\<close>)
    qed
  qed
qed simp

text \<open>A machine whose working directory is a resolved path.\<close>

definition machine_ok :: "'a machine_scheme \<Rightarrow> bool" where
  "machine_ok m \<longleftrightarrow> list_all clean_comp (cwd m)"

lemma real_comps_clean:
  assumes "machine_ok m"
  shows "list_all clean_comp (real_comps m p)"
proof -
  have "slash_free (start_of m p)"
    using assms by (auto simp: start_of_def machine_ok_def slash_free_def list_all_iff clean_comp_def)
  then show ?thesis
    unfolding real_comps_def
    by (intro norm_comps_clean real_walk_free slash_free_comps_of) simp_all
qed

text \<open>The string of a resolved path determines its components.\<close>

lemma comps_of_path_string:
  assumes "slash_free cs"
  shows "comps_of (path_string cs) = (if cs = [] then [[], []] else [] # cs)"
proof -
  have "split_on CHR ''/'' (join ''/'' cs) = (if cs = [] then [[]] else cs)"
    using assms
  proof (induction cs rule: induct_list012)
    case (3 c d cs)
    then show ?case
      using split_on_append_sep [of "CHR ''/''" c "join ''/'' (d # cs)"] by (simp add: split_on_no_sep)
  qed (simp_all add: split_on_no_sep)
  then show ?thesis
    by (simp add: comps_of_def path_string_def)
qed

lemma path_string_inject:
  "list_all clean_comp cs \<Longrightarrow> list_all clean_comp ds \<Longrightarrow>
     path_string cs = path_string ds \<longleftrightarrow> cs = ds"
proof
  assume clean: "list_all clean_comp cs" "list_all clean_comp ds" and eq: "path_string cs = path_string ds"
  have "slash_free cs" "slash_free ds"
    using clean by (auto simp: slash_free_def list_all_iff clean_comp_def)
  then have "(if cs = [] then [[], []] else [] # cs) = (if ds = [] then [[], []] else [] # ds)"
    using comps_of_path_string [of cs] comps_of_path_string [of ds] eq by simp
  then show "cs = ds"
    using clean by (auto simp: clean_comp_def split: if_splits)
qed simp

text \<open>
  The containment test \<^verbatim>\<open>a == b or a.startswith(b + os.sep)\<close> of the code, for resolved paths:
  it is containment in the tree, except that nothing but the root itself is inside the root.
\<close>

definition inside :: "string \<Rightarrow> string \<Rightarrow> bool" where
  "inside p ws \<longleftrightarrow> p = ws \<or> prefix (ws @ ''/'') p"

lemma path_string_Cons: "path_string (c # cs) = ''/'' @ c @ (if cs = [] then [] else path_string cs)"
  by (cases cs) (simp_all add: path_string_def)

lemma path_string_append:
  "cs \<noteq> [] \<Longrightarrow> path_string (cs @ ds) = path_string cs @ (if ds = [] then [] else path_string ds)"
proof (induction cs)
  case (Cons c cs)
  then show ?case
    by (cases "cs = []") (simp_all add: path_string_Cons [of c])
qed simp

text \<open>On resolved paths \<open>dirname\<close> drops the last component.\<close>

lemma path_string_snoc: "path_string (cs @ [c]) = (if cs = [] then [] else path_string cs) @ CHR ''/'' # c"
  by (cases "cs = []") (simp_all add: path_string_append, simp_all add: path_string_def)

lemma path_string_last:
  assumes "list_all clean_comp cs" "cs \<noteq> []"
  shows "\<exists>u x. path_string cs = u @ [x] \<and> x \<noteq> CHR ''/''"
proof -
  obtain ds c where cs: "cs = ds @ [c]"
    using assms(2) rev_exhaust by blast
  obtain v x where "c = v @ [x]" "x \<noteq> CHR ''/''"
    using assms(1) by (cases c rule: rev_cases) (auto simp: cs clean_comp_def)
  then show ?thesis
    by (simp add: cs path_string_snoc)
qed

lemma dirname_path_string:
  assumes "list_all clean_comp (cs @ [c])"
  shows "dirname (path_string (cs @ [c])) = path_string cs"
proof -
  let ?x = "if cs = [] then [] else path_string cs"
  let ?slash = "\<lambda>c. c = CHR ''/''"
  have "CHR ''/'' \<notin> set (rev c)"
    using assms by (simp add: clean_comp_def)
  then have "dropWhile (\<lambda>c. c \<noteq> CHR ''/'') (rev c @ CHR ''/'' # rev ?x) = CHR ''/'' # rev ?x"
    by (subst dropWhile_append2) auto
  then have head: "rev (dropWhile (\<lambda>c. c \<noteq> CHR ''/'') (rev (path_string (cs @ [c])))) = ?x @ ''/''"
    by (simp add: path_string_snoc)
  show ?thesis
  proof (cases "cs = []")
    case True
    then show ?thesis
      unfolding dirname_def Let_def head by (simp add: path_string_def)
  next
    case False
    then obtain u x where u: "path_string cs = u @ [x]" "x \<noteq> CHR ''/''"
      using path_string_last [of cs] assms by auto
    have "rstrip ?slash (path_string cs @ ''/'') = path_string cs"
      by (simp add: rstrip_def u)
    then show ?thesis
      unfolding dirname_def Let_def head using False u by simp
  qed
qed

theorem inside_iff:
  assumes "list_all clean_comp cs" "list_all clean_comp ws"
  shows "inside (path_string cs) (path_string ws) \<longleftrightarrow> (if ws = [] then cs = [] else prefix ws cs)"
proof -
  have eq: "path_string cs = path_string ws \<longleftrightarrow> cs = ws"
    by (rule path_string_inject [OF assms])
  show ?thesis
  proof (cases "ws = []")
    case True
    have "\<not> prefix (path_string [] @ ''/'') (path_string cs)"
    proof (cases cs)
      case (Cons c cs')
      then obtain x xs where "c = x # xs" "x \<noteq> CHR ''/''"
        using assms(1) by (cases c) (auto simp: clean_comp_def)
      then show ?thesis
        by (simp add: Cons path_string_Cons path_string_def [of "[]"])
    qed (simp add: path_string_def)
    then show ?thesis
      using True eq by (simp add: inside_def)
  next
    case False
    have "prefix (path_string ws @ ''/'') (path_string cs) \<longleftrightarrow> strict_prefix ws cs" (is "?l \<longleftrightarrow> ?r")
    proof
      assume ?r
      then obtain ds where "cs = ws @ ds" "ds \<noteq> []"
        by (auto simp: strict_prefix_def prefix_def)
      then show ?l
        using False by (simp add: path_string_append) (simp add: path_string_def)
    next
      assume ?l
      then obtain z where z: "path_string cs = path_string ws @ CHR ''/'' # z"
        by (auto simp: prefix_def)
      have "comps_of (path_string cs) = comps_of (path_string ws) @ comps_of z"
        unfolding z comps_of_def by (rule split_on_append_sep)
      moreover have "slash_free cs" "slash_free ws"
        using assms by (auto simp: slash_free_def list_all_iff clean_comp_def)
      moreover have "cs \<noteq> []"
      proof
        assume "cs = []"
        then have "path_string ws @ CHR ''/'' # z = ''/''"
          using z by (simp add: path_string_def)
        then show False
          by (simp add: path_string_def)
      qed
      moreover have "comps_of z \<noteq> []"
        unfolding comps_of_def by (cases z) (auto split: list.splits)
      ultimately have "cs = ws @ comps_of z"
        using comps_of_path_string [of cs] comps_of_path_string [of ws] False by simp
      then show ?r
        using \<open>comps_of z \<noteq> []\<close> by (auto simp: strict_prefix_def)
    qed
    then show ?thesis
      using False eq by (auto simp: inside_def strict_prefix_def)
  qed
qed

end
