(* ===== verification/Py_Json.thy ===== *)
theory Py_Json
  imports Py_String
begin

text \<open>
  JSON values as Python holds them after \<open>json.load\<close>, with the dynamically typed operations
  the hooks apply to them. An operation on a value of the wrong type is the exception Python
  raises. Numbers are integers; a dictionary has each key once.
\<close>

datatype json =
    JNull
  | JBool bool
  | JNum int
  | JStr string
  | JArr "json list"
  | JObj "(string \<times> json) list"

text \<open>\<open>bool(v)\<close> and \<open>a or b\<close>.\<close>

fun truthy :: "json \<Rightarrow> bool" where
  "truthy JNull = False"
| "truthy (JBool b) = b"
| "truthy (JNum n) = (n \<noteq> 0)"
| "truthy (JStr s) = (s \<noteq> [])"
| "truthy (JArr xs) = (xs \<noteq> [])"
| "truthy (JObj kvs) = (kvs \<noteq> [])"

definition py_or :: "json \<Rightarrow> json \<Rightarrow> json" where
  "py_or a b = (if truthy a then a else b)"

text \<open>\<open>v.get(k, d)\<close>, where \<open>v\<close> need not be a dictionary.\<close>

fun get_or :: "json \<Rightarrow> string \<Rightarrow> json \<Rightarrow> json result" where
  "get_or (JObj kvs) k d = Inr (case map_of kvs k of None \<Rightarrow> d | Some v \<Rightarrow> v)"
| "get_or v k d = Inl AttributeError"

abbreviation get :: "json \<Rightarrow> string \<Rightarrow> json result" where
  "get v k \<equiv> get_or v k JNull"

text \<open>A string method on a value: \<open>AttributeError\<close> on anything else.\<close>

fun as_str :: "json \<Rightarrow> string result" where
  "as_str (JStr s) = Inr s"
| "as_str v = Inl AttributeError"

text \<open>A library function that wants a string: \<open>TypeError\<close> on anything else.\<close>

fun str_arg :: "json \<Rightarrow> string result" where
  "str_arg (JStr s) = Inr s"
| "str_arg v = Inl TypeError"

text \<open>\<open>list(v)\<close>.\<close>

fun list_of :: "json \<Rightarrow> json list result" where
  "list_of (JArr xs) = Inr xs"
| "list_of (JStr s) = Inr (map (\<lambda>c. JStr [c]) s)"
| "list_of (JObj kvs) = Inr (map (JStr \<circ> fst) kvs)"
| "list_of v = Inl TypeError"

text \<open>\<open>a or b or \<dots>\<close> over the values of several keys.\<close>

fun get_first :: "json \<Rightarrow> string list \<Rightarrow> json result" where
  "get_first v [] = Inr (JStr [])"
| "get_first v (k # ks) =
     bind_res (get v k) (\<lambda>x. if truthy x then Inr x else get_first v ks)"

text \<open>\<open>d[k] = v\<close>.\<close>

definition set_key :: "string \<Rightarrow> json \<Rightarrow> (string \<times> json) list \<Rightarrow> (string \<times> json) list" where
  "set_key k v kvs =
     (if map_of kvs k = None then kvs @ [(k, v)]
      else map (\<lambda>(k', v'). if k' = k then (k', v) else (k', v')) kvs)"

lemma map_of_set_key: "map_of (set_key k v kvs) = (map_of kvs)(k \<mapsto> v)"
proof -
  have "map_of (map (\<lambda>(k', v'). if k' = k then (k', v) else (k', v')) kvs) k' =
      (if k' = k \<and> map_of kvs k \<noteq> None then Some v else map_of kvs k')" for k'
    by (induction kvs) auto
  then show ?thesis
    by (auto simp: set_key_def fun_eq_iff map_add_def split: option.splits)
qed

section \<open>Text of values\<close>

text \<open>\<open>str(n)\<close>.\<close>

fun nat_text :: "nat \<Rightarrow> string" where
  "nat_text n = (if n < 10 then [char_of (48 + n)] else nat_text (n div 10) @ [char_of (48 + n mod 10)])"

declare nat_text.simps [simp del]

definition int_text :: "int \<Rightarrow> string" where
  "int_text n = (if n < 0 then CHR ''-'' # nat_text (nat (- n)) else nat_text (nat n))"

text \<open>
  \<open>repr(s)\<close>: single quotes unless the text has one and no double quote; control characters and
  the unprintable ones of the upper half are escaped.
\<close>

definition hex_digit :: "nat \<Rightarrow> char" where
  "hex_digit n = char_of (if n < 10 then 48 + n else 87 + n)"

definition unprintable :: "char \<Rightarrow> bool" where
  "unprintable c \<longleftrightarrow> code c < 32 \<or> 127 \<le> code c \<and> code c \<le> 160 \<or> code c = 173"

definition repr_char :: "char \<Rightarrow> char \<Rightarrow> string" where
  "repr_char q c =
     (if c = q \<or> c = CHR 0x5C then [CHR 0x5C, c]
      else if c = CHR 0x0A then [CHR 0x5C, CHR ''n'']
      else if c = CHR 0x0D then [CHR 0x5C, CHR ''r'']
      else if c = CHR 0x09 then [CHR 0x5C, CHR ''t'']
      else if unprintable c then
        [CHR 0x5C, CHR ''x'', hex_digit (code c div 16), hex_digit (code c mod 16)]
      else [c])"

definition repr_str :: "string \<Rightarrow> string" where
  "repr_str s =
     (let q = (if CHR 0x27 \<in> set s \<and> CHR ''\"'' \<notin> set s then CHR ''\"'' else CHR 0x27) in
      [q] @ concat (map (repr_char q) s) @ [q])"

fun py_repr :: "json \<Rightarrow> string" where
  "py_repr JNull = ''None''"
| "py_repr (JBool b) = (if b then ''True'' else ''False'')"
| "py_repr (JNum n) = int_text n"
| "py_repr (JStr s) = repr_str s"
| "py_repr (JArr xs) = ''['' @ join '', '' (map py_repr xs) @ '']''"
| "py_repr (JObj kvs) = ''{'' @ join '', '' (map (\<lambda>kv. repr_str (fst kv) @ '': '' @ py_repr (snd kv)) kvs) @ ''}''"

fun py_str :: "json \<Rightarrow> string" where
  "py_str (JStr s) = s"
| "py_str v = py_repr v"

text \<open>\<open>isinstance(v, int)\<close> and the number: truth values are integers.\<close>

fun int_value :: "json \<Rightarrow> int option" where
  "int_value (JNum n) = Some n"
| "int_value (JBool b) = Some (if b then 1 else 0)"
| "int_value v = None"

text \<open>
  \<open>s.upper()\<close>. The two characters whose upper case is beyond Latin-1 are left alone.
\<close>

definition upper_char :: "char \<Rightarrow> string" where
  "upper_char c =
     (if 97 \<le> code c \<and> code c \<le> 122 \<or> 224 \<le> code c \<and> code c \<le> 254 \<and> code c \<noteq> 247
      then [char_of (code c - 32)]
      else if code c = 223 then ''SS'' else [c])"

definition upper :: "string \<Rightarrow> string" where
  "upper s = concat (map upper_char s)"

end
