(* ===== verification/Guard_Workspace.thy ===== *)
theory Guard_Workspace
  imports Guard_Targets Os_Fs Py_Json
begin

text \<open>
  The part of \<open>autonomous-exec-hook.py\<close> that looks at the file system: the marker of an
  autonomous run, the repository that encloses a path, the effective workspaces of a payload
  and \<open>is_path_in_workspace_or_special\<close>.
\<close>

section \<open>The state the hook reads and writes\<close>

text \<open>
  \<open>marker_env\<close> is the variable \<open>CC_THINGZ_AUTONOMOUS_MARKER\<close>, \<open>cache\<close> what \<open>json.load\<close> gives
  for the subagent cache (nothing when it is missing or malformed). \<open>on_path\<close> is the answer
  of \<open>shutil.which\<close> and \<open>agentapi\<close> what running the program at a path prints for a
  conversation, parsed (nothing on a failure, a timeout or output that is not JSON).
  \<open>cache_fails\<close> and \<open>log_fails\<close> say whether opening the cache and the audit log for writing raises.
\<close>

record audit_entry =
  audit_conversation :: json
  audit_tool :: string
  audit_target :: json
  audit_decision :: string

record hook_machine = machine +
  marker_env :: "string option"
  cache :: "json option"
  on_path :: "string option"
  agentapi :: "string \<Rightarrow> string \<Rightarrow> json option"
  audit :: "audit_entry list"
  cache_fails :: bool
  log_fails :: bool

definition get_autonomous_marker :: "hook_machine \<Rightarrow> string" where
  "get_autonomous_marker m =
     (case marker_env m of
        Some p \<Rightarrow> p
      | None \<Rightarrow> expanduser m ''~/.gemini/config/plugins_data/cc-thingz/autonomous-active'')"

definition ACTIVE_WINDOW_SECONDS :: int where
  "ACTIVE_WINDOW_SECONDS = 6 * 3600"

text \<open>A marker that is a directory cannot be read, so its age does not matter.\<close>

definition get_active_marker_workspace :: "hook_machine \<Rightarrow> string" where
  "get_active_marker_workspace m =
     (case stat_node m (get_autonomous_marker m) of
        Some (File content mtime) \<Rightarrow>
          if clock m - mtime < ACTIVE_WINDOW_SECONDS \<and> trim (universal content) \<noteq> []
          then realpath m (expanduser m (trim (universal content))) else []
      | _ \<Rightarrow> [])"

section \<open>The enclosing repository\<close>

definition has_vcs :: "'a machine_scheme \<Rightarrow> string \<Rightarrow> bool" where
  "has_vcs m d \<longleftrightarrow> path_exists m (path_join d ''.git'') \<or> path_exists m (path_join d ''.hg'')"

function vcs_walk :: "'a machine_scheme \<Rightarrow> string \<Rightarrow> string" where
  "vcs_walk m here =
     (if here = [] \<or> here = ''/'' then []
      else if has_vcs m here then here
      else if dirname here = here then []
      else vcs_walk m (dirname here))"
  by pat_completeness auto
termination
  by (relation "measure (\<lambda>(m, here). length here)") (auto intro: dirname_shorter)

declare vcs_walk.simps [simp del]

definition find_enclosing_vcs_root :: "'a machine_scheme \<Rightarrow> string \<Rightarrow> string" where
  "find_enclosing_vcs_root m path_str =
     (let here = realpath m (expanduser m path_str) in
      vcs_walk m (if is_file m here then dirname here else here))"

section \<open>Effective workspaces\<close>

definition add_new :: "string \<Rightarrow> string list \<Rightarrow> string list" where
  "add_new p ws = (if p \<in> set ws then ws else ws @ [p])"

definition add_workspace :: "hook_machine \<Rightarrow> string list \<Rightarrow> string \<Rightarrow> string list" where
  "add_workspace m ws p =
     (let real_p = realpath m (expanduser m p);
          vcs_root = find_enclosing_vcs_root m real_p;
          ws' = add_new real_p ws in
      if vcs_root \<noteq> [] then add_new vcs_root ws' else ws')"

fun add_workspaces :: "hook_machine \<Rightarrow> string list \<Rightarrow> json list \<Rightarrow> string list result" where
  "add_workspaces m ws [] = Inr ws"
| "add_workspaces m ws (p # ps) =
     (if \<not> truthy p then add_workspaces m ws ps
      else bind_res (str_arg p) (\<lambda>s. add_workspaces m (add_workspace m ws s) ps))"

definition get_effective_workspaces :: "hook_machine \<Rightarrow> json \<Rightarrow> string list result" where
  "get_effective_workspaces m payload =
     bind_res (get payload ''workspacePaths'') (\<lambda>w.
     bind_res (if truthy w then list_of w else Inr []) (\<lambda>raw.
     bind_res (get payload ''artifactDirectoryPath'') (\<lambda>art.
       (let marker_ws = get_active_marker_workspace m in
        add_workspaces m [] (raw @ (if marker_ws \<noteq> [] then [JStr marker_ws] else [])
          @ (if truthy art then [art] else []))))))"

definition is_path_in_workspace_or_special :: "hook_machine \<Rightarrow> json \<Rightarrow> json \<Rightarrow> bool result" where
  "is_path_in_workspace_or_special m target payload =
     (if \<not> truthy target then Inr False
      else
        bind_res (as_str target) (\<lambda>t.
          (let cleaned = unquote t; real_target = realpath m (expanduser m cleaned) in
           if has_dotdot cleaned then Inr False
           else if is_safe_special_target cleaned [] \<and> is_safe_special_target real_target []
           then Inr True
           else bind_res (get_effective_workspaces m payload)
             (\<lambda>wss. Inr (list_ex (inside real_target) wss)))))"

section \<open>Laws\<close>

text \<open>The repository found is a directory on the way up that holds a repository.\<close>

lemma vcs_walk_found:
  "vcs_walk m here = r \<Longrightarrow> r \<noteq> [] \<Longrightarrow> has_vcs m r \<and> (\<exists>k. r = (dirname ^^ k) here)"
proof (induction m here rule: vcs_walk.induct)
  case (1 m here)
  show ?case
  proof (cases "has_vcs m here \<or> here = [] \<or> here = ''/'' \<or> dirname here = here")
    case True
    then have "r = here \<and> has_vcs m here"
      using "1.prems" by (auto simp: vcs_walk.simps [of m here] split: if_splits)
    then show ?thesis
      by (auto intro: exI [of _ 0])
  next
    case False
    then have "vcs_walk m (dirname here) = r"
      using "1.prems" by (simp add: vcs_walk.simps [of m here])
    then obtain k where "has_vcs m r" "r = (dirname ^^ k) (dirname here)"
      using "1.IH" False "1.prems"(2) by blast
    then show ?thesis
      by (auto intro: exI [of _ "Suc k"] simp: funpow_swap1)
  qed
qed

lemma add_new_distinct: "distinct ws \<Longrightarrow> distinct (add_new p ws)"
  by (simp add: add_new_def)

lemma add_workspace_distinct: "distinct ws \<Longrightarrow> distinct (add_workspace m ws p)"
  by (simp add: add_workspace_def Let_def add_new_distinct)

lemma add_workspaces_distinct:
  "add_workspaces m ws ps = Inr r \<Longrightarrow> distinct ws \<Longrightarrow> distinct r"
  by (induction m ws ps rule: add_workspaces.induct)
    (auto simp: bind_res_eq_Inr add_workspace_distinct split: if_splits)

lemma effective_workspaces_distinct:
  "get_effective_workspaces m payload = Inr wss \<Longrightarrow> distinct wss"
  by (auto simp: get_effective_workspaces_def bind_res_eq_Inr Let_def dest!: add_workspaces_distinct)

text \<open>Where an approved file lies.\<close>

lemma path_in_workspace:
  assumes "is_path_in_workspace_or_special m target payload = Inr True"
  obtains t where "target = JStr t" "\<not> has_dotdot (unquote t)"
    "is_safe_special_target (unquote t) [] \<and> is_safe_special_target (realpath m (expanduser m (unquote t))) []
     \<or> (\<exists>wss ws. get_effective_workspaces m payload = Inr wss \<and> ws \<in> set wss \<and>
          inside (realpath m (expanduser m (unquote t))) ws)"
proof -
  obtain t where t: "target = JStr t" "t \<noteq> []"
    using assms by (cases target) (auto simp: is_path_in_workspace_or_special_def split: if_splits)
  then show ?thesis
    using assms that [of t]
    by (auto simp: is_path_in_workspace_or_special_def Let_def bind_res_eq_Inr list_ex_iff
        split: if_splits)
qed

lemma path_traversal_refused:
  "has_dotdot (unquote t) \<Longrightarrow> is_path_in_workspace_or_special m (JStr t) payload = Inr False"
  by (simp add: is_path_in_workspace_or_special_def)

section \<open>Confinement as component lists\<close>

definition resolved :: "string \<Rightarrow> bool" where
  "resolved p \<longleftrightarrow> (\<exists>cs. list_all clean_comp cs \<and> p = path_string cs)"

lemma resolved_realpath: "machine_ok m \<Longrightarrow> resolved (realpath m p)"
  unfolding resolved_def realpath_def using real_comps_clean by blast

lemma resolved_dirname: "resolved p \<Longrightarrow> resolved (dirname p)"
proof -
  assume "resolved p"
  then obtain cs where cs: "list_all clean_comp cs" "p = path_string cs"
    by (auto simp: resolved_def)
  show "resolved (dirname p)"
  proof (cases cs rule: rev_cases)
    case Nil
    have "dirname (path_string []) = path_string []"
      by (simp add: dirname_def path_string_def)
    then show ?thesis
      using cs Nil by (auto simp: resolved_def intro!: exI [of _ "[]"])
  next
    case (snoc ds c)
    then show ?thesis
      using cs dirname_path_string [of ds c] by (auto simp: resolved_def)
  qed
qed

lemma resolved_vcs_walk: "resolved p \<Longrightarrow> vcs_walk m p \<noteq> [] \<Longrightarrow> resolved (vcs_walk m p)"
proof (induction m p rule: vcs_walk.induct)
  case (1 m p)
  then show ?case
    using resolved_dirname [of p] by (subst vcs_walk.simps) (auto simp: vcs_walk.simps [of m p] split: if_splits)
qed

lemma resolved_root: "machine_ok m \<Longrightarrow> find_enclosing_vcs_root m p \<noteq> [] \<Longrightarrow> resolved (find_enclosing_vcs_root m p)"
  unfolding find_enclosing_vcs_root_def Let_def
  by (rule resolved_vcs_walk) (auto intro: resolved_realpath resolved_dirname)

lemma resolved_add_workspace:
  "machine_ok m \<Longrightarrow> list_all resolved ws \<Longrightarrow> list_all resolved (add_workspace m ws p)"
  by (auto simp: add_workspace_def Let_def add_new_def resolved_realpath resolved_root)

lemma resolved_add_workspaces:
  "add_workspaces m ws ps = Inr r \<Longrightarrow> machine_ok m \<Longrightarrow> list_all resolved ws \<Longrightarrow> list_all resolved r"
  by (induction m ws ps rule: add_workspaces.induct)
    (auto simp: bind_res_eq_Inr resolved_add_workspace split: if_splits)

lemma resolved_workspaces:
  "get_effective_workspaces m payload = Inr wss \<Longrightarrow> machine_ok m \<Longrightarrow> list_all resolved wss"
  by (auto simp: get_effective_workspaces_def bind_res_eq_Inr Let_def dest!: resolved_add_workspaces)

text \<open>
  An approved file that is not below a special path lies, links resolved, inside a resolved
  workspace directory.
\<close>

lemma workspace_confined:
  assumes "is_path_in_workspace_or_special m (JStr t) payload = Inr True" "machine_ok m"
    "\<not> is_safe_special_target (unquote t) []"
  shows "\<exists>wss ws. get_effective_workspaces m payload = Inr wss \<and> path_string ws \<in> set wss \<and>
    prefix ws (real_comps m (expanduser m (unquote t)))"
proof -
  obtain wss p where p: "get_effective_workspaces m payload = Inr wss" "p \<in> set wss"
    "inside (realpath m (expanduser m (unquote t))) p"
    by (rule path_in_workspace [OF assms(1)]) (use assms(3) that in auto)
  then obtain ws where ws: "list_all clean_comp ws" "p = path_string ws"
    using resolved_workspaces [OF p(1) assms(2)] by (auto simp: list_all_iff resolved_def)
  have "prefix ws (real_comps m (expanduser m (unquote t)))"
    using p(3) inside_iff [OF real_comps_clean [OF assms(2)] ws(1)]
    unfolding ws(2) realpath_def by (auto split: if_splits)
  then show ?thesis
    using p ws by blast
qed

end
