(* ===== verification/Guard_Hook.thy ===== *)
theory Guard_Hook
  imports Guard_Script Guard_Workspace
begin

text \<open>
  The decision of \<open>autonomous-exec-hook.py\<close> on a tool call: whether the conversation is a
  spawned subagent, whether an autonomous run is active, \<open>evaluate_hook\<close> and \<open>main\<close> with its
  audit log. Exceptions are values; \<open>main\<close> turns every one into the answer \<open>ask\<close>.
\<close>

section \<open>Subagents\<close>

definition AGENTAPI_FALLBACK_PATHS :: "string list" where
  "AGENTAPI_FALLBACK_PATHS =
     [''~/.gemini/jetski/bin/agentapi'', ''~/.jetski/jetski/bin/agentapi'', ''/usr/local/bin/agentapi'']"

fun load_subagent_cache :: "json option \<Rightarrow> (string \<times> json) list" where
  "load_subagent_cache (Some (JObj kvs)) = kvs"
| "load_subagent_cache _ = []"

definition save_subagent_cache :: "(string \<times> json) list \<Rightarrow> hook_machine \<Rightarrow> hook_machine" where
  "save_subagent_cache kvs m = (if cache_fails m then m else m\<lparr>cache := Some (JObj kvs)\<rparr>)"

definition agentapi_bin :: "hook_machine \<Rightarrow> string" where
  "agentapi_bin m = expanduser m
     (case on_path m of
        Some p \<Rightarrow> p
      | None \<Rightarrow>
          (case filter (\<lambda>p. is_file m (expanduser m p)) AGENTAPI_FALLBACK_PATHS of
             [] \<Rightarrow> []
           | p # _ \<Rightarrow> p))"

text \<open>\<open>int(v)\<close>, of which only the comparison with 1 matters: decimal literals with a sign and \<open>_\<close>.\<close>

definition digits_value :: "string \<Rightarrow> int" where
  "digits_value ds = foldl (\<lambda>n c. 10 * n + int (code c) - 48) 0 ds"

definition int_literal :: "string \<Rightarrow> int result" where
  "int_literal s =
     (let t = trim s;
          sign = (if prefix ''-'' t then - 1 else 1);
          body = (if prefix ''-'' t \<or> prefix ''+'' t then tl t else t);
          parts = split_on CHR ''_'' body in
      if list_all (\<lambda>p. p \<noteq> [] \<and> list_all is_digit09 p) parts
      then Inr (sign * digits_value (concat parts)) else Inl ValueError)"

fun int_of :: "json \<Rightarrow> int result" where
  "int_of (JNum n) = Inr n"
| "int_of (JBool b) = Inr (if b then 1 else 0)"
| "int_of (JStr s) = int_literal s"
| "int_of v = Inl TypeError"

text \<open>The metadata of a conversation: nothing when it is empty.\<close>

definition metadata_of :: "json \<Rightarrow> json result" where
  "metadata_of out =
     bind_res (get_or out ''response'' (JObj [])) (\<lambda>r.
     bind_res (get_or r ''conversationMetadata'' (JObj [])) (\<lambda>c.
       get_or c ''metadata'' (JObj [])))"

definition meta_is_sub :: "json \<Rightarrow> bool result" where
  "meta_is_sub meta =
     bind_res (get meta ''nestingDepth'') (\<lambda>n.
     bind_res (int_of (py_or n (JNum 0))) (\<lambda>nesting.
     bind_res (get meta ''parentConversationId'') (\<lambda>parent.
     bind_res (get meta ''subagentSpec'') (\<lambda>sub_spec.
       Inr (nesting \<ge> 1 \<or> truthy parent \<or> sub_spec \<noteq> JNull)))))"

text \<open>
  The first source of information: the answer of \<open>agentapi\<close>, or nothing where the code goes
  on, be it for want of an answer or because of an exception.
\<close>

definition ask_agentapi :: "hook_machine \<Rightarrow> string \<Rightarrow> bool option" where
  "ask_agentapi m conv_id =
     (if agentapi_bin m = [] then None
      else
        (case agentapi m (agentapi_bin m) conv_id of
           None \<Rightarrow> None
         | Some out \<Rightarrow>
             (case bind_res (metadata_of out)
                     (\<lambda>meta. if truthy meta then bind_res (meta_is_sub meta) (Inr \<circ> Some) else Inr None) of
                Inr r \<Rightarrow> r
              | Inl e \<Rightarrow> None)))"

text \<open>
  \<^verbatim>\<open>Created the following subagents:[\s\S]{1,4000}?conversationId\\?":\s*\\?"\<close>, then the escaped
  identifier and \<^verbatim>\<open>\\?"\<close>. Only whether it is found matters, so the bounded gap is a bounded
  search for the tail.
\<close>

definition re_created_tail :: "string \<Rightarrow> re" where
  "re_created_tail conv_id = seqs
     [lit ''conversationId'', opt (chr backslash), lit [CHR ''\"'', CHR '':''], star space,
      opt (chr backslash), chr CHR ''\"'', lit conv_id, opt (chr backslash), chr CHR ''\"'']"

fun gap_search :: "re \<Rightarrow> nat \<Rightarrow> string \<Rightarrow> bool" where
  "gap_search r n [] = False"
| "gap_search r 0 (c # s) = False"
| "gap_search r (Suc n) (c # s) = (re_match r s \<noteq> None \<or> gap_search r n s)"

definition created_head :: string where
  "created_head = ''Created the following subagents:''"

fun created_mention :: "string \<Rightarrow> string \<Rightarrow> bool" where
  "created_mention conv_id [] = False"
| "created_mention conv_id (c # s) =
     (if prefix created_head (c # s) \<and>
         gap_search (re_created_tail conv_id) 4000 (drop (length created_head) (c # s)) then True
      else created_mention conv_id s)"

text \<open>The names in a directory, in the order of the tree.\<close>

definition list_dir :: "'a machine_scheme \<Rightarrow> string \<Rightarrow> string list" where
  "list_dir m p =
     (let dir = fst (real_walk True (files m) [] (start_of m p) (comps_of p)) in
      map (last \<circ> fst) (filter (\<lambda>(k, v). k \<noteq> [] \<and> butlast k = dir) (files m)))"

text \<open>Recent transcripts of a brain directory as (modification time, content), newest first.\<close>

definition transcript_of :: "hook_machine \<Rightarrow> string \<Rightarrow> string \<Rightarrow> (int \<times> string) list" where
  "transcript_of m brain_dir entry =
     (case stat_node m (path_join (path_join (path_join (path_join brain_dir entry)
             ''.system_generated'') ''logs'') ''transcript.jsonl'') of
        Some (File content mtime) \<Rightarrow>
          if clock m - mtime < 14 * 86400 then [(mtime, universal content)] else []
      | _ \<Rightarrow> [])"

definition transcripts :: "hook_machine \<Rightarrow> string \<Rightarrow> string \<Rightarrow> (int \<times> string) list" where
  "transcripts m conv_id brain_dir =
     (if is_dir m brain_dir
      then sort_key (\<lambda>c. - fst c)
        (concat (map (transcript_of m brain_dir) (filter (\<lambda>e. e \<noteq> conv_id) (list_dir m brain_dir))))
      else [])"

text \<open>\<^verbatim>\<open>transcript_path.split("/brain/")[0] + "/brain"\<close>, when there is such a part.\<close>

fun before_first :: "string \<Rightarrow> string \<Rightarrow> string" where
  "before_first p [] = []"
| "before_first p (c # s) = (if prefix p (c # s) then [] else c # before_first p s)"

fun inferred_brain :: "json \<Rightarrow> string option result" where
  "inferred_brain (JStr s) =
     Inr (if sublist ''/brain/'' s then Some (before_first ''/brain/'' s @ ''/brain'') else None)"
| "inferred_brain (JArr xs) = (if JStr ''/brain/'' \<in> set xs then Inl AttributeError else Inr None)"
| "inferred_brain (JObj kvs) = (if ''/brain/'' \<in> fst ` set kvs then Inl AttributeError else Inr None)"
| "inferred_brain v = (if truthy v then Inl TypeError else Inr None)"

definition brain_dirs :: "hook_machine \<Rightarrow> string option \<Rightarrow> string list" where
  "brain_dirs m inferred =
     (let base = [expanduser m ''~/.gemini/jetski/brain'', expanduser m ''~/.gemini/antigravity/brain''] in
      case inferred of
        None \<Rightarrow> base
      | Some b \<Rightarrow> if b \<in> set base then base else b # base)"

definition mentions :: "string \<Rightarrow> int \<times> string \<Rightarrow> bool" where
  "mentions conv_id c \<longleftrightarrow> sublist conv_id (snd c) \<and> created_mention conv_id (snd c)"

text \<open>\<open>is_subagent_conversation\<close>: the verdict and the machine with the updated cache.\<close>

definition is_subagent_conversation ::
  "hook_machine \<Rightarrow> json \<Rightarrow> json \<Rightarrow> hook_machine \<times> bool result" where
  "is_subagent_conversation m conv transcript_path =
     (if \<not> truthy conv then (m, Inr False)
      else
        (case str_arg conv of
           Inl e \<Rightarrow> (m, Inl e)
         | Inr conv_id \<Rightarrow>
             (let known = load_subagent_cache (cache m) in
              case map_of known conv_id of
                Some v \<Rightarrow> (m, Inr (truthy v))
              | None \<Rightarrow>
                  (case ask_agentapi m conv_id of
                     Some is_sub \<Rightarrow>
                       (save_subagent_cache (set_key conv_id (JBool is_sub) known) m, Inr is_sub)
                   | None \<Rightarrow>
                       (case inferred_brain transcript_path of
                          Inl e \<Rightarrow> (m, Inl e)
                        | Inr inferred \<Rightarrow>
                            if list_ex (\<lambda>d. list_ex (mentions conv_id) (transcripts m conv_id d))
                                 (brain_dirs m inferred)
                            then (save_subagent_cache (set_key conv_id (JBool True) known) m, Inr True)
                            else (m, Inr False))))))"

section \<open>Autonomous runs\<close>

definition cwd_of :: "json \<Rightarrow> string result" where
  "cwd_of payload =
     bind_res (get_or payload ''toolCall'' (JObj [])) (\<lambda>tool_call.
     bind_res (get_or tool_call ''args'' (JObj [])) (\<lambda>tool_args.
     bind_res (get_first tool_args [''Cwd'', ''cwd'']) (\<lambda>v.
     bind_res (as_str v) (\<lambda>s. Inr (trim s)))))"

text \<open>Part 1: a subagent may work anywhere but outside the workspaces the payload names.\<close>

definition subagent_cwd_ok :: "hook_machine \<Rightarrow> json \<Rightarrow> string \<Rightarrow> bool result" where
  "subagent_cwd_ok m payload dir =
     (if dir = [] then Inr True
      else if has_dotdot dir then Inr False
      else
        bind_res (get_effective_workspaces m payload) (\<lambda>wss.
          (let real_cwd = realpath m (expanduser m dir) in
           Inr (wss = [] \<or> list_ex (inside real_cwd) wss \<or> sublist ''/.worktrees/'' real_cwd \<or>
                is_safe_special_target real_cwd []))))"

text \<open>Part 2: the marker covers its workspace and the repository around it.\<close>

definition marker_covers :: "hook_machine \<Rightarrow> string \<Rightarrow> string \<Rightarrow> bool" where
  "marker_covers m ws p \<longleftrightarrow>
     (let root = find_enclosing_vcs_root m ws; marker_root = (if root \<noteq> [] then root else ws) in
      inside p ws \<or> inside p marker_root)"

definition marker_active :: "hook_machine \<Rightarrow> json \<Rightarrow> string \<Rightarrow> bool result" where
  "marker_active m payload dir =
     (let ws = get_active_marker_workspace m in
      if ws = [] then Inr False
      else if dir \<noteq> [] then Inr (marker_covers m ws (realpath m (expanduser m dir)))
      else bind_res (get_effective_workspaces m payload) (\<lambda>wss. Inr (list_ex (marker_covers m ws) wss)))"

text \<open>Part 3: an isolated worktree.\<close>

definition in_worktree :: "hook_machine \<Rightarrow> string \<Rightarrow> bool" where
  "in_worktree m dir \<longleftrightarrow>
     dir \<noteq> [] \<and> \<not> has_dotdot dir \<and>
     (let real_cwd = realpath m (expanduser m dir) in
      sublist ''/.worktrees/'' real_cwd \<or> suffix ''/.worktrees'' real_cwd)"

definition is_subagent_or_autonomous_active ::
  "hook_machine \<Rightarrow> json \<Rightarrow> hook_machine \<times> bool result" where
  "is_subagent_or_autonomous_active m payload =
     (case bind_res (cwd_of payload) (\<lambda>dir.
            bind_res (get_or payload ''conversationId'' (JStr [])) (\<lambda>conv.
            bind_res (get_or payload ''transcriptPath'' (JStr [])) (\<lambda>tr. Inr (dir, conv, tr)))) of
        Inl e \<Rightarrow> (m, Inl e)
      | Inr (dir, conv, tr) \<Rightarrow>
          (case is_subagent_conversation m conv tr of
             (m', Inl e) \<Rightarrow> (m', Inl e)
           | (m', Inr True) \<Rightarrow> (m', subagent_cwd_ok m' payload dir)
           | (m', Inr False) \<Rightarrow>
               (m', bind_res (marker_active m' payload dir) (\<lambda>act. Inr (act \<or> in_worktree m' dir)))))"

section \<open>The decision\<close>

text \<open>\<open>allow_response(allow_writes)\<close>, \<open>ask_response()\<close> and the answer of the safety gate.\<close>

datatype decision = Allow bool | Ask | Force_ask

definition WRITE_FILE_TOOLS :: "string list" where
  "WRITE_FILE_TOOLS = [''write_to_file'', ''replace_file_content'', ''notebook_edit'']"

definition SHELL_TOOLS :: "string list" where
  "SHELL_TOOLS = [''run_command'', ''bash'', ''execute_command'']"

definition tool_of :: "json \<Rightarrow> (string \<times> json) result" where
  "tool_of payload =
     bind_res (get_or payload ''toolCall'' (JObj [])) (\<lambda>tool_call.
     bind_res (get tool_call ''name'') (\<lambda>name.
     bind_res (as_str (py_or name (JStr []))) (\<lambda>tool_name.
     bind_res (get tool_call ''args'') (\<lambda>args.
       Inr (lower tool_name, py_or args (JObj []))))))"

definition evaluate_write :: "hook_machine \<Rightarrow> json \<Rightarrow> json \<Rightarrow> decision result" where
  "evaluate_write m payload args =
     bind_res (get_first args [''TargetFile'', ''NotebookPath'', ''file_path'', ''path'']) (\<lambda>target.
     bind_res (is_path_in_workspace_or_special m target payload) (\<lambda>ok.
       Inr (if ok then Allow True else Ask)))"

definition evaluate_shell :: "hook_machine \<Rightarrow> json \<Rightarrow> json \<Rightarrow> hook_machine \<times> decision result" where
  "evaluate_shell m payload args =
     (case bind_res (get_first args [''CommandLine'', ''command'']) str_arg of
        Inl e \<Rightarrow> (m, Inl e)
      | Inr cmd \<Rightarrow>
          if cmd = [] then (m, Inr (Allow False))
          else if is_dangerous_command cmd then (m, Inr Force_ask)
          else
            (case evaluate_tier1_command 0 cmd of
               (True, t1_writes) \<Rightarrow> (m, Inr (Allow t1_writes))
             | (False, _) \<Rightarrow>
                 (case is_subagent_or_autonomous_active m payload of
                    (m', r) \<Rightarrow> (m', bind_res r (\<lambda>active. Inr (if active then Allow True else Ask))))))"

definition evaluate_hook :: "hook_machine \<Rightarrow> json \<Rightarrow> hook_machine \<times> decision result" where
  "evaluate_hook m payload =
     (case tool_of payload of
        Inl e \<Rightarrow> (m, Inl e)
      | Inr (tool_name, args) \<Rightarrow>
          if tool_name \<in> set WRITE_FILE_TOOLS then (m, evaluate_write m payload args)
          else if tool_name \<notin> set SHELL_TOOLS then (m, Inr (Allow False))
          else evaluate_shell m payload args)"

text \<open>The dictionary that is printed.\<close>

fun response :: "decision \<Rightarrow> json" where
  "response (Allow allow_writes) = JObj
     [(''decision'', JStr ''allow''),
      (''permissionOverrides'', JArr (map JStr
         ([''command(*)'', ''unsandboxed(*)'', ''read_file(*)''] @
          (if allow_writes then [''write_file(*)''] else []))))]"
| "response Ask = JObj [(''decision'', JStr ''ask'')]"
| "response Force_ask = JObj
     [(''decision'', JStr ''force_ask''),
      (''reason'', JStr ''Command matches safety gate (remote push or privileged/destructive operation).'')]"

fun decision_word :: "decision \<Rightarrow> string" where
  "decision_word (Allow w) = ''allow''"
| "decision_word Ask = ''ask''"
| "decision_word Force_ask = ''force_ask''"

text \<open>
  \<open>log_audit_event\<close>: an entry is appended unless building it raises. The time stamp is left
  out, and of a target that is not a string the value is kept, not its printed form.
\<close>

fun clip :: "json \<Rightarrow> json" where
  "clip (JStr s) = JStr (take 160 s)"
| "clip v = v"

definition audit_record :: "json \<Rightarrow> decision \<Rightarrow> audit_entry result" where
  "audit_record payload d =
     bind_res (get_or payload ''toolCall'' (JObj [])) (\<lambda>tool_call.
     bind_res (get tool_call ''name'') (\<lambda>name.
     bind_res (as_str (py_or name (JStr []))) (\<lambda>tool_name.
     bind_res (get tool_call ''args'') (\<lambda>args.
     bind_res (get_first (py_or args (JObj [])) [''CommandLine'', ''TargetFile'']) (\<lambda>cmd.
     bind_res (get_or payload ''conversationId'' (JStr [])) (\<lambda>conv.
       Inr \<lparr>audit_conversation = conv, audit_tool = lower tool_name, audit_target = clip cmd,
            audit_decision = decision_word d\<rparr>))))))"

definition log_audit_event :: "hook_machine \<Rightarrow> json \<Rightarrow> decision \<Rightarrow> hook_machine" where
  "log_audit_event m payload d =
     (case audit_record payload d of
        Inl e \<Rightarrow> m
      | Inr entry \<Rightarrow> if log_fails m then m else m\<lparr>audit := audit m @ [entry]\<rparr>)"

text \<open>
  \<open>main\<close>: standard input is blank, malformed, or a payload. A wrong answer of \<open>evaluate_hook\<close>
  is an exception, which is answered with \<open>ask\<close>.
\<close>

datatype hook_input = Blank | Malformed | Payload json

fun main_hook :: "hook_machine \<Rightarrow> hook_input \<Rightarrow> hook_machine \<times> decision" where
  "main_hook m Blank = (m, Ask)"
| "main_hook m Malformed = (m, Ask)"
| "main_hook m (Payload payload) =
     (case evaluate_hook m payload of
        (m', Inl e) \<Rightarrow> (m', Ask)
      | (m', Inr d) \<Rightarrow> (log_audit_event m' payload d, d))"

section \<open>The payload of a shell command\<close>

text \<open>A payload that asks for a command, with any other keys around it.\<close>

definition asks_command :: "json \<Rightarrow> string \<Rightarrow> bool" where
  "asks_command payload cmd \<longleftrightarrow>
     (\<exists>tool_name args. tool_of payload = Inr (tool_name, args) \<and> tool_name \<in> set SHELL_TOOLS \<and>
        get_first args [''CommandLine'', ''command''] = Inr (JStr cmd)) \<and> cmd \<noteq> []"

declare get_first.simps(2) [simp del]

lemma shell_not_write: "t \<in> set SHELL_TOOLS \<Longrightarrow> t \<notin> set WRITE_FILE_TOOLS"
  by (auto simp: SHELL_TOOLS_def WRITE_FILE_TOOLS_def)

lemma evaluate_command:
  assumes "asks_command payload cmd"
  shows "evaluate_hook m payload =
    (if is_dangerous_command cmd then (m, Inr Force_ask)
     else if fst (evaluate_tier1_command 0 cmd)
     then (m, Inr (Allow (snd (evaluate_tier1_command 0 cmd))))
     else (case is_subagent_or_autonomous_active m payload of
             (m', r) \<Rightarrow> (m', bind_res r (\<lambda>active. Inr (if active then Allow True else Ask)))))"
proof -
  obtain tool_name args where t: "tool_of payload = Inr (tool_name, args)"
    "tool_name \<in> set SHELL_TOOLS" "get_first args [''CommandLine'', ''command''] = Inr (JStr cmd)"
    "cmd \<noteq> []"
    using assms by (auto simp: asks_command_def)
  then show ?thesis
    using shell_not_write [OF t(2)]
    by (cases "evaluate_tier1_command 0 cmd")
      (auto simp: evaluate_hook_def evaluate_shell_def split: bool.splits)
qed

text \<open>A dangerous command is stopped in every state of the machine.\<close>

lemma dangerous_stopped:
  "asks_command payload cmd \<Longrightarrow> is_dangerous_command cmd \<Longrightarrow>
     main_hook m (Payload payload) = (log_audit_event m payload Force_ask, Force_ask)"
  by (simp add: evaluate_command)

lemma allowed_command:
  assumes "asks_command payload cmd" "evaluate_hook m payload = (m', Inr (Allow w))"
  shows "\<not> is_dangerous_command cmd \<and>
    (evaluate_tier1_command 0 cmd = (True, w) \<or>
     w \<and> is_subagent_or_autonomous_active m payload = (m', Inr True))"
  using assms by (auto simp: evaluate_command bind_res_eq_Inr prod_eq_iff
      split: if_splits prod.splits)

text \<open>A file is only allowed inside a workspace or below a special path.\<close>

lemma allowed_write:
  assumes "tool_of payload = Inr (tool_name, args)" "tool_name \<in> set WRITE_FILE_TOOLS"
    "evaluate_hook m payload = (m', Inr d)"
  shows "m' = m \<and> (d = Ask \<or> d = Allow True \<and> (\<exists>target.
    get_first args [''TargetFile'', ''NotebookPath'', ''file_path'', ''path''] = Inr target \<and>
    is_path_in_workspace_or_special m target payload = Inr True))"
  using assms by (auto simp: evaluate_hook_def evaluate_write_def bind_res_eq_Inr split: if_splits)

text \<open>Only the cache and the log of the machine ever change.\<close>

definition same_but_cache :: "hook_machine \<Rightarrow> hook_machine \<Rightarrow> bool" where
  "same_but_cache m m' \<longleftrightarrow> m' = m\<lparr>cache := cache m'\<rparr>"

lemma same_but_cache_refl [simp]: "same_but_cache m m"
  by (simp add: same_but_cache_def)

lemma same_but_cache_save [simp]: "same_but_cache m (save_subagent_cache kvs m)"
  by (simp add: same_but_cache_def save_subagent_cache_def)

lemma same_but_cache_audit: "same_but_cache m m' \<Longrightarrow> audit m' = audit m"
  unfolding same_but_cache_def by (metis hook_machine.select_convs(5) hook_machine.surjective
      hook_machine.update_convs(2))

lemma subagent_frame: "same_but_cache m (fst (is_subagent_conversation m conv tr))"
  by (auto simp: is_subagent_conversation_def Let_def split: sum.splits option.splits)

lemma autonomous_frame: "same_but_cache m (fst (is_subagent_or_autonomous_active m payload))"
proof -
  have "same_but_cache m (fst (case is_subagent_conversation m conv tr of
         (m', Inl e) \<Rightarrow> (m', Inl e)
       | (m', Inr True) \<Rightarrow> (m', subagent_cwd_ok m' payload dir)
       | (m', Inr False) \<Rightarrow>
           (m', bind_res (marker_active m' payload dir) (\<lambda>act. Inr (act \<or> in_worktree m' dir)))))"
    for conv tr dir
    using subagent_frame [of m conv tr] by (auto split: prod.splits sum.splits bool.splits)
  then show ?thesis
    by (auto simp: is_subagent_or_autonomous_active_def split: sum.splits)
qed

lemma evaluate_hook_frame: "same_but_cache m (fst (evaluate_hook m payload))"
  using autonomous_frame [of m payload]
  by (auto simp: evaluate_hook_def evaluate_shell_def split: sum.splits prod.splits bool.splits)

text \<open>
  The verdict on a subagent is remembered if the cache can be written: asking again gives the same
  and changes nothing.
\<close>

lemma subagent_remembered:
  assumes "is_subagent_conversation m conv tr = (m', Inr True)" "\<not> cache_fails m"
  shows "is_subagent_conversation m' conv tr' = (m', Inr True)"
  using assms
  by (auto simp: is_subagent_conversation_def Let_def save_subagent_cache_def map_of_set_key
      split: if_splits sum.splits option.splits)

text \<open>
  What an active run rests on: a subagent whose directory is acceptable, a fresh marker that
  covers the place of the command, or a worktree.
\<close>

lemma active_cases:
  assumes "is_subagent_or_autonomous_active m payload = (m', Inr True)"
  obtains dir conv tr where "cwd_of payload = Inr dir"
    "is_subagent_conversation m conv tr = (m', Inr True) \<and> subagent_cwd_ok m' payload dir = Inr True
     \<or> marker_active m' payload dir = Inr True \<or> in_worktree m' dir"
  using assms that
  by (auto simp: is_subagent_or_autonomous_active_def bind_res_eq_Inr
      split: sum.splits prod.splits bool.splits)

text \<open>A marker older than the window is no marker.\<close>

lemma stale_marker:
  assumes "stat_node m (get_autonomous_marker m) = Some (File content mtime)"
    "ACTIVE_WINDOW_SECONDS \<le> clock m - mtime"
  shows "get_active_marker_workspace m = [] \<and> marker_active m payload dir = Inr False"
  using assms by (simp add: get_active_marker_workspace_def marker_active_def)

text \<open>Every answer of \<open>main\<close> other than \<open>allow\<close> and the gate is \<open>ask\<close>, exceptions included.\<close>

lemma exception_asks:
  "evaluate_hook m payload = (m', Inl e) \<Longrightarrow> main_hook m (Payload payload) = (m', Ask)"
  by simp

end
