(* ===== verification/Guard_Runs.thy ===== *)
theory Guard_Runs
  imports Guard_Hook "HOL-Library.Sublist"
begin

text \<open>
  Many calls of \<open>autonomous-exec-hook.py\<close> one after the other: a step relation in which anything but
  the subagent cache and the audit log may change between two calls. The lemmas say what the cache
  and the log tell about the calls.
\<close>

section \<open>Runs\<close>

text \<open>
  A call is its input, its answer, and whether the log could be written. \<open>call\<close> is one run of the
  script; \<open>world\<close> is everything else, which leaves the two files of the hook alone.
\<close>

type_synonym hook_call = "hook_input \<times> decision \<times> bool"

inductive hook_run :: "hook_machine \<Rightarrow> hook_call list \<Rightarrow> hook_machine \<Rightarrow> bool" where
  start: "hook_run m [] m"
| call: "hook_run m calls m' \<Longrightarrow> main_hook m' inp = (m'', d) \<Longrightarrow>
    hook_run m (calls @ [(inp, d, \<not> log_fails m')]) m''"
| world: "hook_run m calls m' \<Longrightarrow> cache m'' = cache m' \<Longrightarrow> audit m'' = audit m' \<Longrightarrow> hook_run m calls m''"

section \<open>The log\<close>

lemma cache_frame: "same_but_cache m m' \<Longrightarrow> audit m' = audit m \<and> log_fails m' = log_fails m"
  unfolding same_but_cache_def by (metis hook_machine.select_convs(5,7) hook_machine.surjective
      hook_machine.update_convs(2))

lemma evaluate_frame:
  assumes "evaluate_hook m payload = (m', r)"
  shows "audit m' = audit m" "log_fails m' = log_fails m"
  using cache_frame [OF evaluate_hook_frame [of m payload]] assms by simp_all

lemma audit_record_word: "audit_record payload d = Inr entry \<Longrightarrow> audit_decision entry = decision_word d"
  by (auto simp: audit_record_def bind_res_eq_Inr)

text \<open>A payload that is granted writes has all the parts that an entry is made of.\<close>

lemma get_first_total:
  assumes "get_first (JObj kvs) ks = Inr x"
  shows "\<exists>y. get_first (JObj kvs) ks' = Inr y"
  by (induction ks') (auto simp: get_first.simps)

lemma get_first_dict: "get_first args (k # ks) = Inr x \<Longrightarrow> \<exists>kvs. args = JObj kvs"
  by (cases args) (auto simp: get_first.simps)

lemma get_dict: "get_or payload k d = Inr x \<Longrightarrow> \<exists>kvs. payload = JObj kvs"
  by (cases payload) auto

lemma granted_recorded:
  assumes "evaluate_hook m payload = (m', Inr (Allow True))"
  shows "\<exists>entry. audit_record payload (Allow True) = Inr entry"
proof -
  obtain tool_name args where t: "tool_of payload = Inr (tool_name, args)"
    using assms by (cases "tool_of payload") (auto simp: evaluate_hook_def)
  have "\<exists>k ks x. get_first args (k # ks) = Inr x"
    using assms t by (auto simp: evaluate_hook_def evaluate_write_def evaluate_shell_def bind_res_eq_Inr
        split: if_splits sum.splits)
  then obtain kvs where kvs: "args = JObj kvs"
    using get_first_dict by blast
  obtain cmd where args: "get_first args [''CommandLine'', ''TargetFile''] = Inr cmd"
    using get_first_total [of kvs "[]" _ "[''CommandLine'', ''TargetFile'']"] kvs by auto
  obtain pvs where "payload = JObj pvs"
    using t by (auto simp: tool_of_def bind_res_eq_Inr dest!: get_dict)
  then show ?thesis
    using t args by (auto simp: tool_of_def audit_record_def bind_res_eq_Inr)
qed

text \<open>
  One call: the log stays or gets one entry with the decision, and it gets one when writes are
  granted and the log can be written.
\<close>

definition logged :: "hook_call \<Rightarrow> string" where
  "logged c = decision_word (fst (snd c))"

definition writable :: "hook_call \<Rightarrow> bool" where
  "writable c = snd (snd c)"

definition must_log :: "hook_call \<Rightarrow> bool" where
  "must_log c \<longleftrightarrow> writable c \<and> fst (snd c) = Allow True"

lemma call_logged:
  assumes "main_hook m inp = (m', d)" "c = (inp, d, \<not> log_fails m)"
  shows "\<exists>es. audit m' = audit m @ es \<and>
    (es = [] \<and> \<not> must_log c \<or> writable c \<and> map audit_decision es = [logged c])"
proof (cases inp)
  case (Payload payload)
  obtain m1 r where e: "evaluate_hook m payload = (m1, r)"
    by (cases "evaluate_hook m payload")
  show ?thesis
    using assms Payload e evaluate_frame [OF e] granted_recorded [of m payload m1] audit_record_word [of payload d]
    by (cases r; cases "audit_record payload d")
      (auto simp: log_audit_event_def must_log_def writable_def logged_def)
qed (use assms in \<open>auto simp: must_log_def\<close>)

lemma run_logged:
  "hook_run m calls m' \<Longrightarrow>
     \<exists>es. audit m' = audit m @ es \<and>
       subseq (map audit_decision es) (map logged (filter writable calls)) \<and>
       subseq (map logged (filter must_log calls)) (map audit_decision es)"
proof (induction rule: hook_run.induct)
  case (call m calls m' inp m'' d)
  let ?c = "(inp, d, \<not> log_fails m')"
  obtain es where es: "audit m' = audit m @ es"
      "subseq (map audit_decision es) (map logged (filter writable calls))"
      "subseq (map logged (filter must_log calls)) (map audit_decision es)"
    using call.IH by blast
  obtain fs where fs: "audit m'' = audit m' @ fs"
      "fs = [] \<and> \<not> must_log ?c \<or> writable ?c \<and> map audit_decision fs = [logged ?c]"
    using call_logged [OF call.hyps(2) refl] by (elim exE conjE)
  have new: "subseq (map audit_decision fs) (map logged (filter writable [?c]))"
      "subseq (map logged (filter must_log [?c])) (map audit_decision fs)"
    using fs(2) by (elim disjE conjE; simp)+
  have "subseq (map audit_decision (es @ fs)) (map logged (filter writable (calls @ [?c])))"
    using list_emb_append_mono [OF es(2) new(1)] by (simp only: map_append filter_append)
  moreover have "subseq (map logged (filter must_log (calls @ [?c]))) (map audit_decision (es @ fs))"
    using list_emb_append_mono [OF es(3) new(2)] by (simp only: map_append filter_append)
  ultimately show ?case
    using es(1) fs(1) by (intro exI [of _ "es @ fs"]) simp
qed auto

section \<open>The cache\<close>

text \<open>A verdict once in the cache is the verdict of every later call on that conversation.\<close>

definition known :: "hook_machine \<Rightarrow> string \<Rightarrow> json option" where
  "known m = map_of (load_subagent_cache (cache m))"

lemma known_save:
  "known m k = None \<Longrightarrow> known m \<subseteq>\<^sub>m known (save_subagent_cache (set_key k v (load_subagent_cache (cache m))) m)"
  by (auto simp: known_def save_subagent_cache_def map_of_set_key map_le_def)

lemma subagent_known: "known m \<subseteq>\<^sub>m known (fst (is_subagent_conversation m conv tr))"
proof -
  have "known m \<subseteq>\<^sub>m known (save_subagent_cache (set_key k v (load_subagent_cache (cache m))) m)"
    if "map_of (load_subagent_cache (cache m)) k = None" for k v
    using known_save [of m k v] that by (simp add: known_def)
  then show ?thesis
    by (auto simp: is_subagent_conversation_def Let_def split: sum.splits option.splits)
qed

lemma active_known: "known m \<subseteq>\<^sub>m known (fst (is_subagent_or_autonomous_active m payload))"
proof -
  have "known m \<subseteq>\<^sub>m known (fst (case is_subagent_conversation m conv tr of
         (m', Inl e) \<Rightarrow> (m', Inl e)
       | (m', Inr True) \<Rightarrow> (m', subagent_cwd_ok m' payload dir)
       | (m', Inr False) \<Rightarrow>
           (m', bind_res (marker_active m' payload dir) (\<lambda>act. Inr (act \<or> in_worktree m' dir)))))"
    for conv tr dir
    using subagent_known [of m conv tr] by (auto split: prod.splits sum.splits bool.splits)
  then show ?thesis
    by (auto simp: is_subagent_or_autonomous_active_def split: sum.splits)
qed

lemma evaluate_known: "known m \<subseteq>\<^sub>m known (fst (evaluate_hook m payload))"
  using active_known [of m payload]
  by (auto simp: evaluate_hook_def evaluate_shell_def split: sum.splits prod.splits bool.splits)

lemma known_audit [simp]: "known (m\<lparr>audit := es\<rparr>) = known m"
  by (simp add: known_def)

lemma call_known: "known m \<subseteq>\<^sub>m known (fst (main_hook m inp))"
proof (cases inp)
  case (Payload payload)
  then show ?thesis
    using evaluate_known [of m payload]
    by (auto simp: log_audit_event_def split: prod.splits sum.splits)
qed simp_all

lemma run_known: "hook_run m calls m' \<Longrightarrow> known m \<subseteq>\<^sub>m known m'"
proof (induction rule: hook_run.induct)
  case (call m calls m' inp m'' d)
  then show ?case
    using call_known [of m' inp] by (auto intro: map_le_trans)
next
  case (world m calls m' m'')
  then show ?case
    by (simp add: known_def)
qed simp

text \<open>What is known decides without asking anyone.\<close>

lemma known_decides:
  "known m conv_id = Some v \<Longrightarrow> conv_id \<noteq> [] \<Longrightarrow> is_subagent_conversation m (JStr conv_id) tr = (m, Inr (truthy v))"
  by (simp add: known_def is_subagent_conversation_def)

end
