(* ===== verification/Guard_Unchecked.thy ===== *)
theory Guard_Unchecked
  imports Guard_Script
begin

text \<open>
  Output that the guard of \<open>autonomous-exec-hook.py\<close> does not check. In \<^verbatim>\<open>1>&\<close> followed by a file name
  the shell writes to that file. None of the redirection patterns matches it, and the last test, that
  no sign is left, skips a sign after a digit.
\<close>

definition copies_to :: "string \<Rightarrow> string" where
  "copies_to t = ''1>&'' @ t"

lemma target_no: "plain_target t \<Longrightarrow> c \<in> set special_chars \<Longrightarrow> c \<notin> set t"
  using target_chars(2) by (auto simp: plain_char_def)

lemma plain_no: "plain_word w \<Longrightarrow> c \<in> set special_chars \<Longrightarrow> c \<notin> set w"
  by (auto simp: plain_word_def list_all_iff plain_char_def)

lemma last_copies: "plain_target t \<Longrightarrow> \<not> is_space (last (copies_to t)) \<and> last (copies_to t) \<noteq> CHR '')''"
  using last_arg [of t] plain_arg target_chars(1) [of t] by (simp add: copies_to_def plain_target_def)

lemma args_of_append: "args_of (xs @ ys) = args_of xs @ args_of ys"
  by (simp add: args_of_def)

lemma targets_of_append: "targets_of (xs @ ys) = targets_of xs @ targets_of ys"
  by (simp add: targets_of_def)

section \<open>No redirection pattern matches\<close>

lemma copies_passes:
  assumes t: "plain_target t" and r: "begins r P k" and k: "CHR ''>'' \<in> set k"
    and no: "\<And>b rest. mt r (b, ''1>&'' @ t @ rest, []) = []" "\<And>b rest. mt r (b, ''>&'' @ t @ rest, []) = []"
  shows "passes r (copies_to t)"
  unfolding passes_def
proof (intro allI impI)
  fix b rest p q
  assume pq: "copies_to t = p @ q" "q \<noteq> []" "rest = [] \<or> hd rest = CHR '' '' \<or> last (copies_to t) = CHR '' ''"
  then have rest: "rest = [] \<or> hd rest = CHR '' '' \<or> last q = CHR '' ''"
    by auto
  show "mt r (rev p @ b, q @ rest, []) = []"
  proof (cases "CHR ''>'' \<in> set q")
    case True
    have "CHR ''>'' \<notin> set t"
      using target_no [OF t] by (simp add: special_chars_def)
    then have "q = ''1>&'' @ t \<or> q = ''>&'' @ t"
      using pq(1) True by (auto simp: copies_to_def Cons_eq_append_conv)
    then show ?thesis
      using no by auto
  next
    case False
    then have "\<not> sublist k q"
      using k set_mono_sublist by blast
    then show ?thesis
      unfolding mt_Nil_iff using begins_first [OF r _ pq(2) rest] by blast
  qed
qed

lemma copies_no_match:
  assumes t: "plain_target t"
  shows "passes re_dup_fd (copies_to t)" "passes re_dev_null (copies_to t)" "passes re_redir (copies_to t)"
proof -
  obtain c u where cu: "t = c # u" "\<not> is_digit09 c"
    using target_chars(1,3) [OF t] by (cases t) (auto simp: redir_char_def)
  have digits: "is_digit09 CHR ''1''" "\<not> is_digit09 CHR ''>''" "\<not> is_digit09 CHR ''&''" "\<not> is_space CHR ''&''"
    by (simp_all add: is_digit09_def is_space_def code_def)
  note defs = digit_def lit_def chr_def plus_def star_def opt_def gt_gt_def space_def digits Let_def
  show "passes re_dup_fd (copies_to t)"
    using cu(2) by (intro copies_passes [OF t begins_dup]) (simp_all add: cu(1) re_dup_fd_def defs)
  show "passes re_dev_null (copies_to t)"
    by (intro copies_passes [OF t begins_null]) (simp_all add: re_dev_null_def defs)
  show "passes re_redir (copies_to t)"
    by (intro copies_passes [OF t begins_redir]) (simp_all add: re_redir_def quoted_def is_target_char_def defs)
qed

text \<open>The text of the command, with its only sign after a digit.\<close>

lemma words_text_last: "words_text (ws @ [w]) = (if ws = [] then w else words_text ws @ CHR '' '' # w)"
  by (induction ws rule: induct_list012) simp_all

lemma words_passes:
  assumes r: "begins r P k" and "list_all (passes r) ws" "list_all (\<lambda>w. w \<noteq> []) ws"
  shows "re_scan r b (words_text ws) = map Gap (words_text ws)"
  using assms(2,3)
proof (induction ws arbitrary: b)
  case Nil
  then show ?case by (simp add: begins_empty [OF r])
next
  case (Cons w ws)
  show ?case
  proof (cases ws)
    case Nil
    then show ?thesis
      using scan_over [of r w "[]" b] Cons.prems by (simp add: begins_empty [OF r])
  next
    case (Cons v us)
    let ?rest = "words_text ws"
    have "re_scan r b (w @ CHR '' '' # ?rest) = map Gap w @ re_scan r (rev w @ b) ('' '' @ ?rest)"
      using scan_over [of r w "CHR '' '' # ?rest" b] Cons.prems by simp
    also have "re_scan r (rev w @ b) ('' '' @ ?rest) = Gap CHR '' '' # re_scan r (CHR '' '' # rev w @ b) ?rest"
      using scan_over [OF begins_blank [OF r], of ?rest "rev w @ b"] by simp
    finally show ?thesis
      using Cons.IH Cons.prems Cons by simp
  qed
qed

lemma left_gt_after_digit:
  assumes "CHR ''>'' \<notin> set p" "CHR ''>'' \<notin> set q" "p \<noteq> []" "is_digit09 (last p)"
  shows "\<not> re_search re_left_gt (p @ CHR ''>'' # q)"
proof
  assume "re_search re_left_gt (p @ CHR ''>'' # q)"
  then obtain x y where xy: "p @ CHR ''>'' # q = x @ y" "can re_left_gt (rev x, y, [])"
    by (auto simp: re_search_can)
  then obtain z where z: "y = CHR ''>'' # z" and before: "\<not> head_is (\<lambda>c. is_digit09 c \<or> c = CHR ''&'') (rev x)"
    by (auto simp: can_def re_left_gt_def gt_gt_def matches_chr_iff)
  have "x = p"
    using xy(1) assms(1,2) unfolding z by (metis append_Cons_eq_iff)
  then show False
    using before assms(3,4) by (simp add: head_is_hd hd_rev)
qed

lemma remove_quoted_none:
  assumes "squote \<notin> set s" "dquote \<notin> set s"
  shows "remove_quoted s = s"
proof -
  have "needs (quoted q) [[q]]" for q
    unfolding quoted_def by (rule needs_seqs [of "chr q"]) (simp_all add: needs_chr)
  then have "needs re_quoted [[squote], [dquote]]"
    unfolding re_quoted_def needs_def matches_simps by fastforce
  then have "re_scan re_quoted [] s = map Gap s"
    using assms by (intro re_scan_needs) (auto simp: sublist_singleton)
  then show ?thesis
    unfolding remove_quoted_def re_sub_def by (simp only: concat_map_sub_gaps)
qed

section \<open>The verdict\<close>

lemma redirections_copied:
  assumes "list_all plain_word ws" "ws \<noteq> []" "plain_target t"
  shows "check_and_strip_redirections (words_text (ws @ [copies_to t])) vs = (True, words_text (ws @ [copies_to t]), False)"
proof -
  let ?ws = "ws @ [copies_to t]" and ?s = "words_text (ws @ [copies_to t])"
  have gt: "CHR ''>'' \<notin> set w" "w \<noteq> []" if "plain_word w" for w
    using plain_no [OF that] that by (auto simp: special_chars_def plain_word_def)
  have pass: "passes r w" if "begins r P k" "CHR ''>'' \<in> set k" "plain_word w" for r P k w
    using gt [OF that(3)] that(2) set_mono_sublist by (intro begins_passes [OF that(1)]) blast
  have ne: "list_all (\<lambda>w. w \<noteq> []) ?ws"
    using assms(1) gt(2) by (auto simp: list_all_iff copies_to_def)
  have "list_all (passes re_dup_fd) ?ws" "list_all (passes re_dev_null) ?ws" "list_all (passes re_redir) ?ws"
    using assms(1) pass [OF begins_dup] pass [OF begins_null] pass [OF begins_redir] copies_no_match [OF assms(3)]
    by (auto simp: list_all_iff)
  note scans = words_passes [OF begins_dup this(1) ne] words_passes [OF begins_null this(2) ne]
    words_passes [OF begins_redir this(3) ne]
  have "clean_redirections ?s = ?s"
    unfolding clean_redirections_def re_sub_def by (simp only: scans concat_map_sub_gaps)
  moreover have "redir_loop vs (re_scan re_redir [] ?s) = Some (?s, False)"
    by (simp only: scans redir_loop_gaps)
  moreover have "\<not> re_search re_left_gt (remove_quoted ?s)"
  proof -
    let ?p = "words_text ws @ '' 1''"
    have s: "?s = ?p @ CHR ''>'' # CHR ''&'' # t"
      using assms(2) by (simp add: words_text_last copies_to_def)
    have "c \<notin> set (words_text ws)" if "c \<in> set special_chars" "c \<noteq> CHR '' ''" for c
      using assms(1) plain_no that by (intro words_text_chars) (auto simp: list_all_iff)
    then have "CHR ''>'' \<notin> set ?p" "squote \<notin> set ?p" "dquote \<notin> set ?p"
      by (simp_all add: special_chars_def)
    moreover have "CHR ''>'' \<notin> set (CHR ''&'' # t)" "squote \<notin> set t" "dquote \<notin> set t"
      using target_no [OF assms(3)] by (simp_all add: special_chars_def)
    ultimately show ?thesis
      using left_gt_after_digit [of ?p "CHR ''&'' # t"] remove_quoted_none [of ?s]
      unfolding s by (simp add: is_digit09_def code_def)
  qed
  ultimately show ?thesis
    by (simp add: check_and_strip_redirections_def)
qed

text \<open>A program of the list of reading programs is approved with any arguments.\<close>

lemma reader_answer:
  assumes "plain_word w" "command_name w \<in> set SAFE_READ_COMMANDS"
  shows "command_answer vs bodies (w # ws) u = (True, u)"
proof -
  have no_script: "\<not> suffix ''.sh'' (command_name w) \<and> \<not> suffix ''.py'' (command_name w)"
    using assms(2) by (intro program_no_script) (simp only: known_programs_def set_append Un_iff simp_thms)
  have "unquote w = w"
    using assms(1) by (intro unquote_plain) (simp add: plain_word_def)
  moreover have "newline_char \<notin> set w"
    using assms(1) quiet_newline by (auto simp: plain_word_def list_all_iff quiet_char_def)
  ultimately have w: "unquote w = w" "newline_char \<notin> set w"
    by blast+
  then have "\<not> is_anchored_plugin_script w"
    using anchored_name [of w] no_script by (auto simp: command_name_def)
  moreover have "list_all (\<lambda>n. n \<notin> set path_writers \<and> n \<notin> set [''gradlew'', ''gradle'', ''sed'', ''awk'', ''gawk'', ''find'',
      ''fd'', ''curl'', ''gcloud'', ''kubectl'', ''tee'', ''git'', ''hg'', ''npx'', ''npm'', ''yarn'', ''pnpm'', ''cargo'', ''go'',
      ''node'', ''python'', ''python3'', ''swift'', ''bash'', ''sh'', ''zsh'']) SAFE_READ_COMMANDS"
    by code_simp
  moreover have "basename w \<in> set SAFE_READ_COMMANDS"
    using assms(2) w(1) by (simp add: command_name_def)
  ultimately have "basename w \<notin> set path_writers \<and> basename w \<notin> set [''gradlew'', ''gradle'', ''sed'', ''awk'', ''gawk'',
      ''find'', ''fd'', ''curl'', ''gcloud'', ''kubectl'', ''tee'', ''git'', ''hg'', ''npx'', ''npm'', ''yarn'', ''pnpm'',
      ''cargo'', ''go'', ''node'', ''python'', ''python3'', ''swift'', ''bash'', ''sh'', ''zsh'']"
    "\<not> is_anchored_plugin_script w" "basename w \<in> set SAFE_READ_COMMANDS"
    unfolding list_all_iff by blast+
  then show ?thesis
    using w(1) unfolding command_answer_def Let_def by simp
qed

lemma prepare_copied:
  assumes "plain_command w" "list_all plain_word us" "plain_target t"
  shows "\<exists>ts. prepare_segment vs (words_text (w # us @ [copies_to t])) = Command (w # ts) False vs"
proof -
  let ?ws = "us @ [copies_to t]" and ?s = "words_text (w # us @ [copies_to t])"
  have w: "plain_word w"
    using assms(1) by (simp add: plain_command_def)
  have ends: "hd ?s = hd w" "?s \<noteq> []" "\<not> is_space (last ?s) \<and> last ?s \<noteq> CHR '')''"
    using hd_words_text [OF w] words_text_nonempty [OF w] last_copies [OF assms(3)]
      words_text_last [of "w # us" "copies_to t"] by (auto simp: copies_to_def)
  have h: "plain_char (hd w)"
    using w by (rule plain_hd)
  have "trim ?s = ?s"
    using ends h by (intro strip_keep) (auto simp: plain_char_def)
  moreover have "strip_parens ?s = ?s"
  proof -
    have "\<not> head_is open_paren ?s" "\<not> head_is shut_paren (rev ?s)"
      using ends h by (auto simp: head_is_hd hd_rev open_paren_def shut_paren_def plain_char_def special_chars_def)
    then show ?thesis by (subst strip_parens.simps) simp
  qed
  moreover have "\<not> prefix ''#'' ?s"
    using ends h by (cases ?s) (auto simp: plain_char_def special_chars_def)
  moreover have "check_and_strip_redirections ?s vs = (True, ?s, False)"
    using redirections_copied [of "w # us" t vs] assms w by simp
  moreover have "\<exists>ts. command_tokens ?s = w # ts"
  proof -
    have "?s = w @ CHR '' '' # words_text ?ws"
      using words_text_Cons [of ?ws w] by simp
    then have "re_findall re_token ?s = w # concat (map hit_of (re_scan re_token (rev w @ []) (CHR '' '' # words_text ?ws)))"
      using scan_token_plain [OF plain_arg [OF w], of "CHR '' '' # words_text ?ws" "[]"]
      by (simp add: re_findall_def is_bare_char_def)
    then show ?thesis
      using assms(1) by (simp add: command_tokens_def plain_command_def)
  qed
  ultimately show ?thesis
    using ends(2) assms(1)
    by (auto simp: prepare_segment_def prepare_redirected_def strip_keywords_plain seg_done_plain
        strip_export_plain strip_assignments_plain simp del: join.simps append_is_Nil_conv)
qed

lemma inert_copies:
  assumes "plain_target t"
  shows "inert (copies_to t)"
proof -
  obtain c u where cu: "t = c # u"
    using target_chars(1) [OF assms] by (cases t) auto
  have quiet: "list_all quiet_char t"
    using target_chars(2) [OF assms] by (auto simp: list_all_iff quiet_char_def)
  then have c: "c \<notin> set special_chars" "c \<noteq> newline_char"
    using quiet_not_special [of "[c]" c] quiet_newline [of c] cu by auto
  have "split_scan False False False prev cur (''1>&'' @ c # u @ rest) =
      split_scan False False False (Some CHR ''&'') (cur @ ''1>&'') (c # u @ rest)"
    "resolve_scan ok False False (''1>&'' @ c # u @ rest) = map_option ((@) ''1>&'') (resolve_scan ok False False (c # u @ rest))"
    for prev cur rest ok
    using c by (auto simp: split_scan.simps resolve_scan.simps double_op_def single_op_def starts_paren_def
        special_chars_def append_funs option.map_comp o_def)
  then have sign: "split_scan False False False prev cur (copies_to t @ rest) =
      split_scan False False False (Some CHR ''&'') (cur @ ''1>&'') (t @ rest)"
    "resolve_scan ok False False (copies_to t @ rest) = map_option ((@) ''1>&'') (resolve_scan ok False False (t @ rest))"
    for prev cur rest ok
    by (simp_all only: copies_to_def cu append_Cons append_assoc)
  note plain = inert_quiet [OF quiet, unfolded inert_def]
  show ?thesis
    unfolding inert_def
  proof (intro conjI allI)
    fix prev cur rest
    obtain prev' where "split_scan False False False (Some CHR ''&'') (cur @ ''1>&'') (t @ rest)
        = split_scan False False False prev' ((cur @ ''1>&'') @ t) rest"
      using plain by blast
    then show "\<exists>prev'. split_scan False False False prev cur (copies_to t @ rest)
        = split_scan False False False prev' (cur @ copies_to t) rest"
      using sign(1) by (intro exI [of _ prev']) (simp add: copies_to_def)
  next
    fix ok rest
    have "resolve_scan ok False False (t @ rest) = map_option ((@) t) (resolve_scan ok False False rest)"
      using plain by blast
    then show "resolve_scan ok False False (copies_to t @ rest)
        = map_option ((@) (copies_to t)) (resolve_scan ok False False rest)"
      using sign(2) by (simp add: copies_to_def option.map_comp o_def append_funs)
  qed
qed

lemma copied_approved:
  assumes "plain_command w" "command_name w \<in> set SAFE_READ_COMMANDS" "list_all plain_word us" "plain_target t"
  shows "evaluate_tier1_command 0 (words_text (w # us @ [copies_to t])) = (True, False)"
proof -
  let ?s = "words_text (w # us @ [copies_to t])"
  have w: "plain_word w"
    using assms(1) by (simp add: plain_command_def)
  obtain ts where p: "prepare_segment [] ?s = Command (w # ts) False []"
    using prepare_copied [OF assms(1,3,4)] by blast
  have "''xargs'' \<notin> set SAFE_READ_COMMANDS"
    by code_simp
  then have "\<not> runs_xargs (w # ts)"
    using assms(2) by (auto simp: runs_xargs_def)
  then have seg: "is_safe_segment [] [] ?s = mk_verdict True False []"
    using p reader_answer [OF w assms(2)] by (subst is_safe_segment.simps) (simp add: answered_def)
  have item: "list_all item_word (w # us)"
    using w assms(3) by (auto simp: list_all_iff plain_item)
  have s: "?s = words_text (w # us) @ '' '' @ copies_to t"
    using words_text_last [of "w # us" "copies_to t"] by simp
  have "inert ?s"
    unfolding s by (intro inert_append inert_words [OF item] inert_copies assms(4) inert_char) (simp add: quiet_char_def)
  moreover have "hd w \<noteq> CHR ''|''"
    using plain_hd [OF w] by (auto simp: plain_char_def special_chars_def)
  ultimately have quiet: "quiet_text ?s"
    unfolding quiet_text_def hd_words_text [OF w] using words_text_nonempty [OF w] by blast
  have "CHR ''<'' \<notin> set ?s"
  proof (rule words_text_chars)
    have "CHR ''<'' \<notin> set (copies_to t)"
      using target_no [OF assms(4), of "CHR ''<''"] by (simp add: copies_to_def special_chars_def)
    then show "CHR ''<'' \<notin> set v" if "v \<in> set (w # us @ [copies_to t])" for v
      using that item item_angle [of v] by (auto simp: list_all_iff)
  qed simp
  then have "\<not> sublist ''<<'' ?s"
    using set_mono_sublist by fastforce
  moreover have "split_command_segments ?s = Some [?s]" "resolve_scan ok False False ?s = Some ?s" for ok
    using split_scan_seq [OF quiet, of "[]"] resolve_seq [OF quiet, of "[]"]
    by (simp_all add: split_command_segments_def seq_text_def del: join.simps)
  moreover have "trim ?s \<noteq> []"
    using p by (auto simp: prepare_segment_def Let_def strip_parens.simps [of "[]"])
  ultimately show ?thesis
    using seg by (simp add: evaluate_tier1_command_code strip_heredocs_none resolve_with_def judge_def mk_verdict_def Let_def
        del: join.simps)
qed

text \<open>A redirection to the same file is approved only where the file is a safe special path.\<close>

lemma redirected_verdict:
  assumes "plain_command w" "command_name w \<in> set SAFE_READ_COMMANDS" "list_all plain_word us" "plain_target t"
  shows "evaluate_tier1_command 0 (words_text (w # us @ [''>'' @ t])) =
    (if is_safe_special_target t [] then (True, True) else refuse)"
proof -
  let ?d = "''>'' @ t" and ?c = "(0, w # us @ [''>'' @ t], 0) :: padded_command"
  have w: "plain_word w"
    using assms(1) by (simp add: plain_command_def)
  have t: "t \<noteq> []" "hd t \<noteq> CHR '' ''"
    using target_chars [OF assms(4)] by (auto simp: redir_char_def)
  then have "after_blanks t = t"
    by (simp add: after_blanks_def dropWhile_eq_self_iff)
  then have d: "redirects ?d" "redirect_target ?d = t"
    using assms(4) target_chars(3) [OF assms(4)]
    by (simp_all add: redirects_def redir_ops_def redirect_target_def redir_char_def dropWhile_eq_self_iff)
  have args: "list_all arg_word (w # us)"
    using w assms(3) by (auto simp: list_all_iff plain_arg)
  have "args_of [?d] = []" "targets_of [?d] = [t]"
    using d by (simp_all add: taken_off_def)
  then have "args_of ((w # us) @ [?d]) = w # us" "targets_of ((w # us) @ [?d]) = [t]"
    using args_of_args [OF args] by (simp_all only: args_of_append targets_of_append append_Nil append_Nil2)
  then have words: "args_of (w # us @ [?d]) = w # us" "targets_of (w # us @ [?d]) = [t]"
    by (simp_all only: append_Cons)
  have even: "\<not> in_quotes v" if "plain_word v" for v
    using plain_no [OF that, of squote] plain_no [OF that, of dquote]
    by (simp add: in_quotes_def odd_count_none special_chars_def)
  moreover from this [of t] have "\<not> in_quotes ?d"
    using assms(4) by (simp add: in_quotes_def plain_target_def)
  ultimately have "list_all (\<lambda>v. \<not> in_quotes v) (us @ [?d])"
    using assms(3) by (auto simp: list_all_iff)
  moreover have "item_word ?d"
    using d(1) by (simp add: item_word_def taken_off_def)
  then have "list_all item_word (us @ [?d])"
    using assms(3) by (auto simp: list_all_iff plain_item)
  moreover have "command_name w \<noteq> ''xargs''"
  proof -
    have "''xargs'' \<notin> set SAFE_READ_COMMANDS"
      by code_simp
    then show ?thesis using assms(2) by metis
  qed
  ultimately have "script_ok ?c []"
    using assms(1) by (simp add: script_ok_def items_of_def direct_command_def calm_def)
  from script_answer [OF this, of 0] show ?thesis
    using words reader_answer [OF w assms(2)]
    by (simp add: script_text_def seq_text_def padded_def pad_def script_items_def items_of_def item_answer_def
        safe_targets_def refuse_def del: join.simps)
qed

end
