(* ===== verification/Guard_Blocklist.thy ===== *)
theory Guard_Blocklist
  imports Guard_Danger
begin

text \<open>
  What two patterns of the blocklist of \<open>autonomous-exec-hook.py\<close> catch, read off the words of a
  command. The pattern for pushes catches exactly the commands in which \<open>push\<close> follows \<open>git\<close> or \<open>hg\<close>
  after option words, each with at most one word as its value; the pattern for \<open>rm\<close> looks in a simple
  command for two flag words and a root word. The readings are recursive functions on the list of words
  and share nothing with the matcher but the classes of characters.
\<close>

section \<open>Words between white space\<close>

definition word_part :: "string \<Rightarrow> string" where
  "word_part s = takeWhile (\<lambda>c. \<not> is_space c) s"

definition after_word :: "string \<Rightarrow> string" where
  "after_word s = dropWhile (\<lambda>c. \<not> is_space c) s"

function split_words :: "string \<Rightarrow> string list" where
  "split_words [] = []"
| "split_words (c # s) =
     (if is_space c then split_words s else word_part (c # s) # split_words (after_word (c # s)))"
  by pat_completeness auto
termination
  by (relation "measure length") (auto simp: after_word_def less_Suc_eq_le length_dropWhile_le)

declare split_words.simps(2) [simp del]

definition closes :: "string \<Rightarrow> bool" where
  "closes t \<longleftrightarrow> t = [] \<or> is_space (hd t)"

lemma split_spaces: "list_all is_space w \<Longrightarrow> split_words (w @ t) = split_words t"
  by (induction w) (simp_all add: split_words.simps(2))

lemma split_word:
  assumes "nonspaces w" "closes t"
  shows "split_words (w @ t) = w # split_words t" "word_part (w @ t) = w" "after_word (w @ t) = t"
proof -
  have w: "w \<noteq> []" "\<forall>c \<in> set w. \<not> is_space c"
    using assms(1) by (auto simp: nonspaces_def list_all_iff)
  show part: "word_part (w @ t) = w" "after_word (w @ t) = t"
    using w(2) assms(2) by (cases t; simp add: word_part_def after_word_def closes_def)+
  obtain c v where c: "w = c # v" "\<not> is_space c"
    using w by (cases w) auto
  then show "split_words (w @ t) = w # split_words t"
    using part by (simp add: split_words.simps(2))
qed

text \<open>A text that begins with white space is blank, or white space, a word and a rest.\<close>

lemma spaced_cases:
  assumes "head_is is_space a"
  obtains (blank) "list_all is_space a" "split_words a = []"
    | (word) sp w t where "a = sp @ w @ t" "spaces sp" "nonspaces w" "closes t"
        "split_words a = w # split_words t"
proof -
  let ?sp = "takeWhile is_space a" and ?r = "dropWhile is_space a"
  have a: "a = ?sp @ ?r"
    by simp
  have sp: "list_all is_space ?sp" "?sp \<noteq> []"
    using assms by (cases a; auto simp: list_all_iff dest: set_takeWhileD)+
  show thesis
  proof (cases "?r = []")
    case True
    then have "list_all is_space a"
      using a sp(1) by (metis append_Nil2)
    then show thesis
      using blank split_spaces [of a "[]"] by simp
  next
    case False
    let ?w = "takeWhile (\<lambda>c. \<not> is_space c) ?r" and ?t = "dropWhile (\<lambda>c. \<not> is_space c) ?r"
    have "\<not> is_space (hd ?r)"
      using False by (rule hd_dropWhile)
    then have "nonspaces ?w"
      using False by (cases ?r) (auto simp: nonspaces_def list_all_iff dest: set_takeWhileD)
    moreover have "closes ?t"
      using hd_dropWhile [of "\<lambda>c. \<not> is_space c" ?r] by (auto simp: closes_def)
    moreover have "a = ?sp @ ?w @ ?t"
      by simp
    moreover from this have "split_words a = ?w # split_words ?t"
      using split_spaces [OF sp(1), of "?w @ ?t"] split_word(1) [OF calculation(1,2)] by simp
    moreover have "spaces ?sp"
      using sp by (simp add: spaces_def)
    ultimately show thesis
      by (intro word [of ?sp ?w ?t])
  qed
qed

text \<open>The decomposition is unique.\<close>

lemma spaced_unique:
  assumes "sp @ w @ t = sp' @ w' @ t'" "list_all is_space sp" "nonspaces w" "closes t"
    "list_all is_space sp'" "nonspaces w'" "closes t'"
  shows "sp = sp' \<and> w = w' \<and> t = t'"
proof -
  have cut: "takeWhile is_space (u @ v @ x) = u \<and> dropWhile is_space (u @ v @ x) = v @ x"
    if "list_all is_space u" "nonspaces v" for u v x
    using that by (cases v) (auto simp: nonspaces_def list_all_iff)
  have "sp = sp'" "w @ t = w' @ t'"
    using cut [OF assms(2,3), of t] cut [OF assms(5,6), of t'] assms(1) by metis+
  moreover from this have "w = w'" "t = t'"
    using split_word(2,3) [OF assms(3,4)] split_word(2,3) [OF assms(6,7)] by metis+
  ultimately show ?thesis by simp
qed

lemma closes_simps [simp]: "closes []" "closes (c # t) \<longleftrightarrow> is_space c"
  by (simp_all add: closes_def)

lemma closes_spaces: "spaces sp \<Longrightarrow> closes (sp @ t)"
  by (cases sp) (auto simp: spaces_def)

section \<open>Pushes\<close>

definition push_word :: "string \<Rightarrow> bool" where
  "push_word w \<longleftrightarrow> prefix ''push'' w \<and> word_end (drop 4 w)"

definition dash_word :: "string \<Rightarrow> bool" where
  "dash_word w \<longleftrightarrow> prefix ''-'' w \<and> w \<noteq> ''-''"

text \<open>\<open>push\<close> comes after option words, each of which may have the word after it as its value.\<close>

fun push_after :: "string list \<Rightarrow> bool" where
  "push_after [] = False"
| "push_after [w] = push_word w"
| "push_after (w # v # ws) =
     (push_word w \<or> dash_word w \<and> (push_after (v # ws) \<or> push_after ws))"

lemma push_after_Cons:
  "push_after (w # ws) \<longleftrightarrow> push_word w \<or> dash_word w \<and> (push_after ws \<or> push_after (tl ws))"
  by (cases ws) auto

text \<open>One option of \<open>git\<close> or \<open>hg\<close>, with or without a separate value.\<close>

definition option_text :: "string \<Rightarrow> bool" where
  "option_text w \<longleftrightarrow> (\<exists>sp nm. spaces sp \<and> nonspaces nm \<and>
     (w = sp @ ''-'' @ nm \<or>
      (\<exists>sp2 v. spaces sp2 \<and> nonspaces v \<and> w = sp @ ''-'' @ nm @ sp2 @ v)))"

lemma matches_spaces: "spaces w \<Longrightarrow> matches (plus space) (b, w @ q, g) (rev w @ b, q, g)"
  unfolding space_def spaces_def by (blast intro: matches_plus_cls)

lemma matches_nonspaces:
  "nonspaces w \<Longrightarrow> matches (plus nonspace) (b, w @ q, g) (rev w @ b, q, g)"
  unfolding nonspace_def nonspaces_def by (blast intro: matches_plus_cls)

lemma matches_option:
  assumes "option_text w"
  shows "matches re_option_arg (b, w @ q, g) (rev w @ b, q, g)"
proof -
  obtain sp nm v where w: "w = sp @ ''-'' @ nm @ v" "spaces sp" "nonspaces nm"
    and v: "v = [] \<or> (\<exists>sp2 x. spaces sp2 \<and> nonspaces x \<and> v = sp2 @ x)"
    using assms unfolding option_text_def by (metis append_Nil2)
  let ?b = "rev nm @ CHR ''-'' # rev sp @ b"
  have "matches (plus space) (b, sp @ CHR ''-'' # nm @ v @ q, g)
      (rev sp @ b, CHR ''-'' # nm @ v @ q, g)"
    using w(2) by (rule matches_spaces)
  moreover have "matches (chr CHR ''-'') (rev sp @ b, CHR ''-'' # nm @ v @ q, g)
      (CHR ''-'' # rev sp @ b, nm @ v @ q, g)"
    by (rule matches_chr)
  moreover have "matches (plus nonspace) (CHR ''-'' # rev sp @ b, nm @ v @ q, g)
      (?b, v @ q, g)"
    using w(3) by (rule matches_nonspaces)
  moreover have "matches (opt (Seq (plus space) (plus nonspace))) (?b, v @ q, g)
      (rev v @ ?b, q, g)"
    using v
  proof (elim disjE exE conjE)
    fix sp2 x assume sp2: "spaces sp2" "nonspaces x" "v = sp2 @ x"
    have "matches (plus space) (?b, sp2 @ x @ q, g) (rev sp2 @ ?b, x @ q, g)"
      using sp2(1) by (rule matches_spaces)
    moreover have "matches (plus nonspace) (rev sp2 @ ?b, x @ q, g) (rev x @ rev sp2 @ ?b, q, g)"
      using sp2(2) by (rule matches_nonspaces)
    ultimately show ?thesis
      using sp2(3) by (auto simp: matches_opt_iff)
  qed (simp add: matches_opt_iff)
  ultimately have "matches re_option_arg (b, sp @ CHR ''-'' # nm @ v @ q, g) (rev v @ ?b, q, g)"
    unfolding re_option_arg_def seqs.simps by (blast intro: matches.seq)
  then show ?thesis by (simp add: w(1))
qed

lemma option_reads: "reads re_option_arg option_text"
proof -
  let ?P = "\<lambda>w. \<exists>u v. w = u @ v \<and> (u \<noteq> [] \<and> list_all is_space u) \<and>
      (\<exists>u' v'. v = u' @ v' \<and> u' = ''-'' \<and> (\<exists>x y. v' = x @ y \<and> (x \<noteq> [] \<and> list_all (\<lambda>c. \<not> is_space c) x) \<and>
        ((\<exists>x' y'. y = x' @ y' \<and> (x' \<noteq> [] \<and> list_all is_space x') \<and> (y' \<noteq> [] \<and> list_all (\<lambda>c. \<not> is_space c) y'))
          \<or> y = [])))"
  have r: "reads re_option_arg ?P"
    unfolding re_option_arg_def seqs.simps space_def nonspace_def by (intro reads_intros)
  have "?P w \<longleftrightarrow> option_text w" for w
  proof
    show "option_text w" if "?P w"
      using that unfolding option_text_def spaces_def nonspaces_def by (elim exE conjE disjE) blast+
  next
    assume "option_text w"
    then have "matches re_option_arg ([], w, []) (rev w, [], [])"
      using matches_option [of w "[]" "[]" "[]"] by simp
    then show "?P w"
      unfolding reads_iff [OF r] by auto
  qed
  then have "?P = option_text"
    by (rule ext)
  then show ?thesis
    using r by (simp only:)
qed

lemma can_star_step:
  assumes "reads r P"
  shows "can (Seq (star r) s) (b, a, g) \<longleftrightarrow> can s (b, a, g) \<or>
    (\<exists>w a'. P w \<and> w \<noteq> [] \<and> a = w @ a' \<and> can (Seq (star r) s) (rev w @ b, a', g))"
proof
  assume "can (Seq (star r) s) (b, a, g)"
  then obtain st1 st2 where m: "matches (star r) (b, a, g) st1" "matches s st1 st2"
    by (auto simp: can_def)
  show "can s (b, a, g) \<or> (\<exists>w a'. P w \<and> w \<noteq> [] \<and> a = w @ a' \<and> can (Seq (star r) s) (rev w @ b, a', g))"
  proof (cases "st1 = (b, a, g)")
    case True
    then have "can s (b, a, g)"
      using m(2) unfolding can_def by blast
    then show ?thesis ..
  next
    case False
    then obtain b1 a1 g1 where r: "matches r (b, a, g) (b1, a1, g1)" "length a1 < length a"
        "matches (star r) (b1, a1, g1) st1"
      using m(1) unfolding star_def by (auto elim: matches_manyE)
    then obtain w where w: "P w" "a = w @ a1" "b1 = rev w @ b" "g1 = g" "w \<noteq> []"
      by (auto simp: reads_iff [OF assms])
    moreover have "can (Seq (star r) s) (b1, a1, g1)"
      using r(3) m(2) unfolding can_def by (blast intro: matches.seq)
    ultimately show ?thesis by blast
  qed
next
  assume "can s (b, a, g) \<or> (\<exists>w a'. P w \<and> w \<noteq> [] \<and> a = w @ a' \<and> can (Seq (star r) s) (rev w @ b, a', g))"
  then show "can (Seq (star r) s) (b, a, g)"
  proof (elim disjE exE conjE)
    assume "can s (b, a, g)"
    then show ?thesis
      by (auto simp: can_def star_def intro: matches.many0)
  next
    fix w a'
    assume w: "P w" "w \<noteq> []" "a = w @ a'" and rest: "can (Seq (star r) s) (rev w @ b, a', g)"
    have "matches r (b, a, g) (rev w @ b, a', g)"
      using w by (auto simp: reads_iff [OF assms])
    then show ?thesis
      using rest w unfolding can_def star_def by (fastforce intro: matches.many1)
  qed
qed

abbreviation push_end :: re where
  "push_end \<equiv> Seq (plus space) (Seq (lit ''push'') WordB)"

lemma can_push_end:
  "can push_end (b, a, g) \<longleftrightarrow> (\<exists>sp q. spaces sp \<and> a = sp @ ''push'' @ q \<and> word_end q)"
proof -
  have "is_word CHR ''h''"
    by code_simp
  then have "can WordB (rev ''push'' @ b', q, g) \<longleftrightarrow> word_end q" for b' q
    by (simp add: can_def at_word_boundary_def word_end_def)
  then show ?thesis
    unfolding space_def by (auto simp: can_seq [OF reads_plus_cls] can_seq [OF reads_lit] spaces_def)
qed

text \<open>What begins after the white space begins the first word.\<close>

lemma spaced_start:
  assumes "sp @ w @ t = sp' @ u @ q" "list_all is_space sp" "nonspaces w" "closes t"
    "list_all is_space sp'" "nonspaces u"
  shows "sp = sp' \<and> (\<exists>r. w = u @ r \<and> q = r @ t)"
proof -
  have q: "q = word_part q @ after_word q" "list_all (\<lambda>c. \<not> is_space c) (word_part q)" "closes (after_word q)"
    using hd_dropWhile [of "\<lambda>c. \<not> is_space c" q]
    by (auto simp: word_part_def after_word_def closes_def list_all_iff dest: set_takeWhileD)
  then have "nonspaces (u @ word_part q)" "sp @ w @ t = sp' @ (u @ word_part q) @ after_word q"
    using assms(1,6) by (auto simp: nonspaces_def)
  then show ?thesis
    using spaced_unique [of sp w t sp' "u @ word_part q" "after_word q"] assms(2-5) q by metis
qed

lemma word_end_closed:
  assumes "closes t"
  shows "word_end (r @ t) \<longleftrightarrow> word_end r"
proof (cases r)
  case Nil
  have "word_end t"
    using assms is_word_space_disjoint by (cases t) (simp_all add: word_end_def)
  then show ?thesis
    by (simp add: Nil word_end_def)
qed (simp add: word_end_def)

lemma push_end_word:
  assumes "spaces sp" "nonspaces w" "closes t"
  shows "can push_end (b, sp @ w @ t, g) \<longleftrightarrow> push_word w"
proof -
  have push: "nonspaces ''push''"
    by code_simp
  have sp: "list_all is_space sp"
    using assms(1) by (simp add: spaces_def)
  have "(\<exists>sp' q. spaces sp' \<and> sp @ w @ t = sp' @ ''push'' @ q \<and> word_end q) \<longleftrightarrow>
      (\<exists>r. w = ''push'' @ r \<and> word_end (r @ t))"
  proof (intro iffI; elim exE conjE)
    fix sp' q
    assume q: "spaces sp'" "sp @ w @ t = sp' @ ''push'' @ q" "word_end q"
    then have "\<exists>r. w = ''push'' @ r \<and> q = r @ t"
      using spaced_start [OF q(2) sp assms(2,3) _ push] by (simp add: spaces_def)
    then show "\<exists>r. w = ''push'' @ r \<and> word_end (r @ t)"
      using q(3) by blast
  next
    fix r
    assume "w = ''push'' @ r" "word_end (r @ t)"
    then show "\<exists>sp' q. spaces sp' \<and> sp @ w @ t = sp' @ ''push'' @ q \<and> word_end q"
      using assms(1) by (intro exI [of _ sp] exI [of _ "r @ t"]) simp
  qed
  moreover have "(\<exists>r. w = ''push'' @ r \<and> word_end (r @ t)) \<longleftrightarrow> push_word w"
    unfolding word_end_closed [OF assms(3)] by (auto simp: push_word_def prefix_def)
  ultimately show ?thesis
    unfolding can_push_end by (rule trans)
qed

lemma option_shape:
  assumes "option_text u" "sp @ w @ t = u @ a'" "list_all is_space sp" "nonspaces w" "closes t" "closes a'"
  shows "dash_word w \<and> (a' = t \<or> (\<exists>sp2 v. spaces sp2 \<and> nonspaces v \<and> t = sp2 @ v @ a'))"
proof -
  obtain sp' nm x where u: "u = sp' @ (''-'' @ nm) @ x" "spaces sp'" "nonspaces nm"
    and x: "x = [] \<or> (\<exists>sp2 v. spaces sp2 \<and> nonspaces v \<and> x = sp2 @ v)"
    using assms(1) unfolding option_text_def by (metis append_Nil2 append_assoc)
  have "nonspaces (''-'' @ nm)"
    using u(3) by (simp add: nonspaces_def is_space_def code_def)
  moreover have "closes (x @ a')"
    using x assms(6) closes_spaces by auto
  moreover have "sp @ w @ t = sp' @ (''-'' @ nm) @ x @ a'"
    using assms(2) u(1) by simp
  ultimately have "w = ''-'' @ nm" "t = x @ a'"
    using spaced_unique [of sp w t sp' "''-'' @ nm" "x @ a'"] assms(3-5) u(2) by (auto simp: spaces_def)
  then show ?thesis
    using x u(3) by (auto simp: dash_word_def nonspaces_def)
qed

abbreviation push_tail :: re where
  "push_tail \<equiv> Seq (star re_option_arg) push_end"

lemma push_tail_space: "can push_tail (b, a, g) \<Longrightarrow> head_is is_space a"
proof -
  assume "can push_tail (b, a, g)"
  then have "can push_end (b, a, g) \<or> (\<exists>w a'. option_text w \<and> a = w @ a')"
    using can_star_step [OF option_reads] by metis
  then show ?thesis
  proof (elim disjE exE conjE)
    assume "can push_end (b, a, g)"
    then obtain sp where "spaces sp" "\<exists>q. a = sp @ q"
      unfolding can_push_end by blast
    then show ?thesis
      by (cases sp) (auto simp: spaces_def)
  next
    fix w a'
    assume "option_text w" "a = w @ a'"
    then obtain sp where "spaces sp" "\<exists>q. a = sp @ q"
      by (auto simp: option_text_def)
    then show ?thesis
      by (cases sp) (auto simp: spaces_def)
  qed
qed

lemma head_closes: "head_is is_space a \<Longrightarrow> closes a"
  by (cases a) auto

lemma push_tail_words:
  "can push_tail (b, a, g) \<longleftrightarrow> head_is is_space a \<and> push_after (split_words a)"
proof (induction "length a" arbitrary: a b rule: less_induct)
  case less
  show ?case
  proof (cases "head_is is_space a")
    case False
    then show ?thesis
      using push_tail_space by blast
  next
    case True
    then show ?thesis
    proof (cases rule: spaced_cases)
      case blank
      have "\<not> can push_tail (b, a, g)"
      proof
        assume "can push_tail (b, a, g)"
        then have "can push_end (b, a, g) \<or> (\<exists>w a'. option_text w \<and> a = w @ a')"
          using can_star_step [OF option_reads] by metis
        then have "CHR ''p'' \<in> set a \<or> CHR ''-'' \<in> set a"
          by (auto simp: can_push_end option_text_def)
        then show False
          using blank(1) by (auto simp: list_all_iff is_space_def code_def)
      qed
      then show ?thesis
        using blank by simp
    next
      case (word sp w t)
      note a = word(1)
      have shorter: "length t < length a"
        using word(2) by (cases sp) (auto simp: a spaces_def)
      have "(\<exists>u a'. option_text u \<and> u \<noteq> [] \<and> a = u @ a' \<and> can push_tail (rev u @ b, a', g)) \<longleftrightarrow>
          dash_word w \<and> (push_after (split_words t) \<or> push_after (tl (split_words t)))" (is "?l \<longleftrightarrow> ?r")
      proof
        assume ?l
        then obtain u a' where u: "option_text u" "a = u @ a'" "can push_tail (rev u @ b, a', g)"
          by blast
        note sp = push_tail_space [OF u(3)]
        have shape: "dash_word w \<and> (a' = t \<or> (\<exists>sp2 v. spaces sp2 \<and> nonspaces v \<and> t = sp2 @ v @ a'))"
          using option_shape [OF u(1), of sp w t a'] u(2) a word(2-4) head_closes [OF sp] by (simp add: spaces_def)
        have "length a' < length a"
          using u(1,2) by (auto simp: option_text_def)
        then have "push_after (split_words a')"
          using less u(3) by blast
        moreover have "split_words t = v # split_words a'" if "spaces sp2" "nonspaces v" "t = sp2 @ v @ a'" for sp2 v
          using that split_spaces [of sp2] split_word(1) head_closes [OF sp] by (simp add: spaces_def)
        ultimately show ?r
          using shape by auto
      next
        assume r: ?r
        then have dash: "dash_word w" ..
        then obtain nm where nm: "w = ''-'' @ nm"
          by (auto simp: dash_word_def prefix_def)
        then have nm: "w = ''-'' @ nm" "nonspaces nm"
          using dash word(3) by (auto simp: dash_word_def nonspaces_def)
        have "head_is is_space t"
          using r word(4) by (cases t) auto
        then show ?l
        proof (cases rule: spaced_cases)
          case blank
          then show ?thesis using r by simp
        next
          case (word sp2 v x)
          show ?thesis
          proof (cases "push_after (split_words t)")
            case True
            have "option_text (sp @ w)"
              using \<open>spaces sp\<close> nm by (auto simp: option_text_def)
            moreover have "can push_tail (rev (sp @ w) @ b, t, g)"
              using less [OF shorter] True \<open>head_is is_space t\<close> by blast
            ultimately show ?thesis
              using a nm by (intro exI [of _ "sp @ w"] exI [of _ t]) simp
          next
            case False
            then have x: "push_after (split_words x)"
              using r word by simp
            then have "head_is is_space x"
              using word(4) by (cases x) auto
            moreover have "length x < length a"
              using shorter word(1) by simp
            ultimately have "can push_tail (rev (sp @ w @ sp2 @ v) @ b, x, g)"
              using less x by blast
            moreover have "option_text (sp @ w @ sp2 @ v)"
              using \<open>spaces sp\<close> nm word by (auto simp: option_text_def)
            ultimately show ?thesis
              using a nm word(1) by (intro exI [of _ "sp @ w @ sp2 @ v"] exI [of _ x]) simp
          qed
        qed
      qed
      moreover have "can push_end (b, a, g) \<longleftrightarrow> push_word w"
        unfolding a by (rule push_end_word [OF word(2-4)])
      ultimately have "can push_tail (b, a, g) \<longleftrightarrow> push_after (w # split_words t)"
        unfolding push_after_Cons can_star_step [OF option_reads, of push_end b a g] by (simp only:)
      then show ?thesis
        using True word(5) by (simp only: simp_thms)
    qed
  qed
qed

text \<open>The pattern for pushes, read as words.\<close>

theorem push_pattern:
  "re_search re_push s \<longleftrightarrow>
     (\<exists>p v q. s = p @ v @ q \<and> v \<in> {''git'', ''hg''} \<and> word_start p \<and> head_is is_space q \<and>
        push_after (split_words q))"
proof -
  have "can re_push (rev p, x, []) \<longleftrightarrow>
      (\<exists>v q. x = v @ q \<and> v \<in> {''git'', ''hg''} \<and> word_start p \<and> can push_tail (rev v @ rev p, q, []))" for p x
  proof -
    have bound: "can (Seq WordB r) (b, a, g) \<longleftrightarrow> at_word_boundary b a \<and> can r (b, a, g)" for r b a g
      by (auto simp: can_def)
    have tail: "at_word_boundary (rev v @ rev p) q \<and> can push_tail st \<longleftrightarrow> can push_tail st"
      if "v \<in> {''git'', ''hg''}" "st = (rev v @ rev p, q, [])" for v q st
    proof -
      have "head_is is_word (rev v @ rev p)"
        using that(1) by (auto simp: is_word_def is_alnum_def is_alnum_az_def is_alpha_az_code)
      moreover have "\<not> head_is is_word q" if "head_is is_space q"
        using that is_word_space_disjoint by (cases q) auto
      ultimately show ?thesis
        using push_tail_space that(2) unfolding at_word_boundary_def by blast
    qed
    have first: "at_word_boundary (rev p) (v @ q) \<longleftrightarrow> word_start p" if "v \<in> {''git'', ''hg''}" for v q
      using that by (auto simp: at_word_boundary_def word_start_def is_word_def is_alnum_def is_alnum_az_def is_alpha_az_code)
    have "can re_push (rev p, x, []) \<longleftrightarrow> (\<exists>v q. v \<in> {''git'', ''hg''} \<and> x = v @ q \<and>
        at_word_boundary (rev p) (v @ q) \<and> (at_word_boundary (rev v @ rev p) q \<and> can push_tail (rev v @ rev p, q, [])))"
      unfolding re_push_def seqs.simps bound can_seq [OF reads_lits] list.set by blast
    also have "\<dots> \<longleftrightarrow> (\<exists>v q. x = v @ q \<and> v \<in> {''git'', ''hg''} \<and> word_start p \<and> can push_tail (rev v @ rev p, q, []))"
    proof (intro ex_cong1)
      fix v q
      show "v \<in> {''git'', ''hg''} \<and> x = v @ q \<and> at_word_boundary (rev p) (v @ q) \<and>
          (at_word_boundary (rev v @ rev p) q \<and> can push_tail (rev v @ rev p, q, [])) \<longleftrightarrow>
        x = v @ q \<and> v \<in> {''git'', ''hg''} \<and> word_start p \<and> can push_tail (rev v @ rev p, q, [])"
      proof (cases "v \<in> {''git'', ''hg''}")
        case True
        then show ?thesis
          unfolding tail [OF True refl] first [OF True] by (simp only: simp_thms)
      qed (simp only: simp_thms)
    qed
    finally show ?thesis .
  qed
  note here = this [unfolded push_tail_words]
  have flat: "(\<exists>x. s = p @ x \<and> (\<exists>v q. x = v @ q \<and> Z v q)) \<longleftrightarrow> (\<exists>v q. s = p @ v @ q \<and> Z v q)" for p Z
    by blast
  show ?thesis
    by (simp only: re_search_can here flat)
qed

section \<open>Removals of a root\<close>

text \<open>
  The words of \<open>args\<close> that white space precedes, and a test of the word that begins at some place after
  white space.
\<close>

definition later_words :: "string \<Rightarrow> string list" where
  "later_words args = split_words (after_word args)"

definition spot :: "(string \<Rightarrow> bool) \<Rightarrow> string \<Rightarrow> bool" where
  "spot G a \<longleftrightarrow> (\<exists>x c v. a = x @ c # v \<and> is_space c \<and> G (word_part v))"

lemma word_part_simps [simp]:
  "word_part [] = []"
  "word_part (c # v) = (if is_space c then [] else c # word_part v)"
  by (simp_all add: word_part_def)

lemma spot_Cons: "spot G (c # v) \<longleftrightarrow> is_space c \<and> G (word_part v) \<or> spot G v"
  unfolding spot_def Cons_eq_append_conv by blast

lemma spot_Nil [simp]: "\<not> spot G []"
  by (simp add: spot_def)

lemma spot_word: "list_all (\<lambda>c. \<not> is_space c) w \<Longrightarrow> spot G (w @ t) \<longleftrightarrow> spot G t"
  by (induction w) (auto simp: spot_Cons)

lemma spot_spaces:
  assumes "\<not> G []" "spaces sp"
  shows "spot G (sp @ t) \<longleftrightarrow> G (word_part t) \<or> spot G t"
proof -
  have "list_all is_space u \<Longrightarrow> is_space c \<Longrightarrow> spot G ((c # u) @ t) \<longleftrightarrow> G (word_part t) \<or> spot G t" for u c
    using assms(1) by (induction u arbitrary: c) (auto simp: spot_Cons)
  then show ?thesis
    using assms(2) by (cases sp) (auto simp: spaces_def)
qed

lemma spots_closed:
  assumes "\<not> G []" "closes a"
  shows "spot G a \<longleftrightarrow> list_ex G (split_words a)"
  using assms(2)
proof (induction "length a" arbitrary: a rule: less_induct)
  case less
  show ?case
  proof (cases "a = []")
    case False
    then have "head_is is_space a"
      using less.prems by (cases a) auto
    then show ?thesis
    proof (cases rule: spaced_cases)
      case blank
      then have "spot G (a @ []) \<longleftrightarrow> False"
        using assms(1) False spot_spaces [of G a "[]"] by (simp add: spaces_def)
      then show ?thesis
        using blank(2) by simp
    next
      case (word sp w t)
      have "length t < length a"
        using word(1,2) by (cases sp) (auto simp: spaces_def)
      then have t: "spot G t \<longleftrightarrow> list_ex G (split_words t)"
        using less.hyps word(4) by blast
      have "spot G a \<longleftrightarrow> G w \<or> spot G t"
        using spot_spaces [of G sp "w @ t"] spot_word [of w G t] split_word(2) [OF word(3,4)] assms(1) word(2,3)
        by (simp add: word(1) nonspaces_def)
      then show ?thesis
        using t by (simp add: word(5))
    qed
  qed simp
qed

lemma parts:
  "s = word_part s @ after_word s" "closes (after_word s)" "list_all (\<lambda>c. \<not> is_space c) (word_part s)"
  using hd_dropWhile [of "\<lambda>c. \<not> is_space c" s]
  by (auto simp: word_part_def after_word_def closes_def list_all_iff dest: set_takeWhileD)

lemma spot_words:
  assumes "\<not> G []"
  shows "spot G args \<longleftrightarrow> list_ex G (later_words args)"
proof -
  have "spot G (word_part args @ after_word args) \<longleftrightarrow> list_ex G (split_words (after_word args))"
    unfolding spot_word [OF parts(3)] by (rule spots_closed) (use assms parts(2) in auto)
  then show ?thesis
    by (simp only: later_words_def parts(1) [symmetric])
qed

text \<open>The words that the pattern looks for.\<close>

definition letter_flag :: "string \<Rightarrow> string \<Rightarrow> string \<Rightarrow> bool" where
  "letter_flag letters long w \<longleftrightarrow> prefix long w \<or>
     prefix ''-'' w \<and> list_ex (\<lambda>c. c \<in> set letters) (takeWhile is_alpha_az (tl w))"

definition root_word :: "string \<Rightarrow> bool" where
  "root_word w \<longleftrightarrow> w = ''/'' \<or> prefix ''/*'' w \<or> w = ''~'' \<or> prefix ''~/'' w \<or>
     prefix ''$HOME'' w \<and> word_end (drop 5 w) \<or> prefix ''${HOME}'' w"

definition removes_root :: "string list \<Rightarrow> bool" where
  "removes_root ws \<longleftrightarrow> list_ex (letter_flag ''rR'' ''--recursive'') ws \<and>
     list_ex (letter_flag ''f'' ''--force'') ws \<and> list_ex root_word ws"

lemma prefix_part:
  assumes "list_all (\<lambda>c. \<not> is_space c) u"
  shows "prefix u (word_part v) \<longleftrightarrow> prefix u v"
  using assms
proof (induction u arbitrary: v)
  case (Cons c u)
  then show ?case
    by (cases v) auto
qed simp

lemma letters_part: "takeWhile is_alpha_az (word_part v) = takeWhile is_alpha_az v"
proof -
  have "\<not> is_alpha_az c" if "is_space c" for c
    using is_word_space_disjoint [OF that] by (auto simp: is_word_def is_alnum_def is_alnum_az_def)
  then show ?thesis
    by (induction v) auto
qed

lemma letter_flag_part:
  assumes "list_all (\<lambda>c. \<not> is_space c) long"
  shows "letter_flag letters long (word_part v) \<longleftrightarrow> prefix long v \<or>
    prefix ''-'' v \<and> list_ex (\<lambda>c. c \<in> set letters) (takeWhile is_alpha_az (tl v))"
proof -
  have "\<not> is_space CHR ''-''"
    by code_simp
  then have "prefix ''-'' (word_part v) \<longleftrightarrow> prefix ''-'' v" "prefix ''-'' v \<Longrightarrow> tl (word_part v) = word_part (tl v)"
    using prefix_part [of "''-''" v] by (simp_all add: prefix_def) auto
  then show ?thesis
    unfolding letter_flag_def prefix_part [OF assms] using letters_part [of "tl v"] by auto
qed

lemma root_word_part:
  "root_word (word_part v) \<longleftrightarrow>
     (\<exists>q. v = CHR ''/'' # q \<and> (q = [] \<or> hd q = CHR ''*'' \<or> is_space (hd q))) \<or>
     (\<exists>q. v = CHR ''~'' # q \<and> (q = [] \<or> hd q = CHR ''/'' \<or> is_space (hd q))) \<or>
     (\<exists>q. v = ''$HOME'' @ q \<and> word_end q) \<or> (\<exists>q. v = ''${HOME}'' @ q)"
proof -
  have spelled: "\<not> is_space CHR ''/''" "\<not> is_space CHR ''*''" "\<not> is_space CHR ''~''"
    "list_all (\<lambda>c. \<not> is_space c) ''$HOME''" "list_all (\<lambda>c. \<not> is_space c) ''${HOME}''"
    by code_simp+
  have one: "word_part v = [c] \<or> prefix [c, d] (word_part v) \<longleftrightarrow>
      (\<exists>q. v = c # q \<and> (q = [] \<or> hd q = d \<or> is_space (hd q)))" if "\<not> is_space c" "\<not> is_space d" for c d
    using that by (cases v; cases "tl v") auto
  have long: "prefix u (word_part v) \<longleftrightarrow> (\<exists>q. v = u @ q)" if "list_all (\<lambda>c. \<not> is_space c) u" for u
    using prefix_part [OF that] by (simp add: prefix_def)
  have "word_end (drop 5 (word_part v)) \<longleftrightarrow> word_end (drop 5 v)" if "prefix ''$HOME'' (word_part v)"
  proof -
    have "word_end (drop 5 (word_part v)) \<longleftrightarrow> word_end (drop 5 (word_part v) @ after_word v)"
      using word_end_closed [OF parts(2)] by blast
    also have "drop 5 (word_part v) @ after_word v = drop 5 v"
    proof -
      obtain x where "word_part v = ''$HOME'' @ x"
        using \<open>prefix ''$HOME'' (word_part v)\<close> by (auto simp: prefix_def)
      moreover from this have "v = ''$HOME'' @ x @ after_word v"
        using parts(1) [of v] by simp
      ultimately have "word_part v = ''$HOME'' @ x" "drop 5 v = drop 5 (''$HOME'' @ x @ after_word v)"
        by simp_all
      then show ?thesis by simp
    qed
    finally show ?thesis .
  qed
  then have "prefix ''$HOME'' (word_part v) \<and> word_end (drop 5 (word_part v)) \<longleftrightarrow> (\<exists>q. v = ''$HOME'' @ q \<and> word_end q)"
    using long [OF spelled(4)] by auto
  then show ?thesis
    using one [of "CHR ''/''" "CHR ''*''"] one [of "CHR ''~''" "CHR ''/''"] long [of "''${HOME}''"] spelled
    unfolding root_word_def by blast
qed

lemma can_look: "can (Seq (Look r) s) st \<longleftrightarrow> can r st \<and> can s st"
  by (auto simp: can_def)

lemma can_wordb: "can (Seq WordB r) (b, a, g) \<longleftrightarrow> at_word_boundary b a \<and> can r (b, a, g)"
  by (auto simp: can_def)

lemma can_alt: "can (Alt r s) st \<longleftrightarrow> can r st \<or> can s st"
  by (auto simp: can_def)

lemma can_first:
  "can (Seq (Cls p) r) (b, a, g) \<longleftrightarrow> (\<exists>c a'. a = c # a' \<and> p c \<and> can r (c # b, a', g))"
  "can (Seq (chr d) r) (b, a, g) \<longleftrightarrow> (\<exists>a'. a = d # a' \<and> can r (d # b, a', g))"
  by (auto simp: can_seq [OF reads_cls] can_seq [OF reads_chr])

lemma can_flag:
  assumes r: "reads r (\<lambda>w. \<exists>c. w = [c] \<and> c \<in> set letters)" and letters: "\<And>l. l \<in> set letters \<Longrightarrow> is_alpha_az l"
    and long: "list_all (\<lambda>c. \<not> is_space c) long"
  shows "can (Alt (seqs [space, chr CHR ''-'', star (Cls is_alpha_az), r]) (Seq space (lit long))) (b, a, g) \<longleftrightarrow>
    (\<exists>c v. a = c # v \<and> is_space c \<and> letter_flag letters long (word_part v))"
proof -
  have "can (seqs [space, chr CHR ''-'', star (Cls is_alpha_az), r]) (b, a, g) \<longleftrightarrow>
      (\<exists>c v. a = c # CHR ''-'' # v \<and> is_space c \<and>
        (\<exists>ls l z. v = ls @ l # z \<and> list_all is_alpha_az ls \<and> l \<in> set letters))"
  proof -
    have "can r (b', x, g) \<longleftrightarrow> (\<exists>l z. x = l # z \<and> l \<in> set letters)" for b' x
      unfolding can_reads [OF r] by auto
    moreover have "(\<exists>w x. list_all is_alpha_az w \<and> v = w @ x \<and> (\<exists>l z. x = l # z \<and> l \<in> set letters)) \<longleftrightarrow>
        (\<exists>ls l z. v = ls @ l # z \<and> list_all is_alpha_az ls \<and> l \<in> set letters)" for v
      by blast
    ultimately show ?thesis
      unfolding seqs.simps space_def can_first can_seq [OF reads_star_cls] by (simp only:) blast
  qed
  also have "\<dots> \<longleftrightarrow> (\<exists>c v. a = c # v \<and> is_space c \<and> prefix ''-'' v \<and>
      list_ex (\<lambda>c. c \<in> set letters) (takeWhile is_alpha_az (tl v)))"
  proof -
    have "(\<exists>ls l z. v = ls @ l # z \<and> list_all is_alpha_az ls \<and> l \<in> set letters) \<longleftrightarrow>
        list_ex (\<lambda>c. c \<in> set letters) (takeWhile is_alpha_az v)" for v
      using letters by (rule ex_takeWhile)
    moreover have "(\<exists>v. a = c # CHR ''-'' # v \<and> is_space c \<and> Q v) \<longleftrightarrow>
        (\<exists>v. a = c # v \<and> is_space c \<and> prefix ''-'' v \<and> Q (tl v))" for c Q
      by (auto simp: prefix_def)
    ultimately show ?thesis
      by (simp only:)
  qed
  finally have one: "can (seqs [space, chr CHR ''-'', star (Cls is_alpha_az), r]) (b, a, g) \<longleftrightarrow>
    (\<exists>c v. a = c # v \<and> is_space c \<and> prefix ''-'' v \<and>
      list_ex (\<lambda>c. c \<in> set letters) (takeWhile is_alpha_az (tl v)))" .
  have "can (Seq space (lit long)) (b, a, g) \<longleftrightarrow> (\<exists>c v. a = c # v \<and> is_space c \<and> prefix long v)"
    unfolding space_def can_first can_reads [OF reads_lit] prefix_def by blast
  then show ?thesis
    unfolding can_alt one letter_flag_part [OF long] by blast
qed

lemma can_within:
  assumes "list_all in_segment args" "\<And>b a. can r (b, a, g) \<longleftrightarrow> (\<exists>c v. a = c # v \<and> is_space c \<and> G (word_part v))"
  shows "can (Seq (star (Cls in_segment)) r) (b, args, g) \<longleftrightarrow> spot G args"
  using assms(1) unfolding can_seq [OF reads_star_cls] assms(2) spot_def by fastforce

lemma flag_spots:
  assumes "list_all in_segment args"
  shows "can (Seq (star (Cls in_segment)) re_recursive_flag) (b, args, g) \<longleftrightarrow>
      list_ex (letter_flag ''rR'' ''--recursive'') (later_words args)"
    "can (Seq (star (Cls in_segment)) re_force_flag) (b, args, g) \<longleftrightarrow>
      list_ex (letter_flag ''f'' ''--force'') (later_words args)"
proof -
  have long: "list_all (\<lambda>c. \<not> is_space c) ''--recursive''" "list_all (\<lambda>c. \<not> is_space c) ''--force''"
    by code_simp+
  have letters: "l \<in> set ''rR'' \<Longrightarrow> is_alpha_az l" "l \<in> set ''f'' \<Longrightarrow> is_alpha_az l" for l
    by (auto simp: is_alpha_az_code)
  have f: "reads (chr CHR ''f'') (\<lambda>w. \<exists>c. w = [c] \<and> c \<in> set ''f'')"
    using reads_chr by simp
  have none: "\<not> letter_flag ''rR'' ''--recursive'' []" "\<not> letter_flag ''f'' ''--force'' []"
    by (simp_all add: letter_flag_def)
  show "can (Seq (star (Cls in_segment)) re_recursive_flag) (b, args, g) \<longleftrightarrow>
      list_ex (letter_flag ''rR'' ''--recursive'') (later_words args)"
    unfolding re_recursive_flag_def spot_words [of "letter_flag ''rR'' ''--recursive''", OF none(1), symmetric]
    by (rule can_within [OF assms can_flag [OF reads_one_of letters(1) long(1)]])
  show "can (Seq (star (Cls in_segment)) re_force_flag) (b, args, g) \<longleftrightarrow>
      list_ex (letter_flag ''f'' ''--force'') (later_words args)"
    unfolding re_force_flag_def spot_words [of "letter_flag ''f'' ''--force''", OF none(2), symmetric]
    by (rule can_within [OF assms can_flag [OF f letters(2) long(2)]])
qed

lemma root_spots:
  assumes "list_all in_segment args"
  shows "can (Seq (star (Cls in_segment)) (Seq (plus space) re_root_target)) (b, args, g) \<longleftrightarrow>
    list_ex root_word (later_words args)"
proof -
  have target: "can re_root_target (b, v, g) \<longleftrightarrow> root_word (word_part v)" for b v
  proof -
    have wordb: "can WordB (CHR ''E'' # b', q, g) \<longleftrightarrow> word_end q" for b' q
    proof -
      have "is_word CHR ''E''"
        by code_simp
      then show ?thesis
        by (simp add: can_def at_word_boundary_def word_end_def)
    qed
    have after: "can (alts [chr d, space, Eol]) (b', q, g) \<longleftrightarrow> q = [] \<or> hd q = d \<or> is_space (hd q)" for b' q d
    proof -
      have "is_space CHR 0x0A"
        by code_simp
      then show ?thesis
        unfolding can_def by (cases q) (auto simp: matches_chr_iff matches_cls_iff space_def)
    qed
    have "can re_root_target (b, v, g) \<longleftrightarrow> (\<exists>r \<in> set re_root_targets. can r (b, v, g))"
      unfolding re_root_target_def can_def matches_alts_iff by blast
    also have "\<dots> \<longleftrightarrow> can (Seq (chr CHR ''/'') (alts [chr CHR ''*'', space, Eol])) (b, v, g) \<or>
        can (Seq (chr CHR ''~'') (alts [chr CHR ''/'', space, Eol])) (b, v, g) \<or>
        can (Seq (lit ''$HOME'') WordB) (b, v, g) \<or> can (lit ''${HOME}'') (b, v, g)"
      unfolding re_root_targets_def by (simp del: alts.simps)
    also have "\<dots> \<longleftrightarrow> root_word (word_part v)"
    proof -
      have "can (Seq (lit ''$HOME'') WordB) (b, v, g) \<longleftrightarrow> (\<exists>q. v = ''$HOME'' @ q \<and> word_end q)"
        unfolding can_seq [OF reads_lit] using wordb by simp
      moreover have "can (lit ''${HOME}'') (b, v, g) \<longleftrightarrow> (\<exists>q. v = ''${HOME}'' @ q)"
        unfolding can_reads [OF reads_lit] by simp
      ultimately show ?thesis
        unfolding root_word_part can_first(2) after by (simp only:)
    qed
    finally show ?thesis .
  qed
  have "can (Seq (plus space) re_root_target) (b, y, g) \<longleftrightarrow> (\<exists>sp v. y = sp @ v \<and> spaces sp \<and> root_word (word_part v))" for b y
    unfolding space_def can_seq [OF reads_plus_cls] target spaces_def by blast
  then have "can (Seq (star (Cls in_segment)) (Seq (plus space) re_root_target)) (b, args, g) \<longleftrightarrow>
      (\<exists>x sp v. args = x @ sp @ v \<and> spaces sp \<and> root_word (word_part v))"
    using assms unfolding can_seq [OF reads_star_cls] by fastforce
  also have "\<dots> \<longleftrightarrow> spot root_word args"
  proof
    assume "\<exists>x sp v. args = x @ sp @ v \<and> spaces sp \<and> root_word (word_part v)"
    then obtain x sp v where "args = x @ sp @ v" "spaces sp" "root_word (word_part v)"
      by blast
    moreover from this have "sp = butlast sp @ [last sp]" "is_space (last sp)"
      by (auto simp: spaces_def list_all_iff)
    ultimately show "spot root_word args"
      unfolding spot_def by (metis append_assoc append_Cons append_Nil)
  next
    assume "spot root_word args"
    then obtain x c v where "args = x @ [c] @ v" "spaces [c]" "root_word (word_part v)"
      by (auto simp: spot_def spaces_def)
    then show "\<exists>x sp v. args = x @ sp @ v \<and> spaces sp \<and> root_word (word_part v)"
      by blast
  qed
  also have "\<dots> \<longleftrightarrow> list_ex root_word (later_words args)"
    by (rule spot_words) (simp add: root_word_def)
  finally show ?thesis .
qed

text \<open>The pattern for \<open>rm\<close> on a simple command, read as words.\<close>

theorem rm_pattern:
  assumes "list_all in_segment s"
  shows "re_search re_rm_root s \<longleftrightarrow>
    (\<exists>p args. s = p @ ''rm'' @ args \<and> word_start p \<and> word_end args \<and> removes_root (later_words args))"
proof -
  have "can re_rm_root (rev p, x, []) \<longleftrightarrow>
      (\<exists>args. x = ''rm'' @ args \<and> word_start p \<and> word_end args \<and> removes_root (later_words args))"
    if "s = p @ x" for p x
  proof -
    have word: "is_word CHR ''r''" "is_word CHR ''m''"
      by code_simp+
    have start: "at_word_boundary (rev p) (''rm'' @ args) \<longleftrightarrow> word_start p" for args
      using word by (simp add: at_word_boundary_def word_start_def)
    have stop: "at_word_boundary (rev ''rm'' @ rev p) args \<longleftrightarrow> word_end args" for args
      using word by (simp add: at_word_boundary_def word_end_def)
    have "list_all in_segment args" if "x = ''rm'' @ args" for args
      using that assms \<open>s = p @ x\<close> by simp
    then have rest: "at_word_boundary (rev p) (''rm'' @ args) \<and> can (Seq WordB
        (Seq (Look (Seq (star (Cls in_segment)) re_recursive_flag)) (Seq (Look (Seq (star (Cls in_segment)) re_force_flag))
          (Seq (star (Cls in_segment)) (Seq (plus space) re_root_target))))) (rev ''rm'' @ rev p, args, []) \<longleftrightarrow>
        word_start p \<and> word_end args \<and> removes_root (later_words args)" if "x = ''rm'' @ args" for args
      unfolding can_wordb can_look removes_root_def start stop using that flag_spots [of args] root_spots [of args] by simp
    have "can re_rm_root (rev p, x, []) \<longleftrightarrow> (\<exists>args. x = ''rm'' @ args \<and> at_word_boundary (rev p) x \<and> can (Seq WordB
        (Seq (Look (Seq (star (Cls in_segment)) re_recursive_flag)) (Seq (Look (Seq (star (Cls in_segment)) re_force_flag))
          (Seq (star (Cls in_segment)) (Seq (plus space) re_root_target))))) (rev ''rm'' @ rev p, args, []))"
      unfolding re_rm_root_def seqs.simps can_wordb [of "Seq (lit ''rm'') _"] can_seq [OF reads_lit] by blast
    then show ?thesis
      using rest by blast
  qed
  then have "(\<exists>x. s = p @ x \<and> can re_rm_root (rev p, x, [])) \<longleftrightarrow>
      (\<exists>args. s = p @ ''rm'' @ args \<and> word_start p \<and> word_end args \<and> removes_root (later_words args))" for p
    by blast
  then show ?thesis
    unfolding re_search_can by (simp only:)
qed

end
