(* ===== verification/Guard_Nesting.thy ===== *)
theory Guard_Nesting
  imports Guard_Tier1
begin

text \<open>
  What the substitution scanner of \<open>autonomous-exec-hook.py\<close> finds, against a grammar of shell text. The
  text inside parentheses is described by the inductive predicate \<open>balanced\<close>, with the rules of the
  shell for quotes and backslashes and no counter; \<open>leads_to\<close> describes the text before a substitution. The
  scanner closes a substitution exactly at its parenthesis, no approved command contains an unapproved
  substitution after such a text, and the text of an arithmetic expansion plays no part.
\<close>

section \<open>Balanced text\<close>

abbreviation lparen :: char where "lparen \<equiv> CHR ''(''"
abbreviation rparen :: char where "rparen \<equiv> CHR '')''"

text \<open>The text between two double quotes: a backslash takes the next character with it.\<close>

inductive double_quoted :: "string \<Rightarrow> bool" where
  nil: "double_quoted []"
| char: "c \<noteq> backslash \<Longrightarrow> c \<noteq> dquote \<Longrightarrow> double_quoted s \<Longrightarrow> double_quoted (c # s)"
| escape: "double_quoted s \<Longrightarrow> double_quoted (backslash # c # s)"

inductive balanced :: "string \<Rightarrow> bool" where
  nil: "balanced []"
| char: "c \<notin> {backslash, squote, dquote, lparen, rparen} \<Longrightarrow> balanced s \<Longrightarrow> balanced (c # s)"
| escape: "balanced s \<Longrightarrow> balanced (backslash # c # s)"
| single: "squote \<notin> set u \<Longrightarrow> balanced s \<Longrightarrow> balanced (squote # u @ squote # s)"
| double: "double_quoted u \<Longrightarrow> balanced s \<Longrightarrow> balanced (dquote # u @ dquote # s)"
| parens: "balanced u \<Longrightarrow> balanced s \<Longrightarrow> balanced (lparen # u @ rparen # s)"

lemma balanced_append: "balanced s \<Longrightarrow> balanced t \<Longrightarrow> balanced (s @ t)"
  by (induction rule: balanced.induct) (auto intro: balanced.intros)

section \<open>The parenthesis that closes\<close>

text \<open>What has been read is put in front of the inner text.\<close>

definition inner_prepend :: "string \<Rightarrow> (string \<times> string) option \<Rightarrow> (string \<times> string) option" where
  "inner_prepend u = map_option (\<lambda>(inner, rest). (u @ inner, rest))"

lemma inner_prepend_simps [simp]:
  "inner_prepend u None = None"
  "inner_prepend u (Some (inner, rest)) = Some (u @ inner, rest)"
  "inner_prepend [] r = r"
  "inner_prepend u (inner_prepend v r) = inner_prepend (u @ v) r"
  by (cases r; auto simp: inner_prepend_def)+

lemma inner_prepend_Some:
  "inner_prepend u r = Some (inner, rest) \<longleftrightarrow> (\<exists>i. r = Some (i, rest) \<and> inner = u @ i)"
  by (cases r) (auto simp: inner_prepend_def)

lemma close_paren_Cons:
  "close_paren k sg db es (c # cs) =
     (case paren_step k sg db es c of (k', sg', db', es') \<Rightarrow>
        if k' = 0 then Some ([], cs) else inner_prepend [c] (close_paren k' sg' db' es' cs))"
  by (simp add: inner_prepend_def)

declare close_paren.simps(2) [simp del] close_paren_Cons [simp]

lemma close_single: "squote \<notin> set u \<Longrightarrow> close_paren (Suc k) True False False (u @ t) =
    inner_prepend u (close_paren (Suc k) True False False t)"
  by (induction u) auto

lemma close_double: "double_quoted u \<Longrightarrow> close_paren (Suc k) False True False (u @ t) =
    inner_prepend u (close_paren (Suc k) False True False t)"
  by (induction rule: double_quoted.induct) auto

lemma close_balanced: "balanced u \<Longrightarrow> close_paren (Suc k) False False False (u @ t) =
    inner_prepend u (close_paren (Suc k) False False False t)"
proof (induction u arbitrary: k t rule: balanced.induct)
  case (single u s)
  then show ?case
    by (simp add: close_single)
next
  case (double u s)
  then show ?case
    by (simp add: close_double)
qed auto

text \<open>From inside quotes the scan comes to their end.\<close>

lemma single_closed:
  "close_paren (Suc k) True False False cs = Some (inner, rest) \<Longrightarrow>
     \<exists>u cs' i. cs = u @ squote # cs' \<and> squote \<notin> set u \<and>
       close_paren (Suc k) False False False cs' = Some (i, rest) \<and> inner = u @ squote # i"
proof (induction cs arbitrary: inner)
  case (Cons c cs)
  show ?case
  proof (cases "c = squote")
    case True
    then obtain i where "close_paren (Suc k) False False False cs = Some (i, rest)" "inner = squote # i"
      using Cons.prems by (auto simp: inner_prepend_Some)
    then show ?thesis
      using True by (intro exI [of _ "[]"] exI [of _ cs] exI [of _ i]) simp
  next
    case False
    then obtain i where i: "close_paren (Suc k) True False False cs = Some (i, rest)" "inner = c # i"
      using Cons.prems by (auto simp: inner_prepend_Some)
    obtain u cs' i' where "cs = u @ squote # cs'" "squote \<notin> set u"
        "close_paren (Suc k) False False False cs' = Some (i', rest)" "i = u @ squote # i'"
      using Cons.IH [OF i(1)] by blast
    then show ?thesis
      using False i(2) by (intro exI [of _ "c # u"] exI [of _ cs'] exI [of _ i']) simp
  qed
qed simp

lemma double_closed:
  "close_paren (Suc k) False True False cs = Some (inner, rest) \<Longrightarrow>
     \<exists>u cs' i. cs = u @ dquote # cs' \<and> double_quoted u \<and>
       close_paren (Suc k) False False False cs' = Some (i, rest) \<and> inner = u @ dquote # i"
proof (induction "length cs" arbitrary: cs inner rule: less_induct)
  case less
  then obtain c cs1 where cs: "cs = c # cs1"
    by (cases cs) auto
  have IH: "\<exists>u cs' i'. ds = u @ dquote # cs' \<and> double_quoted u \<and>
      close_paren (Suc k) False False False cs' = Some (i', rest) \<and> i = u @ dquote # i'"
    if "length ds \<le> length cs1" "close_paren (Suc k) False True False ds = Some (i, rest)" for ds i
    using less.hyps that by (simp add: cs)
  consider "c = dquote" | "c = backslash" | "c \<noteq> dquote" "c \<noteq> backslash"
    by blast
  then show ?case
  proof cases
    case 1
    then obtain i where "close_paren (Suc k) False False False cs1 = Some (i, rest)" "inner = dquote # i"
      using less.prems by (auto simp: cs inner_prepend_Some)
    then show ?thesis
      using 1 by (intro exI [of _ "[]"] exI [of _ cs1] exI [of _ i]) (simp add: cs double_quoted.nil)
  next
    case 2
    then obtain d ds i where d: "cs1 = d # ds" "close_paren (Suc k) False True False ds = Some (i, rest)"
        "inner = backslash # d # i"
      using less.prems by (cases cs1) (auto simp: cs inner_prepend_Some)
    then obtain u cs' i' where "ds = u @ dquote # cs'" "double_quoted u"
        "close_paren (Suc k) False False False cs' = Some (i', rest)" "i = u @ dquote # i'"
      using IH [of ds i] by auto
    then show ?thesis
      using 2 d by (intro exI [of _ "backslash # d # u"] exI [of _ cs'] exI [of _ i']) (simp add: cs double_quoted.escape)
  next
    case 3
    then obtain i where i: "close_paren (Suc k) False True False cs1 = Some (i, rest)" "inner = c # i"
      using less.prems by (auto simp: cs inner_prepend_Some)
    then obtain u cs' i' where "cs1 = u @ dquote # cs'" "double_quoted u"
        "close_paren (Suc k) False False False cs' = Some (i', rest)" "i = u @ dquote # i'"
      using IH [of cs1 i] by auto
    then show ?thesis
      using 3 i(2) by (intro exI [of _ "c # u"] exI [of _ cs'] exI [of _ i']) (simp add: cs double_quoted.char)
  qed
qed

text \<open>The scan at depth \<open>k + 1\<close> reads balanced text and the parenthesis after it.\<close>

definition closes_at :: "nat \<Rightarrow> string \<Rightarrow> string \<Rightarrow> string \<Rightarrow> bool" where
  "closes_at k cs inner rest \<longleftrightarrow> (\<exists>u cs'. cs = u @ rparen # cs' \<and> balanced u \<and>
     (if k = 0 then inner = u \<and> rest = cs'
      else \<exists>i. close_paren k False False False cs' = Some (i, rest) \<and> inner = u @ rparen # i))"

lemma closes_at_after:
  assumes "closes_at k ds i rest" "\<And>s. balanced s \<Longrightarrow> balanced (pre @ s)"
  shows "closes_at k (pre @ ds) (pre @ i) rest"
proof -
  obtain u cs' where u: "ds = u @ rparen # cs'" "balanced u"
      "if k = 0 then i = u \<and> rest = cs'
       else \<exists>j. close_paren k False False False cs' = Some (j, rest) \<and> i = u @ rparen # j"
    using assms(1) unfolding closes_at_def by blast
  then show ?thesis
    unfolding closes_at_def using assms(2) [OF u(2)]
    by (intro exI [of _ "pre @ u"] exI [of _ cs']) (auto split: if_splits)
qed

lemma closed_balanced:
  "close_paren (Suc k) False False False cs = Some (inner, rest) \<Longrightarrow> closes_at k cs inner rest"
proof (induction "length cs" arbitrary: cs k inner rule: less_induct)
  case less
  then obtain c cs1 where cs: "cs = c # cs1"
    by (cases cs) auto
  have IH: "closes_at k' ds i rest"
    if "length ds \<le> length cs1" "close_paren (Suc k') False False False ds = Some (i, rest)" for k' ds i
    using less.hyps that by (simp add: cs)
  consider "c = squote" | "c = dquote" | "c = backslash" | "c = lparen" | "c = rparen"
    | "c \<notin> {backslash, squote, dquote, lparen, rparen}"
    by blast
  then show ?case
  proof cases
    case 1
    then obtain j where "close_paren (Suc k) True False False cs1 = Some (j, rest)" "inner = squote # j"
      using less.prems by (auto simp: cs inner_prepend_Some)
    then obtain u ds i where u: "cs1 = u @ squote # ds" "squote \<notin> set u"
        "close_paren (Suc k) False False False ds = Some (i, rest)" "inner = squote # u @ squote # i"
      using single_closed by blast
    then have "closes_at k ds i rest"
      by (intro IH) simp_all
    then have "closes_at k ((squote # u @ [squote]) @ ds) ((squote # u @ [squote]) @ i) rest"
      by (rule closes_at_after) (simp add: balanced.single u(2))
    then show ?thesis
      by (simp add: cs 1 u(1,4))
  next
    case 2
    then obtain j where "close_paren (Suc k) False True False cs1 = Some (j, rest)" "inner = dquote # j"
      using less.prems by (auto simp: cs inner_prepend_Some)
    then obtain u ds i where u: "cs1 = u @ dquote # ds" "double_quoted u"
        "close_paren (Suc k) False False False ds = Some (i, rest)" "inner = dquote # u @ dquote # i"
      using double_closed by blast
    then have "closes_at k ds i rest"
      by (intro IH) simp_all
    then have "closes_at k ((dquote # u @ [dquote]) @ ds) ((dquote # u @ [dquote]) @ i) rest"
      by (rule closes_at_after) (simp add: balanced.double u(2))
    then show ?thesis
      by (simp add: cs 2 u(1,4))
  next
    case 3
    then obtain d ds i where d: "cs1 = d # ds" "close_paren (Suc k) False False False ds = Some (i, rest)"
        "inner = backslash # d # i"
      using less.prems by (cases cs1) (auto simp: cs inner_prepend_Some)
    then have "closes_at k ds i rest"
      by (intro IH) simp_all
    then have "closes_at k ([backslash, d] @ ds) ([backslash, d] @ i) rest"
      by (rule closes_at_after) (simp add: balanced.escape)
    then show ?thesis
      by (simp add: cs 3 d(1,3))
  next
    case 4
    then obtain j where "close_paren (Suc (Suc k)) False False False cs1 = Some (j, rest)" "inner = lparen # j"
      using less.prems by (auto simp: cs inner_prepend_Some)
    then obtain u ds i where u: "cs1 = u @ rparen # ds" "balanced u"
        "close_paren (Suc k) False False False ds = Some (i, rest)" "inner = lparen # u @ rparen # i"
      using IH [of cs1 "Suc k" j] unfolding closes_at_def by auto
    then have "closes_at k ds i rest"
      by (intro IH) simp_all
    then have "closes_at k ((lparen # u @ [rparen]) @ ds) ((lparen # u @ [rparen]) @ i) rest"
      by (rule closes_at_after) (simp add: balanced.parens u(2))
    then show ?thesis
      by (simp add: cs 4 u(1,4))
  next
    case 5
    show ?thesis
    proof (cases k)
      case 0
      then show ?thesis
        using less.prems 5 unfolding closes_at_def by (intro exI [of _ "[]"] exI [of _ cs1]) (simp add: cs balanced.nil)
    next
      case (Suc k')
      then show ?thesis
        using less.prems 5 unfolding closes_at_def
        by (intro exI [of _ "[]"] exI [of _ cs1]) (auto simp: cs balanced.nil inner_prepend_Some)
    qed
  next
    case 6
    then obtain i where i: "close_paren (Suc k) False False False cs1 = Some (i, rest)" "inner = c # i"
      using less.prems by (auto simp: cs inner_prepend_Some)
    then have "closes_at k cs1 i rest"
      by (intro IH) simp_all
    then have "closes_at k ([c] @ cs1) ([c] @ i) rest"
      by (rule closes_at_after) (use 6 in \<open>simp add: balanced.char\<close>)
    then show ?thesis
      by (simp add: cs i(2))
  qed
qed

text \<open>The scan ends exactly at the parenthesis after balanced text.\<close>

theorem close_paren_iff:
  "close_paren 1 False False False cs = Some (inner, rest) \<longleftrightarrow> cs = inner @ rparen # rest \<and> balanced inner"
proof
  show "close_paren 1 False False False cs = Some (inner, rest) \<Longrightarrow> cs = inner @ rparen # rest \<and> balanced inner"
    using closed_balanced [of 0 cs inner rest] by (auto simp: closes_at_def)
next
  assume "cs = inner @ rparen # rest \<and> balanced inner"
  then show "close_paren 1 False False False cs = Some (inner, rest)"
    using close_balanced [of inner 0 "rparen # rest"] by simp
qed

declare close_paren.simps(2) [simp] close_paren_Cons [simp del]

section \<open>Text before a substitution\<close>

text \<open>
  Text of a command that the shell reads from outside (\<open>False\<close>) or inside (\<open>True\<close>) double quotes:
  characters, escaped characters, double quotes, quoted text in single quotes outside double quotes,
  and substitutions. Single quotes inside double quotes are left out: the scanner takes them for the
  start of quoted text, and the shell does not.
\<close>

inductive leads_to :: "bool \<Rightarrow> string \<Rightarrow> bool" where
  nil: "leads_to db []"
| char: "c \<notin> {backslash, squote, dquote} \<Longrightarrow> \<not> (c = CHR ''$'' \<and> starts_paren s) \<Longrightarrow> leads_to db s \<Longrightarrow>
    leads_to db (c # s)"
| escape: "leads_to db s \<Longrightarrow> leads_to db (backslash # c # s)"
| dquote: "leads_to (\<not> db) s \<Longrightarrow> leads_to db (dquote # s)"
| single: "squote \<notin> set u \<Longrightarrow> leads_to False s \<Longrightarrow> leads_to False (squote # u @ squote # s)"
| substitution: "balanced u \<Longrightarrow> \<not> starts_paren u \<Longrightarrow> leads_to db s \<Longrightarrow>
    leads_to db (CHR ''$'' # lparen # u @ rparen # s)"

text \<open>One scan after the other.\<close>

definition then_scan :: "string option \<Rightarrow> string option \<Rightarrow> string option" where
  "then_scan r q = (case r of None \<Rightarrow> None | Some u \<Rightarrow> map_option ((@) u) q)"

lemma then_scan_simps [simp]:
  "then_scan None q = None"
  "then_scan (Some []) q = q"
  "then_scan (map_option (Cons c) r) q = map_option (Cons c) (then_scan r q)"
  "then_scan (map_option ((@) u) r) q = map_option ((@) u) (then_scan r q)"
  by (cases r; cases q; simp add: then_scan_def)+

lemma resolve_single_text: "squote \<notin> set u \<Longrightarrow>
    resolve_scan ok True False (u @ t) = map_option ((@) u) (resolve_scan ok True False t)"
  by (induction u; cases "resolve_scan ok True False t") (auto simp: resolve_scan_Cons dollar_paren_def)

lemma resolve_quoted: "squote \<notin> set u \<Longrightarrow>
    resolve_scan ok False False (squote # u @ squote # t) =
      map_option ((@) (squote # u @ [squote])) (resolve_scan ok False False t)"
  by (cases "resolve_scan ok False False t") (simp_all add: resolve_scan_Cons resolve_single_text)

lemma starts_paren_append: "starts_paren (s @ t) \<longleftrightarrow> (if s = [] then starts_paren t else starts_paren s)"
  by (cases s) (simp_all add: starts_paren_def)

lemma resolve_substitution:
  assumes "balanced u" "\<not> starts_paren u"
  shows "resolve_scan ok False False (CHR ''$'' # lparen # u @ rparen # t) =
    (if ok u then map_option ((@) placeholder) (resolve_scan ok False False t) else None)"
proof -
  have "close_paren 1 False False False (u @ rparen # t) = Some (u, t)"
    using assms(1) by (simp only: close_paren_iff simp_thms)
  moreover have "arithmetic_rest (lparen # u @ rparen # t) = None"
    using assms(2) by (cases u) (simp_all add: arithmetic_rest_def starts_paren_def)
  ultimately show ?thesis
    by (simp add: resolve_scan_Cons dollar_paren_def starts_paren_def)
qed

lemma resolve_after:
  "leads_to db pre \<Longrightarrow> \<not> starts_paren t \<Longrightarrow>
     resolve_scan ok False False (pre @ t) = then_scan (resolve_scan ok False False pre) (resolve_scan ok False False t)"
proof (induction rule: leads_to.induct)
  case (char c s db)
  then have "resolve_scan ok False False (c # x) = map_option (Cons c) (resolve_scan ok False False x)"
    if "x = s \<or> x = s @ t" for x
    using that starts_paren_append [of s t] by (auto simp: resolve_scan_Cons dollar_paren_def split: if_splits)
  then show ?case
    using char by simp
next
  case (single u s)
  then show ?case
    using resolve_quoted [of u ok "s @ t"] resolve_quoted [of u ok s] by simp
next
  case (substitution u db s)
  then show ?case
    using resolve_substitution [of u ok "s @ t"] resolve_substitution [of u ok s] by simp
qed (simp_all add: resolve_scan_Cons dollar_paren_def)

section \<open>Approval of substituted commands\<close>

text \<open>What approves more inner commands approves more.\<close>

lemma resolve_scan_mono:
  "resolve_scan ok sg es cmd = Some out \<Longrightarrow> (\<forall>x. ok x \<longrightarrow> ok' x) \<Longrightarrow> resolve_scan ok' sg es cmd = Some out"
proof (induction ok sg es cmd arbitrary: out rule: resolve_scan.induct)
  case (2 ok sg es ch cs)
  then show ?case
    by (auto simp: resolve_scan.simps(2) split: if_splits option.splits)
qed simp

lemma tier1_ok_resolved:
  assumes "tier1_ok depth cmd"
  shows "depth \<le> 4 \<and> (\<exists>out. resolve_scan (tier1_ok (Suc depth)) False False (fst (strip_heredocs cmd)) = Some out)"
  using assms by (auto simp: tier1_ok_def evaluate_tier1_command_code [of depth cmd] Let_def judge_def
      resolve_with_def refuse_def split: if_splits option.splits)

text \<open>What is approved as an inner command is approved on its own, with the same write override.\<close>

lemma shallower:
  "evaluate_tier1_command (Suc depth) cmd = (True, w) \<Longrightarrow> evaluate_tier1_command depth cmd = (True, w)"
proof (induction "5 - depth" arbitrary: depth cmd w rule: less_induct)
  case less
  let ?h = "strip_heredocs cmd"
  have "tier1_ok (Suc depth) cmd"
    using less.prems by (simp add: tier1_ok_def)
  then obtain out where depth: "Suc depth \<le> 4"
      and out: "resolve_scan (tier1_ok (Suc (Suc depth))) False False (fst ?h) = Some out"
    using tier1_ok_resolved by blast
  have "tier1_ok (Suc depth) x" if x: "tier1_ok (Suc (Suc depth)) x" for x
  proof -
    obtain u where "evaluate_tier1_command (Suc (Suc depth)) x = (True, u)"
      using x unfolding tier1_ok_def by (metis (full_types) prod.collapse)
    moreover have "5 - Suc depth < 5 - depth"
      using depth by simp
    ultimately have "evaluate_tier1_command (Suc depth) x = (True, u)"
      using less.hyps by blast
    then show ?thesis
      by (simp add: tier1_ok_def)
  qed
  then have "\<forall>x. tier1_ok (Suc (Suc depth)) x \<longrightarrow> tier1_ok (Suc depth) x"
    by blast
  then have "resolve_scan (tier1_ok (Suc depth)) False False (fst ?h) = Some out"
    by (rule resolve_scan_mono [OF out])
  then show ?case
    using less.prems out depth by (simp add: evaluate_tier1_command_code [of _ cmd] Let_def resolve_with_def)
qed

lemma tier1_ok_shallower: "tier1_ok (Suc depth) cmd \<Longrightarrow> tier1_ok depth cmd"
proof -
  assume "tier1_ok (Suc depth) cmd"
  then obtain u where "evaluate_tier1_command (Suc depth) cmd = (True, u)"
    unfolding tier1_ok_def by (metis (full_types) prod.collapse)
  from shallower [OF this] show ?thesis
    by (simp add: tier1_ok_def)
qed

lemma tier1_ok_safe: "tier1_ok depth cmd \<Longrightarrow> is_tier1_safe_command cmd"
  by (induction depth) (auto simp: is_tier1_safe_command_def dest: tier1_ok_shallower)

text \<open>A command of one line has no here document.\<close>

lemma strip_heredocs_line:
  assumes "newline_char \<notin> set cmd"
  shows "strip_heredocs cmd = (cmd, [])"
proof -
  have needs: "needs re_heredoc [[newline_char]]"
    unfolding re_heredoc_def by (rule needs_seqs [of "chr CHR 0x0A"]) (auto intro: needs_chr)
  have none: "\<not> sublist v cmd" if "v \<in> set [[newline_char]]" for v
    using that assms by (auto simp: sublist_singleton)
  show ?thesis
    unfolding strip_heredocs_def
    by (simp only: re_sub_needs [OF needs none] re_scan_needs [OF needs none] heredoc_body_gaps)
qed

lemma substituted_approved:
  assumes "leads_to False pre" "balanced inner" "\<not> starts_paren inner"
    "newline_char \<notin> set (pre @ ''$('' @ inner @ '')'' @ post)"
    "is_tier1_safe_command (pre @ ''$('' @ inner @ '')'' @ post)"
  shows "is_tier1_safe_command inner"
proof -
  let ?t = "CHR ''$'' # lparen # inner @ rparen # post"
  have "resolve_scan (tier1_ok 1) False False (pre @ ?t) \<noteq> None"
    using tier1_ok_resolved [of 0 "pre @ ?t"] strip_heredocs_line [of "pre @ ?t"] assms(4,5)
    by (auto simp: is_tier1_safe_command_def)
  moreover have "\<not> starts_paren ?t"
    by (simp add: starts_paren_def)
  ultimately have "resolve_scan (tier1_ok 1) False False ?t \<noteq> None"
    using resolve_after [OF assms(1), of ?t "tier1_ok 1"] by (auto simp: then_scan_def split: option.splits)
  then have "tier1_ok 1 inner"
    using resolve_substitution [OF assms(2,3), of "tier1_ok 1" post] by (auto split: if_splits)
  then show ?thesis
    by (rule tier1_ok_safe)
qed

section \<open>Arithmetic expansions\<close>

lemma arithmetic_as_zero:
  assumes "leads_to False pre" "\<not> sublist ''))'' (t @ '')'')"
    "newline_char \<notin> set (pre @ ''$(('' @ t @ ''))'' @ post)"
  shows "evaluate_tier1_command depth (pre @ ''$(('' @ t @ ''))'' @ post) =
    evaluate_tier1_command depth (pre @ ''0'' @ post)"
proof -
  have heads: "\<not> starts_paren (''$(('' @ x)" "\<not> starts_paren (''0'' @ x)" for x
    by (simp_all add: starts_paren_def)
  have "resolve_scan ok False False (''$(('' @ t @ ''))'' @ post) = resolve_scan ok False False (''0'' @ post)" for ok
    using resolve_arithmetic [OF assms(2), of ok post] by (simp add: resolve_scan_Cons dollar_paren_def)
  then have same: "resolve_scan ok False False (pre @ ''$(('' @ t @ ''))'' @ post) =
      resolve_scan ok False False (pre @ ''0'' @ post)" for ok
    using resolve_after [OF assms(1) heads(1), of ok "t @ ''))'' @ post"] resolve_after [OF assms(1) heads(2), of ok post]
    by (simp only:)
  have "strip_heredocs (pre @ ''$(('' @ t @ ''))'' @ post) = (pre @ ''$(('' @ t @ ''))'' @ post, [])"
    "strip_heredocs (pre @ ''0'' @ post) = (pre @ ''0'' @ post, [])"
    using assms(3) by (auto intro!: strip_heredocs_line)
  then show ?thesis
    using same by (simp only: evaluate_tier1_command_code fst_conv snd_conv Let_def resolve_with_def)
      (simp add: judge_def split: option.splits)
qed

end
