(* ===== verification/Guard_Outputs.thy ===== *)
theory Guard_Outputs
  imports Guard_Plain
begin

text \<open>
  Redirections of the output in any segment, for what \<open>check_and_strip_redirections\<close> of
  \<open>autonomous-exec-hook.py\<close> decides on them: the first redirection of a segment, with no quote before it,
  is found by the pattern whatever descriptor stands before it, and refused when its target is not safe,
  whatever comes after it.
\<close>

section \<open>The text of the first redirection\<close>

definition output_sign :: "string \<Rightarrow> nat \<Rightarrow> string \<Rightarrow> string" where
  "output_sign g n t = g @ replicate n CHR '' '' @ t"

text \<open>The descriptor before the sign: a number, an ampersand or nothing.\<close>

definition descriptor :: "string \<Rightarrow> string \<Rightarrow> bool" where
  "descriptor d pre \<longleftrightarrow> d = ''&'' \<or> d \<noteq> [] \<and> list_all is_digit09 d \<and> (pre = [] \<or> \<not> is_digit09 (last pre)) \<or>
     d = [] \<and> (pre = [] \<or> \<not> is_digit09 (last pre) \<and> last pre \<noteq> CHR ''&'')"

lemma descriptor_split: "\<exists>p d. pre = p @ d \<and> descriptor d p"
proof -
  let ?d = "rev (takeWhile is_digit09 (rev pre))" and ?p = "rev (dropWhile is_digit09 (rev pre))"
  have pre: "pre = ?p @ ?d"
    by (metis rev_append rev_rev_ident takeWhile_dropWhile_id)
  have p: "?p = [] \<or> \<not> is_digit09 (last ?p)"
    using hd_dropWhile [of is_digit09 "rev pre"] by (auto simp: last_rev)
  show ?thesis
  proof (cases "?d = [] \<and> ?p \<noteq> [] \<and> last ?p = CHR ''&''")
    case True
    then have "?p = butlast ?p @ ''&''"
      using append_butlast_last_id [of ?p] by (simp only: simp_thms)
    moreover have "pre = ?p"
      using pre True by simp
    ultimately have "pre = butlast ?p @ ''&''"
      by (simp only:)
    then show ?thesis
      unfolding descriptor_def by blast
  next
    case False
    moreover have "list_all is_digit09 ?d"
      by (auto simp: list_all_iff dest: set_takeWhileD)
    ultimately have "descriptor ?d ?p"
      using p unfolding descriptor_def by blast
    then show ?thesis
      using pre by blast
  qed
qed

lemma sign_chars:
  assumes "g \<in> set [''>'', ''>>'']" "plain_target t"
  shows "CHR ''&'' \<notin> set (output_sign g n t)" "\<exists>x. output_sign g n t = CHR ''>'' # x"
  using assms target_chars(2) [OF assms(2)]
  by (auto simp: output_sign_def plain_char_def special_chars_def)

text \<open>Nothing is taken off before it: neither a joined nor a discarded output begins in the text.\<close>

lemma first_sign:
  assumes "CHR ''>'' \<notin> set p" "CHR ''>'' \<notin> set v" "p @ CHR ''>'' # x = v @ CHR ''>'' # y"
  shows "p = v \<and> x = y"
  using assms by (induction p arbitrary: v) (auto simp: Cons_eq_append_conv)

lemma passes_join:
  assumes "CHR ''>'' \<notin> set pre" "g \<in> set [''>'', ''>>'']" "plain_target t"
  shows "passes re_dup_fd (pre @ output_sign g n t)"
proof (rule begins_passes [OF begins_dup])
  show "\<not> sublist ''>&'' (pre @ output_sign g n t)"
  proof
    assume "sublist ''>&'' (pre @ output_sign g n t)"
    then obtain x y where xy: "pre @ output_sign g n t = x @ CHR ''>'' # CHR ''&'' # y"
      by (auto simp: sublist_def)
    obtain z where z: "output_sign g n t = CHR ''>'' # z"
      using sign_chars(2) [OF assms(2,3)] by blast
    have "CHR ''&'' \<notin> set (CHR ''>'' # z)"
      using sign_chars(1) [OF assms(2,3), of n] unfolding z .
    moreover obtain u where "CHR ''>'' # z = u @ CHR ''>'' # CHR ''&'' # y"
    proof -
      obtain us where us: "pre = x @ us \<and> us @ CHR ''>'' # z = CHR ''>'' # CHR ''&'' # y \<or>
          pre @ us = x \<and> CHR ''>'' # z = us @ CHR ''>'' # CHR ''&'' # y"
        using xy unfolding z append_eq_append_conv2 by blast
      then have "CHR ''>'' # z = [] @ CHR ''>'' # CHR ''&'' # y \<or> CHR ''>'' # z = us @ CHR ''>'' # CHR ''&'' # y"
        using assms(1) by (cases us) auto
      then show thesis
        using that by blast
    qed
    ultimately show False
      by simp
  qed
qed

lemma sign_redirects: "g \<in> set [''>'', ''>>''] \<Longrightarrow> plain_target t \<Longrightarrow> redirects (output_sign g n t)"
proof -
  assume g: "g \<in> set [''>'', ''>>'']" and t: "plain_target t"
  have "after_blanks (replicate n CHR '' '' @ t) = t"
    using target_chars(1,3) [OF t] by (induction n) (cases t; auto simp: after_blanks_def redir_char_def)+
  then show ?thesis
    using g t by (auto simp: redirects_def output_sign_def redir_ops_def)
qed

lemma can_descriptor:
  assumes "reads d P" "\<And>w. P w \<Longrightarrow> CHR ''>'' \<notin> set w" "CHR ''>'' \<notin> set q"
    "can (Seq (opt (Alt d (chr CHR ''&''))) (Seq gt_gt r)) (b, q @ CHR ''>'' # x, g)"
  shows "P q \<or> q = ''&'' \<or> q = []" "can (Seq (opt (Alt d (chr CHR ''&''))) (Seq gt_gt r)) (rev q @ b, CHR ''>'' # x, g)"
proof -
  have first: "reads (opt (Alt d (chr CHR ''&''))) (\<lambda>w. (P w \<or> w = ''&'') \<or> w = [])"
    using assms(1) by (intro reads_intros)
  obtain v y where v: "q @ CHR ''>'' # x = v @ y" "(P v \<or> v = ''&'') \<or> v = []" "can (Seq gt_gt r) (rev v @ b, y, g)"
    using assms(4) unfolding can_seq [OF first] by blast
  then obtain y' where y: "y = CHR ''>'' # y'"
    by (auto simp: can_def gt_gt_def matches_chr_iff)
  have "CHR ''>'' \<notin> set v"
    using v(2) assms(2) by auto
  then have q: "q = v" "x = y'"
    using first_sign [OF assms(3)] v(1) y by blast+
  then show "P q \<or> q = ''&'' \<or> q = []"
    using v(2) by blast
  show "can (Seq (opt (Alt d (chr CHR ''&''))) (Seq gt_gt r)) (rev q @ b, CHR ''>'' # x, g)"
    unfolding can_seq [OF first] using v(3) by (intro exI [of _ "[]"] exI [of _ "CHR ''>'' # x"]) (simp add: q y)
qed

lemma passes_discard:
  assumes "CHR ''>'' \<notin> set pre" "g \<in> set [''>'', ''>>'']" "plain_target t"
  shows "passes re_dev_null (pre @ output_sign g n t)"
  unfolding passes_def
proof (intro allI impI)
  fix b rest p q
  let ?X = "output_sign g n t"
  assume pq: "pre @ ?X = p @ q" "q \<noteq> []" and stop: "rest = [] \<or> hd rest = CHR '' '' \<or> last (pre @ ?X) = CHR '' ''"
  have X: "?X \<noteq> []" "passes re_dev_null ?X"
    using sign_chars(2) [OF assms(2,3), of n] redirects_null [OF sign_redirects [OF assms(2,3), of n]] by auto
  then have here: "mt re_dev_null (rev p' @ b', q' @ rest, []) = []" if "?X = p' @ q'" "q' \<noteq> []" for b' p' q'
    using that stop unfolding passes_def by auto
  obtain us where us: "pre = p @ us \<and> us @ ?X = q \<or> pre @ us = p \<and> ?X = us @ q"
    using pq(1) unfolding append_eq_append_conv2 by blast
  then show "mt re_dev_null (rev p @ b, q @ rest, []) = []"
  proof
    assume q: "pre @ us = p \<and> ?X = us @ q"
    then show ?thesis
      using here [of us q "rev pre @ b"] pq(2) by auto
  next
    assume q: "pre = p @ us \<and> us @ ?X = q"
    obtain x where x: "?X = CHR ''>'' # x"
      using sign_chars(2) [OF assms(2,3)] by blast
    have "can re_dev_null (rev us @ rev p @ b, ?X @ rest, [])" if "can re_dev_null (rev p @ b, q @ rest, [])"
    proof -
      have "CHR ''>'' \<notin> set us"
        using assms(1) q by auto
      moreover have "can re_dev_null (rev p @ b, us @ CHR ''>'' # x @ rest, [])"
        using that q by (auto simp: x)
      ultimately show ?thesis
        unfolding re_dev_null_def seqs.simps digit_def x append_Cons
        by (intro can_descriptor(2) [OF reads_star_cls, where q = us]) (auto simp: list_all_iff is_digit09_def code_def)
    qed
    moreover have "\<not> can re_dev_null (rev us @ rev p @ b, ?X @ rest, [])"
      using here [of "[]" ?X] X(1) by (auto simp: can_def mt_Nil_iff)
    ultimately show ?thesis
      by (auto simp: can_def mt_Nil_iff)
  qed
qed

section \<open>The redirection is found\<close>

lemma hit_first:
  assumes "descriptor d p" "g \<in> set [''>'', ''>>'']" "plain_target t" "rest = [] \<or> hd rest = CHR '' ''"
  shows "takes_first re_redir (b, d @ output_sign g n t @ rest, [])
    (rev (d @ output_sign g n t) @ b, rest, [(1, t)])"
proof -
  let ?r = "replicate n CHR '' ''"
  have t: "\<not> head_is is_space (t @ rest)" "hd t \<noteq> CHR ''>''" "t \<noteq> []"
    using target_chars [OF assms(3)] by (auto simp: head_is_hd redir_char_def)
  then have gt: "\<not> head_is (\<lambda>c. c = CHR ''>'') (?r @ t @ rest)"
    by (cases n) (simp_all add: head_is_hd)
  have sign: "takes_first (opt (Alt (plus digit) (chr CHR ''&''))) (b', d @ g @ x, []) (rev d @ b', g @ x, [])" for b' x
  proof -
    have "\<not> head_is is_digit09 (g @ x)"
      using assms(2) by (auto simp: is_digit09_def code_def)
    then have "d \<noteq> [] \<Longrightarrow> list_all is_digit09 d \<Longrightarrow> ?thesis"
      unfolding opt_def digit_def by (intro first_alt first_plus_cls)
    then show ?thesis
      using assms(1) first_redir_sign [OF _ assms(2), of d] by (auto simp: descriptor_def)
  qed
  have "list_all is_space ?r"
    by (simp add: list_all_iff)
  then have "takes_first re_redir (b, d @ g @ ?r @ t @ rest, []) (rev t @ rev ?r @ rev g @ rev d @ b, rest, [(1, t)])"
    unfolding re_redir_def seqs.simps space_def
    by (intro first_seq [OF sign] first_seq [OF first_gt_gt [OF assms(2) gt]]
        first_seq [OF first_star_cls] first_target assms(3,4) t(1))
  then show ?thesis
    by (simp add: output_sign_def)
qed

lemma no_hit_before:
  assumes "descriptor d p" "CHR ''>'' \<notin> set p" "p = u @ v" "v \<noteq> []"
  shows "mt re_redir (b, v @ d @ CHR ''>'' # x, []) = []"
proof -
  have "\<not> can re_redir (b, v @ d @ CHR ''>'' # x, [])"
  proof
    assume "can re_redir (b, v @ d @ CHR ''>'' # x, [])"
    moreover have "CHR ''>'' \<notin> set (v @ d)"
      using assms by (auto simp: descriptor_def list_all_iff is_digit09_def code_def)
    ultimately have "(v @ d \<noteq> [] \<and> list_all is_digit09 (v @ d)) \<or> v @ d = ''&'' \<or> v @ d = []"
      unfolding re_redir_def seqs.simps digit_def
      by (intro can_descriptor(1) [OF reads_plus_cls, where x = x and b = b and g = "[]"])
        (auto simp: list_all_iff is_digit09_def code_def)
    moreover have "last p = last v" "p \<noteq> []"
      using assms(3,4) by simp_all
    ultimately show False
      using assms(1,4) by (cases v rule: rev_cases)
        (auto simp: descriptor_def append_eq_Cons_conv is_digit09_def code_def)
  qed
  then show ?thesis
    by (auto simp: can_def mt_Nil_iff)
qed

lemma redirection_hit:
  assumes "descriptor d p" "CHR ''>'' \<notin> set p" "g \<in> set [''>'', ''>>'']" "plain_target t"
    "rest = [] \<or> hd rest = CHR '' ''"
  shows "\<exists>st st' ps. re_scan re_redir [] (p @ d @ output_sign g n t @ rest) = map Gap p @ Hit st st' # ps \<and>
    fst st = rev p \<and> group_text 1 st' = t"
proof -
  let ?X = "output_sign g n t"
  obtain x where x: "?X = CHR ''>'' # x"
    using sign_chars(2) [OF assms(3,4)] by blast
  have gaps: "re_scan re_redir (rev u) (v @ d @ ?X @ rest) = map Gap v @ re_scan re_redir (rev p) (d @ ?X @ rest)"
    if "p = u @ v" for u v
    using that
  proof (induction v arbitrary: u)
    case (Cons c v)
    have "mt re_redir (rev u, (c # v) @ d @ ?X @ rest, []) = []"
      using no_hit_before [OF assms(1,2) Cons.prems, of "rev u" "x @ rest"] by (simp add: x)
    then have "re_scan re_redir (rev u) ((c # v) @ d @ ?X @ rest) =
        Gap c # re_scan re_redir (rev (u @ [c])) (v @ d @ ?X @ rest)"
      by (subst re_scan.simps) simp
    then show ?case
      using Cons.IH [of "u @ [c]"] Cons.prems by simp
  qed simp
  have "d @ ?X \<noteq> []"
    by (simp add: x)
  moreover have "takes_first re_redir (rev p, (d @ ?X) @ rest, []) (rev (d @ ?X) @ rev p, rest, [(1, t)])"
    using hit_first [OF assms(1,3-5), of "rev p" n] by simp
  ultimately have "re_scan re_redir (rev p) (d @ ?X @ rest) =
      Hit (rev p, d @ ?X @ rest, []) (rev (d @ ?X) @ rev p, rest, [(1, t)]) # re_scan re_redir (rev (d @ ?X) @ rev p) rest"
    using re_scan_first [of re_redir "rev p" "d @ ?X" rest] by simp
  then show ?thesis
    using gaps [of "[]" p] by (simp add: group_text_def group_def)
qed

lemma sub_keeps:
  assumes "begins r P k" "passes r u" "rest = [] \<or> hd rest = CHR '' ''"
  shows "\<exists>rest'. concat (map (sub_piece blank) (re_scan r [] (u @ rest))) = u @ rest' \<and> (rest' = [] \<or> hd rest' = CHR '' '')"
proof -
  have u: "concat (map (sub_piece blank) (re_scan r [] (u @ rest))) =
      u @ concat (map (sub_piece blank) (re_scan r (rev u) rest))"
    using scan_over [OF assms(2), of rest "[]"] assms(3) concat_map_sub_gaps [of blank u] by (auto simp del: map_map)
  show ?thesis
  proof (cases rest)
    case Nil
    then show ?thesis
      using u begins_empty [OF assms(1)] by simp
  next
    case (Cons c y)
    then have "re_scan r (rev u) ('' '' @ y) = map Gap '' '' @ re_scan r (rev '' '' @ rev u) y"
      using scan_over [OF begins_blank [OF assms(1)], of y "rev u"] by simp
    then show ?thesis
      using u Cons assms(3) by simp
  qed
qed

section \<open>An unsafe target is refused\<close>

theorem unsafe_output_refused:
  assumes "CHR ''>'' \<notin> set pre" "squote \<notin> set pre" "dquote \<notin> set pre"
    and g: "g \<in> set [''>'', ''>>'']" and t: "plain_target t" and "rest = [] \<or> hd rest = CHR '' ''"
    and unsafe: "\<not> is_safe_special_target t vs"
  shows "check_and_strip_redirections (pre @ output_sign g n t @ rest) vs = (False, pre @ output_sign g n t @ rest, False)"
proof -
  let ?u = "pre @ output_sign g n t"
  obtain rest1 where r1: "re_sub re_dup_fd blank (?u @ rest) = ?u @ rest1" "rest1 = [] \<or> hd rest1 = CHR '' ''"
    using sub_keeps [OF begins_dup passes_join [OF assms(1) g t] assms(6)] unfolding re_sub_def by blast
  obtain rest2 where r2: "re_sub re_dev_null blank (?u @ rest1) = ?u @ rest2" "rest2 = [] \<or> hd rest2 = CHR '' ''"
    using sub_keeps [OF begins_null passes_discard [OF assms(1) g t] r1(2)] unfolding re_sub_def by blast
  have clean: "clean_redirections (?u @ rest) = ?u @ rest2"
    by (simp only: clean_redirections_def r1(1) r2(1))
  obtain p d where p: "pre = p @ d" "descriptor d p"
    using descriptor_split by blast
  then obtain st st' ps where hit: "re_scan re_redir [] (?u @ rest2) = map Gap p @ Hit st st' # ps"
      "fst st = rev p" "group_text 1 st' = t"
    using redirection_hit [OF p(2) _ g t r2(2), of n] assms(1) by auto
  have "\<not> in_quotes p"
    using assms(2,3) p(1) by (simp add: in_quotes_def odd_count_none)
  then have "redir_loop vs (re_scan re_redir [] (?u @ rest2)) = None"
    using unsafe hit by (simp add: redir_loop_over)
  then show ?thesis
    using clean by (simp add: check_and_strip_redirections_def)
qed

end
