(* ===== verification/Guard_User_Commands.thy ===== *)
theory Guard_User_Commands
  imports Guard_Hook
begin

text \<open>
  The commands that the embedded self test of \<open>autonomous-exec-hook.py\<close> expects to be approved. Most
  are sequences of plain commands, whose verdict follows from their words; the others, with here
  documents, assignments, groups and conditions, are evaluated step by step.
\<close>

abbreviation quo :: char where "quo \<equiv> CHR 0x27"

definition user_commands :: "string list" where
  "user_commands =
    [''echo \"=== main tree e2e/node_modules ===\"; ls -d /path/to/project/e2e/node_modules 2>&1 | head -1'',
     ''echo \"=== root node_modules size ===\"; du -sh /path/to/project/node_modules 2>/dev/null | cut -f1'',
     ''echo \"=== npmrc / registry auth ===\"; ls -la /path/to/project/.npmrc 2>&1 | head -2; cat /path/to/project/.npmrc 2>/dev/null | sed -e '' @ [quo] @ ''s/'' @ [backslash] @ ''(_auth.*='' @ [backslash] @ '').*/'' @ [backslash] @ ''1<redacted>/'' @ [quo] @ '' | head -10'',
     ''echo \"=== e2e pkg has own deps? ===\"; node -e \"const p=require('' @ [quo] @ ''/path/to/project/e2e/package.json'' @ [quo] @ '');console.log('' @ [quo] @ ''deps:'' @ [quo] @ '',Object.keys(p.dependencies||{}).length,'' @ [quo] @ ''devDeps:'' @ [quo] @ '',Object.keys(p.devDependencies||{}).length)\"'',
     ''wt=/path/to/project/.worktrees/presubmit-fixes'' @ [nl] @ ''if ! grep -q \"^docs/plans/\" \"$wt/.gitignore\" 2>/dev/null; then'' @ [nl] @ ''  printf '' @ [quo] @ [backslash] @ ''n# Local planning docs (exec plans) - never committed'' @ [backslash] @ ''ndocs/plans/'' @ [backslash] @ ''n'' @ [quo] @ '' >> \"$wt/.gitignore\"'' @ [nl] @ ''  echo \"added docs/plans/ to worktree .gitignore\"'' @ [nl] @ ''fi'',
     ''echo \"- modified: cypress/environments/allure_report_metadata.ts\" | bash /path/to/cc-thingz/plugins/planning/skills/exec/scripts/append-progress.sh /tmp/progress-presubmit-fixes.txt'',
     ''bash /path/to/cc-thingz/plugins/planning/skills/exec/scripts/append-progress.sh /tmp/progress-presubmit-fixes.txt \"[decision] task 1: narrowed the Kokoro pod-isolation assertion\"'',
     ''echo \"=== Task 1 checkbox state ===\"; sed -n '' @ [quo] @ ''40,67p'' @ [quo] @ '' /path/to/project/docs/plans/presubmit-fixes.md | grep -E '' @ [quo] @ ''^- '' @ [backslash] @ ''['' @ [quo] @ '' | sed '' @ [quo] @ ''s/^/  /'' @ [quo],
     ''echo; echo \"=== remaining unchecked overall ===\"; grep -c '' @ [quo] @ ''^- '' @ [backslash] @ ''[ '' @ [backslash] @ '']'' @ [quo] @ '' /path/to/project/docs/plans/presubmit-fixes.md'',
     ''echo; echo \"=== commits on branch vs 62f33a1 ===\"; git -C /path/to/project/.worktrees/presubmit-fixes log --oneline 62f33a1..HEAD'',
     ''echo; echo \"=== the modified test assertion ===\"; git -C /path/to/project/.worktrees/presubmit-fixes diff 62f33a1..HEAD -- e2e/tests/tools/cypress_wie_config.spec.ts | grep -E '' @ [quo] @ ''^[-+].*require|^[-+].*toContain|^[-+].*toMatch'' @ [quo] @ '' | head -20'',
     ''npx jest --config=./jest.config.ts --listTests 2>&1 | sed '' @ [quo] @ ''s|.*/presubmit-fixes/||'' @ [quo] @ '' | sort | head -80'',
     ''npx eslint \"src/**/*.{ts,tsx}\" --no-eslintrc -c .eslintrc.json --resolve-plugins-relative-to . 2>&1 | tail -10; echo \"eslint_exit=${PIPESTATUS[0]}\"'',
     ''bash /path/to/cc-thingz/plugins/planning/skills/exec/scripts/stage-and-commit.sh \"fix(build): keep e2e specs out of the root jest project\" jest.config.ts e2e/tests/tools/root_jest_boundary.spec.ts 2>&1 | tail -20'',
     ''node /path/to/home/.gemini/jetski/brain/00000000-0000-0000-0000-000000000000/scratch/accept_race_probe.js 3000'',
     ''grep -n '' @ [quo] @ ''^'' @ [backslash] @ ''(### Task'' @ [backslash] @ ''|- '' @ [backslash] @ ''[ '' @ [backslash] @ '']'' @ [backslash] @ ''|- '' @ [backslash] @ ''[x'' @ [backslash] @ '']'' @ [backslash] @ '')'' @ [quo] @ '' /path/to/project/docs/plans/presubmit-fixes.md | sed -n '' @ [quo] @ ''1,120p'' @ [quo] @ ''; echo \"=== REMAINING UNCHECKED ===\"; grep -c '' @ [quo] @ ''^- '' @ [backslash] @ ''[ '' @ [backslash] @ '']'' @ [quo] @ '' /path/to/project/docs/plans/presubmit-fixes.md'',
     ''/path/to/home/.gemini/config/skills/revmux/scripts/launch-revmux.sh --task autonomous-exec-guard --run 01-initial --profile agy-only > /tmp/revmux-autonomous-exec-guard-01-initial.json 2> /tmp/revmux-autonomous-exec-guard-01-initial.log'',
     ''tmpfile=\"/tmp/agy-txt-copy-$(date +%s).txt\"'' @ [nl] @ ''cat > \"$tmpfile\" << '' @ [quo] @ ''EOF'' @ [quo] @ [nl] @ ''Hello world'' @ [nl] @ ''EOF'',
     ''python3 - <<'' @ [quo] @ ''PY'' @ [quo] @ [nl] @ ''import re, html'' @ [nl] @ ''print(\"ok\")'' @ [nl] @ ''PY'',
     ''node -p \"require('' @ [quo] @ ''/path/to/package.json'' @ [quo] @ '').version\"'',
     ''set -e'' @ [nl] @ ''cd /path/to/project/.worktrees/presubmit-fixes'' @ [nl] @ ''( cd e2e && npm run lint:prettier-write && npm run check-types )'',
     ''timeout 10 python3 ~/.gemini/config/plugins_data/cc-thingz/skill-bench/skill-audit.py --test'']"

section \<open>How they are judged\<close>

definition user_passes :: "string \<Rightarrow> bool" where
  "user_passes cmd \<longleftrightarrow> cmd \<noteq> [] \<and> \<not> is_dangerous_command cmd \<and> fst (evaluate_tier1_command 0 cmd)"

lemma user_evaluated:
  "cmd \<noteq> [] \<Longrightarrow> \<not> finds_word blocklist_words False cmd \<Longrightarrow> fst (evaluate_tier1_command 0 cmd) \<Longrightarrow> user_passes cmd"
  by (simp add: user_passes_def not_dangerous)

lemma user_script:
  assumes "cmd = script_text c rest" "script_ok c rest" "list_all (\<lambda>ws. fst (plain_answer ws)) (script_items c rest)"
    "\<not> finds_word blocklist_words False cmd" "cmd \<noteq> []"
  shows "user_passes cmd"
  using user_evaluated [OF assms(5,4)] script_answer [OF assms(2), of 0] assms(1,3) by simp

lemma user_staged:
  assumes "cmd \<noteq> []" "\<not> finds_word blocklist_words False cmd" "strip_heredocs cmd = (rest, bodies)"
    "resolve_with (tier1_ok 1) 0 rest = (True, out)" "split_command_segments out = Some segs"
    "fst (run_segments bodies [] segs)"
  shows "user_passes cmd"
  using user_evaluated [OF assms(1,2)] assms(3-6) by (simp add: evaluate_tier1_command_code judge_def)

text \<open>A segment that is an assignment.\<close>

lemma segment_assignment:
  assumes "trim s = s" "strip_parens s = s" "s \<noteq> [] \<and> \<not> prefix ''#'' s" "strip_keywords s = Some s" "\<not> seg_done s"
    "check_and_strip_redirections s vs = (True, s, False)" "strip_export s = s" "strip_assignments vs s = ([], vs')"
  shows "is_safe_segment bodies vs s = mk_verdict True False vs'"
proof -
  have "command_tokens [] = []"
    by code_simp
  then have "prepare_segment vs s = Settled (mk_verdict True False vs')"
    using assms by (simp add: prepare_segment_def prepare_redirected_def)
  then show ?thesis
    by (subst is_safe_segment.simps) simp
qed

section \<open>Plain commands\<close>

lemma user_0: "user_passes ''echo \"=== main tree e2e/node_modules ===\"; ls -d /path/to/project/e2e/node_modules 2>&1 | head -1''"
  by (rule user_script [of _
      "(0, [''echo'', ''\"=== main tree e2e/node_modules ===\"''], 0)"
      "[('';'', (1, [''ls'', ''-d'', ''/path/to/project/e2e/node_modules'', ''2>&1''], 1)), (''|'', (1, [''head'', ''-1''], 0))]"]; code_simp)

lemma user_1: "user_passes ''echo \"=== root node_modules size ===\"; du -sh /path/to/project/node_modules 2>/dev/null | cut -f1''"
  by (rule user_script [of _
      "(0, [''echo'', ''\"=== root node_modules size ===\"''], 0)"
      "[('';'', (1, [''du'', ''-sh'', ''/path/to/project/node_modules'', ''2>/dev/null''], 1)), (''|'', (1, [''cut'', ''-f1''], 0))]"]; code_simp)

lemma user_3: "user_passes (''echo \"=== e2e pkg has own deps? ===\"; node -e \"const p=require('' @ [quo] @ ''/path/to/project/e2e/package.json'' @ [quo] @ '');console.log('' @ [quo] @ ''deps:'' @ [quo] @ '',Object.keys(p.dependencies||{}).length,'' @ [quo] @ ''devDeps:'' @ [quo] @ '',Object.keys(p.devDependencies||{}).length)\"'')"
  by (rule user_script [of _
      "(0, [''echo'', ''\"=== e2e pkg has own deps? ===\"''], 0)"
      "[('';'', (1, [''node'', ''-e'', ''\"const p=require('' @ [quo] @ ''/path/to/project/e2e/package.json'' @ [quo] @ '');console.log('' @ [quo] @ ''deps:'' @ [quo] @ '',Object.keys(p.dependencies||{}).length,'' @ [quo] @ ''devDeps:'' @ [quo] @ '',Object.keys(p.devDependencies||{}).length)\"''], 0))]"]; code_simp)

lemma user_5: "user_passes ''echo \"- modified: cypress/environments/allure_report_metadata.ts\" | bash /path/to/cc-thingz/plugins/planning/skills/exec/scripts/append-progress.sh /tmp/progress-presubmit-fixes.txt''"
  by (rule user_script [of _
      "(0, [''echo'', ''\"- modified: cypress/environments/allure_report_metadata.ts\"''], 1)"
      "[(''|'', (1, [''bash'', ''/path/to/cc-thingz/plugins/planning/skills/exec/scripts/append-progress.sh'', ''/tmp/progress-presubmit-fixes.txt''], 0))]"]; code_simp)

lemma user_6: "user_passes ''bash /path/to/cc-thingz/plugins/planning/skills/exec/scripts/append-progress.sh /tmp/progress-presubmit-fixes.txt \"[decision] task 1: narrowed the Kokoro pod-isolation assertion\"''"
  by (rule user_script [of _
      "(0, [''bash'', ''/path/to/cc-thingz/plugins/planning/skills/exec/scripts/append-progress.sh'', ''/tmp/progress-presubmit-fixes.txt'', ''\"[decision] task 1: narrowed the Kokoro pod-isolation assertion\"''], 0)"
      "[]"]; code_simp)

lemma user_7: "user_passes (''echo \"=== Task 1 checkbox state ===\"; sed -n '' @ [quo] @ ''40,67p'' @ [quo] @ '' /path/to/project/docs/plans/presubmit-fixes.md | grep -E '' @ [quo] @ ''^- '' @ [backslash] @ ''['' @ [quo] @ '' | sed '' @ [quo] @ ''s/^/  /'' @ [quo])"
  by (rule user_script [of _
      "(0, [''echo'', ''\"=== Task 1 checkbox state ===\"''], 0)"
      "[('';'', (1, [''sed'', ''-n'', [quo] @ ''40,67p'' @ [quo], ''/path/to/project/docs/plans/presubmit-fixes.md''], 1)), (''|'', (1, [''grep'', ''-E'', [quo] @ ''^- '' @ [backslash] @ ''['' @ [quo]], 1)), (''|'', (1, [''sed'', [quo] @ ''s/^/  /'' @ [quo]], 0))]"]; code_simp)

lemma user_8: "user_passes (''echo; echo \"=== remaining unchecked overall ===\"; grep -c '' @ [quo] @ ''^- '' @ [backslash] @ ''[ '' @ [backslash] @ '']'' @ [quo] @ '' /path/to/project/docs/plans/presubmit-fixes.md'')"
  by (rule user_script [of _
      "(0, [''echo''], 0)"
      "[('';'', (1, [''echo'', ''\"=== remaining unchecked overall ===\"''], 0)), ('';'', (1, [''grep'', ''-c'', [quo] @ ''^- '' @ [backslash] @ ''[ '' @ [backslash] @ '']'' @ [quo], ''/path/to/project/docs/plans/presubmit-fixes.md''], 0))]"]; code_simp)

lemma user_9: "user_passes ''echo; echo \"=== commits on branch vs 62f33a1 ===\"; git -C /path/to/project/.worktrees/presubmit-fixes log --oneline 62f33a1..HEAD''"
  by (rule user_script [of _
      "(0, [''echo''], 0)"
      "[('';'', (1, [''echo'', ''\"=== commits on branch vs 62f33a1 ===\"''], 0)), ('';'', (1, [''git'', ''-C'', ''/path/to/project/.worktrees/presubmit-fixes'', ''log'', ''--oneline'', ''62f33a1..HEAD''], 0))]"]; code_simp)

lemma user_10: "user_passes (''echo; echo \"=== the modified test assertion ===\"; git -C /path/to/project/.worktrees/presubmit-fixes diff 62f33a1..HEAD -- e2e/tests/tools/cypress_wie_config.spec.ts | grep -E '' @ [quo] @ ''^[-+].*require|^[-+].*toContain|^[-+].*toMatch'' @ [quo] @ '' | head -20'')"
  by (rule user_script [of _
      "(0, [''echo''], 0)"
      "[('';'', (1, [''echo'', ''\"=== the modified test assertion ===\"''], 0)), ('';'', (1, [''git'', ''-C'', ''/path/to/project/.worktrees/presubmit-fixes'', ''diff'', ''62f33a1..HEAD'', ''--'', ''e2e/tests/tools/cypress_wie_config.spec.ts''], 1)), (''|'', (1, [''grep'', ''-E'', [quo] @ ''^[-+].*require|^[-+].*toContain|^[-+].*toMatch'' @ [quo]], 1)), (''|'', (1, [''head'', ''-20''], 0))]"]; code_simp)

lemma user_11: "user_passes (''npx jest --config=./jest.config.ts --listTests 2>&1 | sed '' @ [quo] @ ''s|.*/presubmit-fixes/||'' @ [quo] @ '' | sort | head -80'')"
  by (rule user_script [of _
      "(0, [''npx'', ''jest'', ''--config=./jest.config.ts'', ''--listTests'', ''2>&1''], 1)"
      "[(''|'', (1, [''sed'', [quo] @ ''s|.*/presubmit-fixes/||'' @ [quo]], 1)), (''|'', (1, [''sort''], 1)), (''|'', (1, [''head'', ''-80''], 0))]"]; code_simp)

lemma user_12: "user_passes ''npx eslint \"src/**/*.{ts,tsx}\" --no-eslintrc -c .eslintrc.json --resolve-plugins-relative-to . 2>&1 | tail -10; echo \"eslint_exit=${PIPESTATUS[0]}\"''"
  by (rule user_script [of _
      "(0, [''npx'', ''eslint'', ''\"src/**/*.{ts,tsx}\"'', ''--no-eslintrc'', ''-c'', ''.eslintrc.json'', ''--resolve-plugins-relative-to'', ''.'', ''2>&1''], 1)"
      "[(''|'', (1, [''tail'', ''-10''], 0)), ('';'', (1, [''echo'', ''\"eslint_exit=${PIPESTATUS[0]}\"''], 0))]"]; code_simp)

lemma user_13: "user_passes ''bash /path/to/cc-thingz/plugins/planning/skills/exec/scripts/stage-and-commit.sh \"fix(build): keep e2e specs out of the root jest project\" jest.config.ts e2e/tests/tools/root_jest_boundary.spec.ts 2>&1 | tail -20''"
  by (rule user_script [of _
      "(0, [''bash'', ''/path/to/cc-thingz/plugins/planning/skills/exec/scripts/stage-and-commit.sh'', ''\"fix(build): keep e2e specs out of the root jest project\"'', ''jest.config.ts'', ''e2e/tests/tools/root_jest_boundary.spec.ts'', ''2>&1''], 1)"
      "[(''|'', (1, [''tail'', ''-20''], 0))]"]; code_simp)

lemma user_14: "user_passes ''node /path/to/home/.gemini/jetski/brain/00000000-0000-0000-0000-000000000000/scratch/accept_race_probe.js 3000''"
  by (rule user_script [of _
      "(0, [''node'', ''/path/to/home/.gemini/jetski/brain/00000000-0000-0000-0000-000000000000/scratch/accept_race_probe.js'', ''3000''], 0)"
      "[]"]; code_simp)

lemma user_15: "user_passes (''grep -n '' @ [quo] @ ''^'' @ [backslash] @ ''(### Task'' @ [backslash] @ ''|- '' @ [backslash] @ ''[ '' @ [backslash] @ '']'' @ [backslash] @ ''|- '' @ [backslash] @ ''[x'' @ [backslash] @ '']'' @ [backslash] @ '')'' @ [quo] @ '' /path/to/project/docs/plans/presubmit-fixes.md | sed -n '' @ [quo] @ ''1,120p'' @ [quo] @ ''; echo \"=== REMAINING UNCHECKED ===\"; grep -c '' @ [quo] @ ''^- '' @ [backslash] @ ''[ '' @ [backslash] @ '']'' @ [quo] @ '' /path/to/project/docs/plans/presubmit-fixes.md'')"
  by (rule user_script [of _
      "(0, [''grep'', ''-n'', [quo] @ ''^'' @ [backslash] @ ''(### Task'' @ [backslash] @ ''|- '' @ [backslash] @ ''[ '' @ [backslash] @ '']'' @ [backslash] @ ''|- '' @ [backslash] @ ''[x'' @ [backslash] @ '']'' @ [backslash] @ '')'' @ [quo], ''/path/to/project/docs/plans/presubmit-fixes.md''], 1)"
      "[(''|'', (1, [''sed'', ''-n'', [quo] @ ''1,120p'' @ [quo]], 0)), ('';'', (1, [''echo'', ''\"=== REMAINING UNCHECKED ===\"''], 0)), ('';'', (1, [''grep'', ''-c'', [quo] @ ''^- '' @ [backslash] @ ''[ '' @ [backslash] @ '']'' @ [quo], ''/path/to/project/docs/plans/presubmit-fixes.md''], 0))]"]; code_simp)

lemma user_16: "user_passes ''/path/to/home/.gemini/config/skills/revmux/scripts/launch-revmux.sh --task autonomous-exec-guard --run 01-initial --profile agy-only > /tmp/revmux-autonomous-exec-guard-01-initial.json 2> /tmp/revmux-autonomous-exec-guard-01-initial.log''"
  by (rule user_script [of _
      "(0, [''/path/to/home/.gemini/config/skills/revmux/scripts/launch-revmux.sh'', ''--task'', ''autonomous-exec-guard'', ''--run'', ''01-initial'', ''--profile'', ''agy-only'', ''> /tmp/revmux-autonomous-exec-guard-01-initial.json'', ''2> /tmp/revmux-autonomous-exec-guard-01-initial.log''], 0)"
      "[]"]; code_simp)

lemma user_19: "user_passes (''node -p \"require('' @ [quo] @ ''/path/to/package.json'' @ [quo] @ '').version\"'')"
  by (rule user_script [of _
      "(0, [''node'', ''-p'', ''\"require('' @ [quo] @ ''/path/to/package.json'' @ [quo] @ '').version\"''], 0)"
      "[]"]; code_simp)

section \<open>The others\<close>

lemma user_2: "user_passes (''echo \"=== npmrc / registry auth ===\"; ls -la /path/to/project/.npmrc 2>&1 | head -2; cat /path/to/project/.npmrc 2>/dev/null | sed -e '' @ [quo] @ ''s/'' @ [backslash] @ ''(_auth.*='' @ [backslash] @ '').*/'' @ [backslash] @ ''1<redacted>/'' @ [quo] @ '' | head -10'')"
  by (rule user_evaluated; code_simp)

lemma user_18: "user_passes (''python3 - <<'' @ [quo] @ ''PY'' @ [quo] @ [nl] @ ''import re, html'' @ [nl] @ ''print(\"ok\")'' @ [nl] @ ''PY'')"
  by (rule user_evaluated; code_simp)

lemma user_20: "user_passes (''set -e'' @ [nl] @ ''cd /path/to/project/.worktrees/presubmit-fixes'' @ [nl] @ ''( cd e2e && npm run lint:prettier-write && npm run check-types )'')"
  by (rule user_evaluated; code_simp)

lemma user_21: "user_passes ''timeout 10 python3 ~/.gemini/config/plugins_data/cc-thingz/skill-bench/skill-audit.py --test''"
  by (rule user_evaluated; code_simp)

text \<open>A variable that holds a path in a temporary directory, and a here document written to it.\<close>

lemma assigned_tmpfile:
  "is_safe_segment bodies [] ''tmpfile=\"/tmp/agy-txt-copy-/tmp/__safe_subcmd__.txt\"'' = mk_verdict True False [''tmpfile'']"
proof (rule segment_assignment)
  have "assign_name ''tmpfile''" "CHR ''\"'' \<notin> set ''/tmp/agy-txt-copy-/tmp/__safe_subcmd__.txt''"
    "record_var ''tmpfile'' ''/tmp/agy-txt-copy-/tmp/__safe_subcmd__.txt'' [] = [''tmpfile'']"
    by code_simp+
  then show "strip_assignments [] ''tmpfile=\"/tmp/agy-txt-copy-/tmp/__safe_subcmd__.txt\"'' = ([], [''tmpfile''])"
    using strip_assignment_quoted [of "''tmpfile''" "''/tmp/agy-txt-copy-/tmp/__safe_subcmd__.txt''" "[]"] by simp
qed code_simp+

lemma user_17: "user_passes (''tmpfile=\"/tmp/agy-txt-copy-$(date +%s).txt\"'' @ [nl] @ ''cat > \"$tmpfile\" << '' @ [quo] @ ''EOF'' @ [quo] @ [nl] @ ''Hello world'' @ [nl] @ ''EOF'')"
proof (rule user_staged)
  show "strip_heredocs (''tmpfile=\"/tmp/agy-txt-copy-$(date +%s).txt\"'' @ [nl] @ ''cat > \"$tmpfile\" << '' @ [quo] @ ''EOF'' @ [quo] @ [nl] @ ''Hello world'' @ [nl] @ ''EOF'') =
      (''tmpfile=\"/tmp/agy-txt-copy-$(date +%s).txt\"'' @ [nl] @ ''cat > \"$tmpfile\"  '', [''Hello world''])"
    by code_simp
  show "resolve_with (tier1_ok 1) 0 (''tmpfile=\"/tmp/agy-txt-copy-$(date +%s).txt\"'' @ [nl] @ ''cat > \"$tmpfile\"  '') =
      (True, ''tmpfile=\"/tmp/agy-txt-copy-/tmp/__safe_subcmd__.txt\"'' @ [nl] @ ''cat > \"$tmpfile\"  '')"
    by code_simp
  show "split_command_segments (''tmpfile=\"/tmp/agy-txt-copy-/tmp/__safe_subcmd__.txt\"'' @ [nl] @ ''cat > \"$tmpfile\"  '') =
      Some [''tmpfile=\"/tmp/agy-txt-copy-/tmp/__safe_subcmd__.txt\"'', ''cat > \"$tmpfile\"  '']"
    by code_simp
  have "trim ''tmpfile=\"/tmp/agy-txt-copy-/tmp/__safe_subcmd__.txt\"'' \<noteq> []" "trim ''cat > \"$tmpfile\"  '' \<noteq> []"
    "safe (is_safe_segment [''Hello world''] [''tmpfile''] ''cat > \"$tmpfile\"  '')"
    by code_simp+
  then show "fst (run_segments [''Hello world''] [] [''tmpfile=\"/tmp/agy-txt-copy-/tmp/__safe_subcmd__.txt\"'', ''cat > \"$tmpfile\"  ''])"
    by (simp add: assigned_tmpfile mk_verdict_def Let_def del: append.simps)
qed code_simp+

text \<open>A condition on a file of a worktree, which is named by a variable.\<close>

lemma assigned_worktree:
  "is_safe_segment bodies [] ''wt=/path/to/project/.worktrees/presubmit-fixes'' = mk_verdict True False [''wt'']"
proof (rule segment_assignment)
  have "assign_name ''wt''" "list_all is_target_char ''/path/to/project/.worktrees/presubmit-fixes''"
    "\<not> head_is is_quote ''/path/to/project/.worktrees/presubmit-fixes''"
    "record_var ''wt'' ''/path/to/project/.worktrees/presubmit-fixes'' [] = [''wt'']"
    by code_simp+
  then show "strip_assignments [] ''wt=/path/to/project/.worktrees/presubmit-fixes'' = ([], [''wt''])"
    using strip_assignment_bare [of "''wt''" "''/path/to/project/.worktrees/presubmit-fixes''" "[]"] by simp
qed code_simp+

lemma condition_1: "is_safe_segment [] [''wt''] ''if ! grep -q \"^docs/plans/\" \"$wt/.gitignore\" 2>/dev/null'' = mk_verdict True False [''wt'']"
  by code_simp

lemma condition_2: "is_safe_segment [] [''wt''] '' then'' = mk_verdict True False [''wt'']"
  by code_simp

lemma condition_3: "is_safe_segment [] [''wt''] (''  printf '' @ [quo] @ [backslash] @ ''n# Local planning docs (exec plans) - never committed'' @ [backslash] @ ''ndocs/plans/'' @ [backslash] @ ''n'' @ [quo] @ '' >> \"$wt/.gitignore\"'') = mk_verdict True True [''wt'']"
  by code_simp

lemma condition_4: "is_safe_segment [] [''wt''] ''  echo \"added docs/plans/ to worktree .gitignore\"'' = mk_verdict True False [''wt'']"
  by code_simp

lemma condition_5: "is_safe_segment [] [''wt''] ''fi'' = mk_verdict True False [''wt'']"
  by code_simp

lemma user_4: "user_passes (''wt=/path/to/project/.worktrees/presubmit-fixes'' @ [nl] @ ''if ! grep -q \"^docs/plans/\" \"$wt/.gitignore\" 2>/dev/null; then'' @ [nl] @ ''  printf '' @ [quo] @ [backslash] @ ''n# Local planning docs (exec plans) - never committed'' @ [backslash] @ ''ndocs/plans/'' @ [backslash] @ ''n'' @ [quo] @ '' >> \"$wt/.gitignore\"'' @ [nl] @ ''  echo \"added docs/plans/ to worktree .gitignore\"'' @ [nl] @ ''fi'')"
proof (rule user_staged)
  let ?cmd = "''wt=/path/to/project/.worktrees/presubmit-fixes'' @ [nl] @ ''if ! grep -q \"^docs/plans/\" \"$wt/.gitignore\" 2>/dev/null; then'' @ [nl] @ ''  printf '' @ [quo] @ [backslash] @ ''n# Local planning docs (exec plans) - never committed'' @ [backslash] @ ''ndocs/plans/'' @ [backslash] @ ''n'' @ [quo] @ '' >> \"$wt/.gitignore\"'' @ [nl] @ ''  echo \"added docs/plans/ to worktree .gitignore\"'' @ [nl] @ ''fi''"
  show "strip_heredocs ?cmd = (?cmd, [])"
    by (rule strip_heredocs_none) code_simp
  show "resolve_with (tier1_ok 1) 0 ?cmd = (True, ?cmd)"
    by code_simp
  show "split_command_segments ?cmd = Some [''wt=/path/to/project/.worktrees/presubmit-fixes'', ''if ! grep -q \"^docs/plans/\" \"$wt/.gitignore\" 2>/dev/null'', '' then'', ''  printf '' @ [quo] @ [backslash] @ ''n# Local planning docs (exec plans) - never committed'' @ [backslash] @ ''ndocs/plans/'' @ [backslash] @ ''n'' @ [quo] @ '' >> \"$wt/.gitignore\"'', ''  echo \"added docs/plans/ to worktree .gitignore\"'', ''fi'']"
    by code_simp
  have "list_all (\<lambda>seg. trim seg \<noteq> []) [''wt=/path/to/project/.worktrees/presubmit-fixes'', ''if ! grep -q \"^docs/plans/\" \"$wt/.gitignore\" 2>/dev/null'', '' then'', ''  printf '' @ [quo] @ [backslash] @ ''n# Local planning docs (exec plans) - never committed'' @ [backslash] @ ''ndocs/plans/'' @ [backslash] @ ''n'' @ [quo] @ '' >> \"$wt/.gitignore\"'', ''  echo \"added docs/plans/ to worktree .gitignore\"'', ''fi'']"
    by code_simp
  then show "fst (run_segments [] [] [''wt=/path/to/project/.worktrees/presubmit-fixes'', ''if ! grep -q \"^docs/plans/\" \"$wt/.gitignore\" 2>/dev/null'', '' then'', ''  printf '' @ [quo] @ [backslash] @ ''n# Local planning docs (exec plans) - never committed'' @ [backslash] @ ''ndocs/plans/'' @ [backslash] @ ''n'' @ [quo] @ '' >> \"$wt/.gitignore\"'', ''  echo \"added docs/plans/ to worktree .gitignore\"'', ''fi''])"
    by (simp add: assigned_worktree condition_1 condition_2 condition_3 condition_4 condition_5 mk_verdict_def Let_def
        del: append.simps)
qed code_simp+

text \<open>All of them are approved in Tier 1, and none is on the blocklist.\<close>

lemma user_commands_pass: "list_all user_passes user_commands"
  by (simp only: user_commands_def list.pred_inject simp_thms
      user_0 user_1 user_2 user_3 user_4 user_5 user_6 user_7
      user_8 user_9 user_10 user_11 user_12 user_13 user_14 user_15
      user_16 user_17 user_18 user_19 user_20 user_21)

end
