(* ===== verification/Named_Store.thy ===== *)
theory Named_Store
  imports Prelude
begin

text \<open>
  The contract of a store of named contents, and the association lists that implement it: the
  token files of the session hook and the file tree are both such stores.
\<close>

section \<open>The contract\<close>

text \<open>
  A store of named contents: what is written is read back, what is removed is gone, and other
  names are not touched.
\<close>

locale named_store =
  fixes put :: "'k \<Rightarrow> 'v \<Rightarrow> 's \<Rightarrow> 's" and del :: "'k \<Rightarrow> 's \<Rightarrow> 's" and get :: "'s \<Rightarrow> 'k \<Rightarrow> 'v option"
  assumes get_put: "get (put k v s) k' = (if k' = k then Some v else get s k')"
    and get_del: "get (del k s) k' = (if k' = k then None else get s k')"
begin

lemma put_twice: "get (put k v (put k u s)) k' = get (put k v s) k'"
  by (simp add: get_put)

lemma put_after_del: "get (put k v (del k s)) k' = get (put k v s) k'"
  by (simp add: get_put get_del)

lemma del_after_put: "get (del k (put k v s)) k = None"
  by (simp add: get_del)

lemma put_back: "get s k = Some v \<Longrightarrow> get (put k v s) k' = get s k'"
  by (simp add: get_put)

end

section \<open>Association lists\<close>

definition put_entry :: "'k \<Rightarrow> 'v \<Rightarrow> ('k \<times> 'v) list \<Rightarrow> ('k \<times> 'v) list" where
  "put_entry k v es = (k, v) # filter (\<lambda>e. fst e \<noteq> k) es"

definition del_entry :: "'k \<Rightarrow> ('k \<times> 'v) list \<Rightarrow> ('k \<times> 'v) list" where
  "del_entry k es = filter (\<lambda>e. fst e \<noteq> k) es"

lemma map_of_without: "map_of (filter (\<lambda>e. fst e \<noteq> k) es) k' = (if k' = k then None else map_of es k')"
  by (induction es) auto

interpretation entry_store: named_store put_entry del_entry map_of
  by unfold_locales (simp_all add: put_entry_def del_entry_def map_of_without)

end
