(* ===== verification/Os_Write.thy ===== *)
theory Os_Write
  imports Os_Fs Named_Store
begin

text \<open>
  The calls that change the file tree: \<open>mkdir\<close>, \<open>makedirs\<close>, \<open>rmdir\<close> and \<open>symlink\<close>, with the
  tests that do not follow a link. A call returns the machine and whether it succeeded; a
  failure is an \<open>OSError\<close>. \<open>denied\<close> are the directories whose entries may not be changed.

  The laws: a path that resolves goes on resolving when entries are added, a resolved path
  consists of directories, and walking along such a path, up or down, ends where it should.
\<close>

record rw_machine = machine +
  denied :: "comps list"

section \<open>Entries\<close>

text \<open>
  The entry a path without trailing slash names, its last component not followed; nothing where
  the directory of the entry does not exist.
\<close>

definition entry_of :: "'a machine_scheme \<Rightarrow> string \<Rightarrow> comps option" where
  "entry_of m p =
     (case real_walk True (files m) [] (start_of m p) (butlast (comps_of p)) of
        (path, ok) \<Rightarrow>
          if ok \<and> lookup (files m) path = Some Dir \<and> last (comps_of p) \<notin> {[], ''.'', ''..''}
          then Some (path @ [last (comps_of p)]) else None)"

definition lstat_node :: "'a machine_scheme \<Rightarrow> string \<Rightarrow> node option" where
  "lstat_node m p = (case entry_of m p of None \<Rightarrow> None | Some e \<Rightarrow> map_of (files m) e)"

text \<open>\<open>os.path.islink\<close>, \<open>os.path.lexists\<close>, and whether \<open>os.listdir\<close> gives anything.\<close>

definition path_islink :: "'a machine_scheme \<Rightarrow> string \<Rightarrow> bool" where
  "path_islink m p \<longleftrightarrow> (case lstat_node m p of Some (Link t) \<Rightarrow> True | _ \<Rightarrow> False)"

definition path_lexists :: "'a machine_scheme \<Rightarrow> string \<Rightarrow> bool" where
  "path_lexists m p \<longleftrightarrow> lstat_node m p \<noteq> None \<or> stat_node m p \<noteq> None"

definition children :: "tree \<Rightarrow> comps \<Rightarrow> string list" where
  "children fs d = map (last \<circ> fst) (filter (\<lambda>e. fst e \<noteq> [] \<and> butlast (fst e) = d) fs)"

definition list_dir :: "'a machine_scheme \<Rightarrow> string \<Rightarrow> string list" where
  "list_dir m p = children (files m) (fst (real_walk True (files m) [] (start_of m p) (comps_of p)))"

section \<open>Changes\<close>

definition mkdir :: "'a rw_machine_scheme \<Rightarrow> string \<Rightarrow> 'a rw_machine_scheme \<times> bool" where
  "mkdir m p =
     (case entry_of m p of
        Some e \<Rightarrow>
          if map_of (files m) e = None \<and> butlast e \<notin> set (denied m)
          then (m\<lparr>files := put_entry e Dir (files m)\<rparr>, True) else (m, False)
      | None \<Rightarrow> (m, False))"

definition rmdir :: "'a rw_machine_scheme \<Rightarrow> string \<Rightarrow> 'a rw_machine_scheme \<times> bool" where
  "rmdir m p =
     (case entry_of m p of
        Some e \<Rightarrow>
          if map_of (files m) e = Some Dir \<and> children (files m) e = [] \<and> butlast e \<notin> set (denied m)
          then (m\<lparr>files := del_entry e (files m)\<rparr>, True) else (m, False)
      | None \<Rightarrow> (m, False))"

definition symlink :: "'a rw_machine_scheme \<Rightarrow> string \<Rightarrow> string \<Rightarrow> 'a rw_machine_scheme \<times> bool" where
  "symlink m target p =
     (case entry_of m p of
        Some e \<Rightarrow>
          if map_of (files m) e = None \<and> target \<noteq> [] \<and> butlast e \<notin> set (denied m)
          then (m\<lparr>files := put_entry e (Link target) (files m)\<rparr>, True) else (m, False)
      | None \<Rightarrow> (m, False))"

text \<open>
  Writing a whole file: an existing one is replaced, else it is created in its directory. A path
  in \<open>denied\<close> may not be written. Creating a file through a dangling link is a failure here.
\<close>

definition write_text :: "'a rw_machine_scheme \<Rightarrow> string \<Rightarrow> string \<Rightarrow> 'a rw_machine_scheme \<times> bool" where
  "write_text m p content =
     (case real_walk True (files m) [] (start_of m p) (comps_of p) of
        (path, ok) \<Rightarrow>
          (case stat_node m p of
             Some (File t n) \<Rightarrow>
               if path \<notin> set (denied m)
               then (m\<lparr>files := put_entry path (File content (clock m)) (files m)\<rparr>, True) else (m, False)
           | Some _ \<Rightarrow> (m, False)
           | None \<Rightarrow>
               (case entry_of m p of
                  Some e \<Rightarrow>
                    if map_of (files m) e = None \<and> butlast e \<notin> set (denied m)
                    then (m\<lparr>files := put_entry e (File content (clock m)) (files m)\<rparr>, True) else (m, False)
                | None \<Rightarrow> (m, False))))"

text \<open>
  \<open>os.makedirs(p, exist_ok=True)\<close>. Where creating the head fails because something that is not
  a directory is there, the code goes on and fails on the next call; here it fails at once.
\<close>

definition split_path :: "string \<Rightarrow> string \<times> string" where
  "split_path p = (dirname p, basename p)"

definition split_tail :: "string \<Rightarrow> string \<times> string" where
  "split_tail p = (if basename p = [] then split_path (dirname p) else split_path p)"

lemma dirname_less: "basename p \<noteq> [] \<Longrightarrow> length (dirname p) < length p"
proof -
  assume "basename p \<noteq> []"
  then have "takeWhile (\<lambda>c. c \<noteq> CHR ''/'') (rev p) \<noteq> []"
    by (simp add: basename_def)
  then have "length (dropWhile (\<lambda>c. c \<noteq> CHR ''/'') (rev p)) < length (rev p)"
    by (metis takeWhile_dropWhile_id length_append length_greater_0_conv less_add_same_cancel2)
  then show ?thesis
    using length_dropWhile_le by (fastforce simp: dirname_def Let_def rstrip_def intro: order_le_less_trans)
qed

lemma split_tail_less: "split_tail p = (head, tail) \<Longrightarrow> tail \<noteq> [] \<Longrightarrow> length head < length p"
  using dirname_less [of p] dirname_less [of "dirname p"] dirname_length [of p]
  by (auto simp: split_tail_def split_path_def split: if_splits)

function makedirs :: "'a rw_machine_scheme \<Rightarrow> string \<Rightarrow> 'a rw_machine_scheme \<times> bool" where
  "makedirs m p =
     (case split_tail p of
        (head, tail) \<Rightarrow>
          let (m1, ok) = (if head \<noteq> [] \<and> tail \<noteq> [] \<and> \<not> path_exists m head then makedirs m head else (m, True)) in
          if \<not> ok then (m1, False)
          else if head \<noteq> [] \<and> tail \<noteq> [] \<and> \<not> path_exists m head \<and> tail = ''.'' then (m1, True)
          else
            (case mkdir m1 p of
               (m2, made) \<Rightarrow> if made then (m2, True) else (m2, is_dir m2 p)))"
  by pat_completeness auto
termination
  by (relation "measure (\<lambda>(m, p). length p)") (auto intro: split_tail_less [OF sym])

declare makedirs.simps [simp del]

section \<open>Laws of the changes\<close>

text \<open>What each change does to an entry.\<close>

lemma mkdir_get:
  "mkdir m p = (m', ok) \<Longrightarrow> map_of (files m) k = Some n \<Longrightarrow> map_of (files m') k = Some n"
  by (auto simp: mkdir_def entry_store.get_put split: option.splits if_splits)

lemma rmdir_get:
  "rmdir m p = (m', ok) \<Longrightarrow> map_of (files m) k = Some n \<Longrightarrow>
     map_of (files m') k = Some n \<or> entry_of m p = Some k \<and> n = Dir \<and> children (files m) k = []"
  by (auto simp: rmdir_def entry_store.get_del split: option.splits if_splits)

lemma symlink_get:
  "symlink m t p = (m', ok) \<Longrightarrow> map_of (files m) k = Some n \<Longrightarrow> map_of (files m') k = Some n"
  by (auto simp: symlink_def entry_store.get_put split: option.splits if_splits)

lemma makedirs_get:
  "makedirs m p = (m', ok) \<Longrightarrow> map_of (files m) k = Some n \<Longrightarrow> map_of (files m') k = Some n"
proof (induction m p arbitrary: m' ok rule: makedirs.induct)
  case (1 m p)
  obtain head tail where ht: "split_tail p = (head, tail)"
    by (cases "split_tail p")
  let ?deep = "head \<noteq> [] \<and> tail \<noteq> [] \<and> \<not> path_exists m head"
  obtain m1 ok1 where r: "(if ?deep then makedirs m head else (m, True)) = (m1, ok1)"
    by (cases "if ?deep then makedirs m head else (m, True)")
  have m1: "map_of (files m1) k = Some n"
    using "1.IH" [OF ht [symmetric]] r "1.prems"(2) by (auto split: if_splits)
  obtain m2 made where m2: "mkdir m1 p = (m2, made)"
    by (cases "mkdir m1 p")
  show ?case
    using "1.prems"(1) r m1 m2 mkdir_get [OF m2 m1]
    by (auto simp: makedirs.simps [of m p] ht split: if_splits)
qed

section \<open>Laws of walking\<close>

text \<open>A path of real directories, none of them a link.\<close>

definition solid :: "tree \<Rightarrow> comps \<Rightarrow> bool" where
  "solid fs p \<longleftrightarrow> (\<forall>k \<le> length p. take k p \<noteq> [] \<longrightarrow> map_of fs (take k p) = Some Dir)"

lemma solid_Nil [simp]: "solid fs []"
  by (simp add: solid_def)

lemma solid_code [code]:
  "solid fs p \<longleftrightarrow> list_all (\<lambda>k. take k p = [] \<or> map_of fs (take k p) = Some Dir) [0..<Suc (length p)]"
  by (auto simp: solid_def list_all_iff Ball_def less_Suc_eq_le simp del: upt_Suc)

lemma solid_snoc: "solid fs (p @ [c]) \<longleftrightarrow> solid fs p \<and> map_of fs (p @ [c]) = Some Dir"
  by (auto simp: solid_def le_Suc_eq)

lemma solid_butlast: "solid fs p \<Longrightarrow> solid fs (butlast p)"
  by (cases p rule: rev_cases) (auto simp: solid_snoc)

lemma solid_append: "solid fs (p @ q) \<Longrightarrow> solid fs p"
  by (induction q rule: rev_induct) (auto simp: solid_snoc simp flip: append_assoc)

lemma solid_lookup: "solid fs p \<Longrightarrow> lookup fs p = Some Dir"
  by (cases p rule: rev_cases) (auto simp: solid_snoc lookup_def)

lemma solid_take: "solid fs p \<Longrightarrow> solid fs (take k p)"
  using solid_append [of fs "take k p" "drop k p"] by simp

text \<open>One step of a strict walk.\<close>

lemma walk_skip:
  "lookup fs path = Some Dir \<Longrightarrow> name = [] \<or> name = ''.'' \<Longrightarrow>
     real_walk strict fs active path (name # rest) = real_walk strict fs active path rest"
  by (auto simp: real_walk.simps)

lemma walk_up_step:
  "lookup fs path = Some Dir \<Longrightarrow>
     real_walk strict fs active path (''..'' # rest) = real_walk strict fs active (butlast path) rest"
  by (simp add: real_walk.simps)

lemma walk_into:
  "lookup fs path = Some Dir \<Longrightarrow> clean_comp name \<Longrightarrow> map_of fs (path @ [name]) = Some n \<Longrightarrow> \<not> is_link n \<Longrightarrow>
     real_walk strict fs active path (name # rest) = real_walk strict fs active (path @ [name]) rest"
  by (cases n) (auto simp: real_walk.simps clean_comp_def)

lemma walk_link:
  assumes "lookup fs path = Some Dir" "clean_comp name" "map_of fs (path @ [name]) = Some (Link target)"
    and "path @ [name] \<notin> set active"
    and "real_walk strict fs ((path @ [name]) # active) (if is_absolute target then [] else path)
           (comps_of target) = (p, True)"
  shows "real_walk strict fs active path (name # rest) = real_walk strict fs active p rest"
  using assms by (simp add: real_walk.simps clean_comp_def)

text \<open>Walking down and up a path of directories.\<close>

lemma walk_down:
  "solid fs (path @ cs) \<Longrightarrow> list_all clean_comp cs \<Longrightarrow>
     real_walk strict fs active path (cs @ rest) = real_walk strict fs active (path @ cs) rest"
proof (induction cs arbitrary: path)
  case (Cons c cs)
  have "solid fs (path @ [c])"
    using Cons.prems(1) solid_append [of fs "path @ [c]" cs] by simp
  then have "lookup fs path = Some Dir" "map_of fs (path @ [c]) = Some Dir"
    using solid_lookup [of fs path] by (simp_all add: solid_snoc)
  then show ?case
    using Cons walk_into [of fs path c Dir] by simp
qed simp

lemma walk_up:
  "solid fs path \<Longrightarrow> n \<le> length path \<Longrightarrow>
     real_walk strict fs active path (replicate n ''..'' @ rest)
       = real_walk strict fs active (take (length path - n) path) rest"
proof (induction n arbitrary: path)
  case (Suc n)
  then show ?case
    using Suc.IH [of "butlast path"] solid_butlast [of fs path]
    by (simp add: walk_up_step solid_lookup take_butlast)
qed simp

text \<open>
  A walk that ends at a directory has a path of directories behind it; it also ends there when
  missing components are tolerated, and when the tree has more entries.
\<close>

definition placed :: "tree \<Rightarrow> comps \<Rightarrow> bool" where
  "placed fs p \<longleftrightarrow> solid fs (butlast p) \<and> (p = [] \<or> (\<exists>n. map_of fs p = Some n \<and> \<not> is_link n))"

lemma placed_Nil [simp]: "placed fs []"
  by (simp add: placed_def)

lemma placed_snoc:
  "placed fs (p @ [c]) \<longleftrightarrow> solid fs p \<and> (\<exists>n. map_of fs (p @ [c]) = Some n \<and> \<not> is_link n)"
  by (simp add: placed_def)

lemma placed_solid: "placed fs p \<Longrightarrow> lookup fs p = Some Dir \<Longrightarrow> solid fs p"
  by (cases p rule: rev_cases) (auto simp: placed_snoc solid_snoc lookup_def)

lemma solid_placed: "solid fs p \<Longrightarrow> placed fs p"
  by (cases p rule: rev_cases) (auto simp: placed_snoc solid_snoc)

lemma map_le_lookup: "map_of fs \<subseteq>\<^sub>m map_of fs' \<Longrightarrow> lookup fs p = Some n \<Longrightarrow> lookup fs' p = Some n"
  by (auto simp: lookup_def map_le_def dom_def split: if_splits)

lemma map_le_get: "map_of fs \<subseteq>\<^sub>m map_of fs' \<Longrightarrow> map_of fs p = Some n \<Longrightarrow> map_of fs' p = Some n"
  by (auto simp: map_le_def dom_def)

lemma walk_invariant:
  "real_walk strict fs active path cs = (r, ok) \<Longrightarrow> strict \<Longrightarrow> ok \<Longrightarrow> placed fs path \<Longrightarrow>
     placed fs r \<and>
     (map_of fs \<subseteq>\<^sub>m map_of fs' \<longrightarrow> real_walk strict fs' active path cs = (r, ok)) \<and>
     real_walk False fs active path cs = (r, ok)"
proof (induction strict fs active path cs arbitrary: r ok rule: real_walk.induct)
  case (2 strict fs active path name rest)
  note step = real_walk.simps(2) [unfolded Let_def]
  have dir: "lookup fs path = Some Dir"
    using "2.prems" by (auto simp: step split: if_splits)
  then have solid: "solid fs path"
    using "2.prems"(4) by (rule placed_solid [rotated])
  have dir': "map_of fs \<subseteq>\<^sub>m map_of fs' \<Longrightarrow> lookup fs' path = Some Dir"
    using dir by (rule map_le_lookup [rotated])
  consider "name = [] \<or> name = ''.''" | "name = ''..''" | "name \<notin> {[], ''.'', ''..''}"
    by blast
  then show ?case
  proof cases
    case 1
    then show ?thesis
      using "2.IH"(1) [of r ok] "2.prems" dir dir' by (auto simp: step)
  next
    case 2
    show ?thesis
      using "2.IH"(2) [of r ok] "2.prems" dir dir' 2 solid_placed [OF solid_butlast [OF solid]]
      by (auto simp: step)
  next
    case 3
    let ?new = "path @ [name]"
    have live: "\<not> (strict \<and> lookup fs path \<noteq> Some Dir)" "\<not> (name = [] \<or> name = ''.'')" "name \<noteq> ''..''"
      using dir 3 by auto
    note IH = "2.IH"(4-7) [OF live refl]
    obtain v where v: "map_of fs ?new = Some v"
      using "2.prems"(1-3) 3 dir by (cases "map_of fs ?new") (auto simp: step)
    have v': "map_of fs \<subseteq>\<^sub>m map_of fs' \<Longrightarrow> map_of fs' ?new = Some v"
      using v by (rule map_le_get [rotated])
    show ?thesis
    proof (cases v)
      case (File t n)
      then show ?thesis
        using IH(1) [OF v] "2.prems"(1-3) 3 dir dir' v v' solid by (auto simp: step placed_snoc)
    next
      case Dir
      then show ?thesis
        using IH(2) [OF v] "2.prems"(1-3) 3 dir dir' v v' solid by (auto simp: step placed_snoc)
    next
      case (Link t)
      let ?start = "if is_absolute t then [] else path"
      obtain q ok' where q: "real_walk strict fs (?new # active) ?start (comps_of t) = (q, ok')"
        by (cases "real_walk strict fs (?new # active) ?start (comps_of t)")
      have new: "?new \<notin> set active" and ok': "ok'" and rest: "real_walk strict fs active q rest = (r, ok)"
        using "2.prems"(1-3) 3 dir v Link q by (auto simp: step split: if_splits)
      have "placed fs ?start"
        using "2.prems"(4) by simp
      then have inner: "placed fs q"
          "map_of fs \<subseteq>\<^sub>m map_of fs' \<Longrightarrow> real_walk strict fs' (?new # active) ?start (comps_of t) = (q, ok')"
          "real_walk False fs (?new # active) ?start (comps_of t) = (q, ok')"
        using IH(3) [OF v Link new q "2.prems"(2) ok'] by auto
      then have outer: "placed fs r"
          "map_of fs \<subseteq>\<^sub>m map_of fs' \<Longrightarrow> real_walk strict fs' active q rest = (r, ok)"
          "real_walk False fs active q rest = (r, ok)"
        using IH(4) [OF v Link new q [symmetric] ok' rest "2.prems"(2,3)] by auto
      show ?thesis
        using 3 dir dir' v v' Link new ok' inner outer by (auto simp: step)
    qed
  qed
qed simp

lemmas walk_placed = walk_invariant [THEN conjunct1, OF _ TrueI]
lemmas walk_more = walk_invariant [THEN conjunct2, THEN conjunct1, rule_format, OF _ TrueI]
lemmas walk_lenient = walk_invariant [THEN conjunct2, THEN conjunct2, OF _ TrueI]

lemma walk_append:
  "real_walk strict fs active path xs = (q, True) \<Longrightarrow>
     real_walk strict fs active path (xs @ ys) = real_walk strict fs active q ys"
proof (induction strict fs active path xs arbitrary: q rule: real_walk.induct)
  case (2 strict fs active path name rest)
  note step = real_walk.simps(2) [of strict fs active path name, unfolded Let_def]
  have live: "\<not> (strict \<and> lookup fs path \<noteq> Some Dir)"
    using "2.prems" by (auto simp: step split: if_splits)
  consider "name = [] \<or> name = ''.''" | "name = ''..''" | "\<not> (name = [] \<or> name = ''.'')" "name \<noteq> ''..''"
    by blast
  then show ?case
  proof cases
    case 1
    then show ?thesis
      using "2.IH"(1) [OF live 1] "2.prems" live by (auto simp: step)
  next
    case 2
    then show ?thesis
      using "2.IH"(2) [OF live _ 2] "2.prems" live real_walk.simps(2) [of _ fs active path "''..''"]
      by auto
  next
    case 3
    let ?new = "path @ [name]"
    note IH = "2.IH"(3-7) [OF live 3 refl]
    show ?thesis
    proof (cases "map_of fs ?new")
      case None
      then show ?thesis
        using IH(1) [OF None] "2.prems" live 3 by (auto simp: step split: if_splits)
    next
      case (Some v)
      show ?thesis
      proof (cases v)
        case (File t n)
        then show ?thesis
          using IH(2) [OF Some] "2.prems" live 3 Some by (auto simp: step)
      next
        case Dir
        then show ?thesis
          using IH(3) [OF Some] "2.prems" live 3 Some by (auto simp: step)
      next
        case (Link t)
        obtain p ok where w: "real_walk strict fs (?new # active) (if is_absolute t then [] else path)
            (comps_of t) = (p, ok)"
          by (cases "real_walk strict fs (?new # active) (if is_absolute t then [] else path) (comps_of t)")
        have "?new \<notin> set active" "ok"
          using "2.prems" live 3 Some Link w by (auto simp: step split: if_splits)
        then show ?thesis
          using IH(5) [OF Some Link _ w [symmetric]] "2.prems" live 3 Some Link w by (auto simp: step)
      qed
    qed
  qed
qed simp

section \<open>Directories made\<close>

lemma put_new: "map_of fs e = None \<Longrightarrow> map_of fs \<subseteq>\<^sub>m map_of (put_entry e n fs)"
  by (auto simp: map_le_def entry_store.get_put)

lemma entry_of_walk:
  "entry_of m p = Some e \<Longrightarrow>
     real_walk True (files m) [] (start_of m p) (butlast (comps_of p)) = (butlast e, True) \<and>
     e = butlast e @ [last (comps_of p)] \<and> lookup (files m) (butlast e) = Some Dir \<and>
     last (comps_of p) \<notin> {[], ''.'', ''..''} \<and> comps_of p = butlast (comps_of p) @ [last (comps_of p)] \<and> p \<noteq> []"
proof -
  assume e: "entry_of m p = Some e"
  have "comps_of p \<noteq> []"
    by (simp add: comps_of_def)
  then have "comps_of p = butlast (comps_of p) @ [last (comps_of p)]"
    by simp
  moreover have "p \<noteq> []"
    using e by (auto simp: entry_of_def comps_of_def split: prod.splits if_splits)
  ultimately show ?thesis
    using e by (auto simp: entry_of_def split: prod.splits if_splits)
qed

lemma start_of_frame [simp]: "start_of (m\<lparr>files := fs\<rparr>) p = start_of m p"
  by (simp add: start_of_def)

definition rooted :: "'a machine_scheme \<Rightarrow> bool" where
  "rooted m \<longleftrightarrow> solid (files m) (cwd m)"

lemma rooted_start: "rooted m \<Longrightarrow> placed (files m) (start_of m p)"
  by (simp add: rooted_def start_of_def solid_placed)

lemma mkdir_is_dir:
  assumes "mkdir m p = (m', True)" "rooted m"
  shows "is_dir m' p"
proof -
  obtain e where e: "entry_of m p = Some e" "map_of (files m) e = None"
      and m': "m' = m\<lparr>files := put_entry e Dir (files m)\<rparr>"
    using assms(1) by (auto simp: mkdir_def split: option.splits if_splits)
  let ?fs = "put_entry e Dir (files m)" and ?n = "last (comps_of p)"
  note w = entry_of_walk [OF e(1)]
  have le: "map_of (files m) \<subseteq>\<^sub>m map_of ?fs"
    using e(2) by (rule put_new)
  have "real_walk True ?fs [] (start_of m p) (butlast (comps_of p)) = (butlast e, True)"
    using walk_more [OF conjunct1 [OF w] TrueI rooted_start [OF assms(2)] le] by simp
  then have "real_walk True ?fs [] (start_of m p) (comps_of p) = real_walk True ?fs [] (butlast e) [?n]"
    using walk_append w by metis
  also have "\<dots> = (e, True)"
  proof -
    have "lookup ?fs (butlast e) = Some Dir" "map_of ?fs (butlast e @ [?n]) = Some Dir"
      using w map_le_lookup [OF le] by (auto simp: entry_store.get_put)
    then show ?thesis
      using w by (auto simp: real_walk.simps)
  qed
  finally show ?thesis
    using w by (auto simp: is_dir_def stat_node_def m' lookup_def entry_store.get_put)
qed

lemma mkdir_frame: "mkdir m p = (m', ok) \<Longrightarrow> rooted m \<Longrightarrow> rooted m' \<and> cwd m' = cwd m \<and> map_of (files m) \<subseteq>\<^sub>m map_of (files m')"
  by (auto simp: mkdir_def rooted_def solid_def entry_store.get_put map_le_def split: option.splits if_splits)

lemma makedirs_frame:
  "makedirs m p = (m', ok) \<Longrightarrow> rooted m \<Longrightarrow> rooted m' \<and> cwd m' = cwd m"
proof (induction m p arbitrary: m' ok rule: makedirs.induct)
  case (1 m p)
  obtain head tail where ht: "split_tail p = (head, tail)"
    by (cases "split_tail p")
  let ?deep = "head \<noteq> [] \<and> tail \<noteq> [] \<and> \<not> path_exists m head"
  obtain m1 ok1 where r: "(if ?deep then makedirs m head else (m, True)) = (m1, ok1)"
    by (cases "if ?deep then makedirs m head else (m, True)")
  have m1: "rooted m1 \<and> cwd m1 = cwd m"
    using "1.IH" [OF ht [symmetric]] r "1.prems"(2) by (auto split: if_splits)
  obtain m2 made where m2: "mkdir m1 p = (m2, made)"
    by (cases "mkdir m1 p")
  show ?case
    using "1.prems"(1) r m1 m2 mkdir_frame [OF m2]
    by (auto simp: makedirs.simps [of m p] ht split: if_splits)
qed

lemma makedirs_is_dir:
  assumes "makedirs m p = (m', True)" "rooted m" "snd (split_tail p) \<noteq> ''.''"
  shows "is_dir m' p"
proof -
  obtain head tail where ht: "split_tail p = (head, tail)"
    by (cases "split_tail p")
  let ?deep = "head \<noteq> [] \<and> tail \<noteq> [] \<and> \<not> path_exists m head"
  obtain m1 ok1 where r: "(if ?deep then makedirs m head else (m, True)) = (m1, ok1)"
    by (cases "if ?deep then makedirs m head else (m, True)")
  have m1: "rooted m1"
    using makedirs_frame [of m head m1 ok1] r assms(2) by (auto split: if_splits)
  obtain m2 made where m2: "mkdir m1 p = (m2, made)"
    by (cases "mkdir m1 p")
  show ?thesis
    using assms(1,3) r m1 m2 mkdir_is_dir [of m1 p m2]
    by (auto simp: makedirs.simps [of m p] ht split: if_splits)
qed

text \<open>The components a walk collects are clean where the start is.\<close>

lemma walk_clean:
  "real_walk strict fs active path cs = (r, ok) \<Longrightarrow> ok \<Longrightarrow> list_all clean_comp path \<Longrightarrow> slash_free cs \<Longrightarrow>
     list_all clean_comp r"
proof (induction strict fs active path cs arbitrary: r ok rule: real_walk.induct)
  case (2 strict fs active path name rest)
  note step = real_walk.simps(2) [of strict fs active path name rest, unfolded Let_def]
  have live: "\<not> (strict \<and> lookup fs path \<noteq> Some Dir)"
    using "2.prems" by (auto simp: step split: if_splits)
  consider "name = [] \<or> name = ''.''" | "name = ''..''" | "\<not> (name = [] \<or> name = ''.'')" "name \<noteq> ''..''"
    by blast
  then show ?case
  proof cases
    case 1
    then show ?thesis
      using "2.IH"(1) [OF live 1 _ "2.prems"(2,3)] "2.prems" live by (auto simp: step)
  next
    case 2
    then have "name \<noteq> []" "name \<noteq> ''.''"
      by simp_all
    then show ?thesis
      using "2.IH"(2) [OF live _ 2 _ "2.prems"(2)] "2.prems" live 2 list_all_butlast [of clean_comp path]
        real_walk.simps(2) [of strict fs active path "''..''" rest]
      by simp
  next
    case 3
    let ?new = "path @ [name]"
    have new: "list_all clean_comp ?new" "slash_free rest"
      using "2.prems"(3,4) 3 by (simp_all add: clean_comp_def [of name])
    note IH = "2.IH"(3-7) [OF live 3 refl]
    show ?thesis
    proof (cases "map_of fs ?new")
      case None
      then show ?thesis
        using IH(1) [OF None _ _ "2.prems"(2) new] "2.prems"(1,2) live 3 by (auto simp: step split: if_splits)
    next
      case (Some v)
      show ?thesis
      proof (cases v)
        case (File t n)
        then show ?thesis
          using IH(2) [OF Some _ _ "2.prems"(2) new] "2.prems"(1) live 3 Some by (auto simp: step)
      next
        case Dir
        then show ?thesis
          using IH(3) [OF Some _ _ "2.prems"(2) new] "2.prems"(1) live 3 Some by (auto simp: step)
      next
        case (Link t)
        let ?start = "if is_absolute t then [] else path"
        obtain p ok' where w: "real_walk strict fs (?new # active) ?start (comps_of t) = (p, ok')"
          by (cases "real_walk strict fs (?new # active) ?start (comps_of t)")
        have fresh: "?new \<notin> set active" and ok': "ok'" and outer: "real_walk strict fs active p rest = (r, ok)"
          using "2.prems"(1,2) live 3 Some Link w by (auto simp: step split: if_splits)
        have "list_all clean_comp ?start"
          using "2.prems"(3) by simp
        then have "list_all clean_comp p"
          using IH(4) [OF Some Link fresh w ok' _ slash_free_comps_of] by simp
        then show ?thesis
          using IH(5) [OF Some Link fresh w [symmetric] ok' outer "2.prems"(2)] new(2) by simp
      qed
    qed
  qed
qed simp

text \<open>A tree that agrees on all entries along a path.\<close>

lemma solid_cong:
  "solid fs p \<Longrightarrow> (\<And>k. map_of fs' k = map_of fs k \<or> \<not> prefix k p) \<Longrightarrow> solid fs' p"
  unfolding solid_def by (metis take_is_prefix)

lemma solid_put: "solid fs p \<Longrightarrow> \<not> prefix e p \<Longrightarrow> solid (put_entry e n fs) p"
  by (rule solid_cong) (auto simp: entry_store.get_put)

lemma solid_del: "solid fs p \<Longrightarrow> \<not> prefix e p \<Longrightarrow> solid (del_entry e fs) p"
  by (rule solid_cong) (auto simp: entry_store.get_del)

lemma solid_map_le: "solid fs p \<Longrightarrow> map_of fs \<subseteq>\<^sub>m map_of fs' \<Longrightarrow> solid fs' p"
  by (auto simp: solid_def dest: map_le_get)

lemma makedirs_map_le: "makedirs m p = (m', ok) \<Longrightarrow> map_of (files m) \<subseteq>\<^sub>m map_of (files m')"
  using makedirs_get by (fastforce simp: map_le_def dom_def)

lemma clean_slash_free: "list_all clean_comp cs \<Longrightarrow> slash_free cs"
  by (auto simp: slash_free_def list_all_iff clean_comp_def)

text \<open>A directory that exists resolves to a path of directories, and strictly as well.\<close>

lemma is_dir_solid:
  assumes "is_dir m p" "rooted m" "machine_ok m"
  shows "solid (files m) (real_comps m p) \<and> list_all clean_comp (real_comps m p)"
proof -
  obtain q where q: "real_walk True (files m) [] (start_of m p) (comps_of p) = (q, True)"
      "lookup (files m) q = Some Dir"
    using assms(1) by (auto simp: is_dir_def stat_node_def split: if_splits prod.splits)
  have "list_all clean_comp (start_of m p)"
    using assms(3) by (simp add: start_of_def machine_ok_def)
  then have clean: "list_all clean_comp q"
    using walk_clean [OF q(1) TrueI] slash_free_comps_of by blast
  moreover have "solid (files m) q"
    using walk_placed [OF q(1) TrueI rooted_start [OF assms(2)]] q(2) by (rule placed_solid)
  moreover have "real_comps m p = q"
    using walk_lenient [OF q(1) TrueI rooted_start [OF assms(2)]] norm_comps_id [OF clean, of "[]"]
    by (simp add: real_comps_def)
  ultimately show ?thesis
    by simp
qed

lemma real_comps_solid:
  assumes "solid (files m) cs" "list_all clean_comp cs"
  shows "real_comps m (path_string cs) = cs"
proof -
  have "real_walk False (files m) [] [] (comps_of (path_string cs)) = (cs, True)"
  proof (cases "cs = []")
    case True
    then show ?thesis
      by (simp add: path_string_def comps_of_def real_walk.simps)
  next
    case False
    then show ?thesis
      using walk_down [of "files m" "[]" cs False "[]" "[]"] assms clean_slash_free [OF assms(2)]
        walk_skip [of "files m" "[]" "[]" False "[]" cs]
      by (simp add: comps_of_path_string lookup_def)
  qed
  moreover have "start_of m (path_string cs) = []"
    by (simp add: start_of_def is_absolute_def path_string_def)
  ultimately show ?thesis
    using norm_comps_id [OF assms(2), of "[]"] by (simp add: real_comps_def)
qed

text \<open>The entry named by a directory path and a clean name.\<close>

lemma entry_of_solid:
  assumes "solid (files m) cs" "list_all clean_comp (cs @ [c])"
  shows "entry_of m (path_string (cs @ [c])) = Some (cs @ [c])"
proof -
  have "comps_of (path_string (cs @ [c])) = [] # cs @ [c]"
    using comps_of_path_string clean_slash_free [OF assms(2)] by simp
  moreover have "start_of m (path_string (cs @ [c])) = []"
    by (simp add: start_of_def is_absolute_def path_string_def)
  moreover have "real_walk True (files m) [] [] ([] # cs) = (cs, True)"
    using walk_down [of "files m" "[]" cs True "[]" "[]"] assms
      walk_skip [of "files m" "[]" "[]" True "[]" cs] by (simp add: lookup_def)
  ultimately show ?thesis
    using solid_lookup [OF assms(1)] assms(2) by (simp add: entry_of_def clean_comp_def)
qed

lemma children_Nil: "children fs d = [] \<longleftrightarrow> (\<forall>k. k \<noteq> [] \<longrightarrow> butlast k = d \<longrightarrow> map_of fs k = None)"
  by (auto simp: children_def filter_empty_conv map_of_eq_None_iff)

lemma children_map_le: "map_of fs \<subseteq>\<^sub>m map_of fs' \<Longrightarrow> children fs' d = [] \<Longrightarrow> children fs d = []"
  unfolding children_Nil by (metis map_le_get not_None_eq)

section \<open>Files written\<close>

text \<open>A walk does not look into files.\<close>

fun shape :: "node \<Rightarrow> node" where
  "shape (File t n) = File [] 0"
| "shape v = v"

lemma shape_eqs:
  "shape v = Dir \<longleftrightarrow> v = Dir" "Dir = shape v \<longleftrightarrow> v = Dir" "shape v = Link t \<longleftrightarrow> v = Link t"
  "Link t = shape v \<longleftrightarrow> v = Link t"
  by (cases v; auto)+

lemma walk_shape:
  assumes "\<And>k. map_option shape (map_of fs k) = map_option shape (map_of fs' k)"
  shows "real_walk strict fs active path cs = real_walk strict fs' active path cs"
  using assms
proof (induction strict fs active path cs rule: real_walk.induct)
  case (2 strict fs active path name rest)
  let ?new = "path @ [name]"
  have look: "lookup fs path = Some Dir \<longleftrightarrow> lookup fs' path = Some Dir"
    using "2.prems" [of path] by (auto simp: lookup_def shape_eqs map_option_case split: option.splits if_splits)
  note step = real_walk.simps(2) [of strict _ active path name rest, unfolded Let_def]
  show ?case
  proof (cases "strict \<and> lookup fs path \<noteq> Some Dir \<or> name = [] \<or> name = ''.''")
    case True
    then show ?thesis
      using "2.IH"(1) "2.prems" look by (auto simp: step)
  next
    case False
    then have live: "\<not> (strict \<and> lookup fs path \<noteq> Some Dir)" "\<not> (name = [] \<or> name = ''.'')"
      by auto
    then have live': "(strict \<and> lookup fs' path \<noteq> Some Dir) = False"
      using look by auto
    show ?thesis
    proof (cases "name = ''..''")
      case True
      then show ?thesis
        using "2.IH"(2) [OF live True] "2.prems" look live
          real_walk.simps(2) [of strict _ active path "''..''" rest] by auto
    next
      case up: False
      note IH = "2.IH"(3-7) [OF live up refl]
      show ?thesis
      proof (cases "map_of fs ?new")
        case None
        then have "map_of fs' ?new = None"
          using "2.prems" [of ?new] by simp
        then show ?thesis
          using IH(1) [OF None] "2.prems" live live' up None look by (auto simp: step)
      next
        case (Some v)
        then obtain v' where v': "map_of fs' ?new = Some v'" "shape v = shape v'"
          using "2.prems" [of ?new] by (cases "map_of fs' ?new") auto
        show ?thesis
        proof (cases v)
          case (File t n)
          then obtain t' n' where "v' = File t' n'"
            using v'(2) by (cases v') auto
          then show ?thesis
            using IH(2) [OF Some File] "2.prems" live live' up Some File look v'(1) by (auto simp: step)
        next
          case Dir
          then have "v' = Dir"
            using v'(2) by (simp add: shape_eqs)
          then show ?thesis
            using IH(3) [OF Some Dir] "2.prems" live live' up Some Dir look v'(1) by (auto simp: step)
        next
          case (Link t)
          then have vl: "v' = Link t"
            using v'(2) by (simp add: shape_eqs)
          show ?thesis
          proof (cases "?new \<in> set active")
            case True
            then show ?thesis
              using live live' up Some Link look v'(1) vl by (auto simp: step)
          next
            case False
            obtain q ok where q: "real_walk strict fs (?new # active) (if is_absolute t then [] else path)
                (comps_of t) = (q, ok)"
              by (cases "real_walk strict fs (?new # active) (if is_absolute t then [] else path) (comps_of t)")
            then have "real_walk strict fs' (?new # active) (if is_absolute t then [] else path) (comps_of t) = (q, ok)"
              using IH(4) [OF Some Link False] "2.prems" by simp
            moreover have "ok \<Longrightarrow> real_walk strict fs active q rest = real_walk strict fs' active q rest"
              using IH(5) [OF Some Link False q [symmetric]] "2.prems" by simp
            ultimately show ?thesis
              using live live' up Some Link look v'(1) vl False q by (auto simp: step)
          qed
        qed
      qed
    qed
  qed
qed simp

text \<open>What is written is read back.\<close>

text \<open>Writing changes nothing of the machine but the tree, and what is written is read back.\<close>

lemma write_text_frame:
  "write_text m p t = (m', ok) \<Longrightarrow> m' = m\<lparr>files := files m'\<rparr>"
  by (auto simp: write_text_def split: prod.splits option.splits node.splits if_splits)

lemma write_text_read:
  assumes "write_text m p content = (m', True)" "rooted m"
  shows "read_file m' p = Some content"
proof -
  let ?f = "File content (clock m)"
  obtain path ok where w: "real_walk True (files m) [] (start_of m p) (comps_of p) = (path, ok)"
    by (cases "real_walk True (files m) [] (start_of m p) (comps_of p)")
  show ?thesis
  proof (cases "stat_node m p")
    case (Some v)
    then obtain t n where v: "v = File t n" and m': "m' = m\<lparr>files := put_entry path ?f (files m)\<rparr>"
      using assms(1) w by (cases v) (auto simp: write_text_def split: if_splits)
    have p: "p \<noteq> []" "ok" "lookup (files m) path = Some (File t n)"
      using Some v w by (auto simp: stat_node_def split: if_splits)
    then have f: "map_of (files m) path = Some (File t n)" "path \<noteq> []"
      by (auto simp: lookup_def split: if_splits)
    have "map_option shape (map_of (files m) k) = map_option shape (map_of (put_entry path ?f (files m)) k)" for k
      using f by (simp add: entry_store.get_put)
    then have "real_walk True (put_entry path ?f (files m)) [] (start_of m p) (comps_of p) = (path, ok)"
      using w walk_shape by metis
    then show ?thesis
      using p f by (simp add: read_file_def stat_node_def m' lookup_def entry_store.get_put)
  next
    case None
    then obtain e where e: "entry_of m p = Some e" "map_of (files m) e = None"
        and m': "m' = m\<lparr>files := put_entry e ?f (files m)\<rparr>"
      using assms(1) w by (auto simp: write_text_def split: if_splits option.splits)
    let ?fs = "put_entry e ?f (files m)" and ?n = "last (comps_of p)"
    note d = entry_of_walk [OF e(1)]
    have le: "map_of (files m) \<subseteq>\<^sub>m map_of ?fs"
      using e(2) by (rule put_new)
    have "real_walk True ?fs [] (start_of m p) (butlast (comps_of p)) = (butlast e, True)"
      using walk_more [OF conjunct1 [OF d] TrueI rooted_start [OF assms(2)] le] by simp
    then have "real_walk True ?fs [] (start_of m p) (comps_of p) = real_walk True ?fs [] (butlast e) [?n]"
      using walk_append d by metis
    also have "\<dots> = (e, True)"
    proof -
      have "lookup ?fs (butlast e) = Some Dir" "map_of ?fs (butlast e @ [?n]) = Some ?f"
        using d map_le_lookup [OF le] by (auto simp: entry_store.get_put)
      then show ?thesis
        using d by (auto simp: real_walk.simps)
    qed
    finally show ?thesis
      using d by (auto simp: read_file_def stat_node_def m' lookup_def entry_store.get_put)
  qed
qed

end
