(* ===== verification/Py_Shlex.thy ===== *)
theory Py_Shlex
  imports Py_String
begin

text \<open>
  \<open>shlex.split\<close> and \<open>shlex.quote\<close> of Python's library in their POSIX default: the tokenizer as a
  state machine over its four states, and the law that quoting and joining is undone by splitting.
\<close>

section \<open>Splitting\<close>

text \<open>
  \<open>Gap\<close> is between tokens, \<open>Word\<close> inside one, \<open>Quote q\<close> inside quotes, \<open>Escape None\<close> after a
  backslash outside quotes and \<open>Escape (Some q)\<close> after one inside the quotes \<open>q\<close>.
\<close>

datatype lex_state = Gap | Word | Quote char | Escape "char option"

definition lex_space :: "char \<Rightarrow> bool" where
  "lex_space c \<longleftrightarrow> c = CHR '' '' \<or> c = CHR 0x09 \<or> c = CHR 0x0D \<or> c = CHR 0x0A"

definition backslash :: char where
  "backslash = CHR 0x5C"

text \<open>\<open>tok\<close> is the token read so far; \<open>None\<close> is the \<open>ValueError\<close> of an open quote or escape.\<close>

fun lex :: "lex_state \<Rightarrow> string \<Rightarrow> string \<Rightarrow> string list option" where
  "lex Gap tok [] = Some []"
| "lex Gap tok (c # s) =
     (if lex_space c then lex Gap [] s
      else if c = backslash then lex (Escape None) [] s
      else if is_quote c then lex (Quote c) [] s
      else lex Word [c] s)"
| "lex Word tok [] = Some [tok]"
| "lex Word tok (c # s) =
     (if lex_space c then map_option ((#) tok) (lex Gap [] s)
      else if c = backslash then lex (Escape None) tok s
      else if is_quote c then lex (Quote c) tok s
      else lex Word (tok @ [c]) s)"
| "lex (Quote q) tok [] = None"
| "lex (Quote q) tok (c # s) =
     (if c = q then lex Word tok s
      else if c = backslash \<and> q = CHR ''\"'' then lex (Escape (Some q)) tok s
      else lex (Quote q) (tok @ [c]) s)"
| "lex (Escape e) tok [] = None"
| "lex (Escape e) tok (c # s) =
     (case e of
        None \<Rightarrow> lex Word (tok @ [c]) s
      | Some q \<Rightarrow> lex (Quote q) (tok @ (if c \<noteq> backslash \<and> c \<noteq> q then [backslash] else []) @ [c]) s)"

definition shlex_split :: "string \<Rightarrow> string list option" where
  "shlex_split s = lex Gap [] s"

section \<open>Quoting\<close>

definition lex_safe :: "char \<Rightarrow> bool" where
  "lex_safe c \<longleftrightarrow> is_name_char c \<or> c \<in> set ''@%+=:,./-''"

definition single :: char where
  "single = CHR 0x27"

fun quote_char :: "char \<Rightarrow> string" where
  "quote_char c = (if c = single then [single, CHR ''\"'', single, CHR ''\"'', single] else [c])"

definition shlex_quote :: "string \<Rightarrow> string" where
  "shlex_quote s =
     (if s = [] then [single, single]
      else if list_all lex_safe s then s
      else [single] @ concat (map quote_char s) @ [single])"

section \<open>Quoting is undone by splitting\<close>

lemma safe_plain: "lex_safe c \<Longrightarrow> \<not> lex_space c \<and> c \<noteq> backslash \<and> \<not> is_quote c"
  by (cases c) (auto simp: lex_safe_def lex_space_def backslash_def is_quote_def is_name_char_def is_alnum_az_def
      is_digit09_code is_alpha_az_code)

lemma lex_safe_word: "list_all lex_safe s \<Longrightarrow> lex Word tok (s @ t) = lex Word (tok @ s) t"
  by (induction s arbitrary: tok) (auto dest: safe_plain)

lemma quote_consts: "is_quote single" "\<not> lex_space single" "single \<noteq> backslash" "is_quote CHR ''\"''"
  "\<not> lex_space CHR ''\"''" "CHR ''\"'' \<noteq> backslash" "single \<noteq> CHR ''\"''"
  by (simp_all add: is_quote_def single_def lex_space_def backslash_def)

lemma lex_quoted: "lex (Quote single) tok (concat (map quote_char s) @ single # t) = lex Word (tok @ s) t"
proof (induction s arbitrary: tok)
  case (Cons c s)
  then show ?case
    using quote_consts by (cases "c = single") auto
qed simp

text \<open>A quoted word is one token, whatever follows.\<close>

lemma lex_quote: "lex Gap tok (shlex_quote s @ t) = lex Word s t"
proof -
  consider "s = []" | "s \<noteq> []" "list_all lex_safe s" | "s \<noteq> []" "\<not> list_all lex_safe s"
    by blast
  then show ?thesis
  proof cases
    case 1
    then show ?thesis
      using quote_consts by (simp add: shlex_quote_def)
  next
    case 2
    then obtain c r where s: "s = c # r"
      by (cases s) auto
    then show ?thesis
      using 2 safe_plain [of c] lex_safe_word [of r "[c]" t] by (simp add: shlex_quote_def)
  next
    case 3
    then show ?thesis
      using lex_quoted [of "[]" s t] quote_consts by (simp add: shlex_quote_def)
  qed
qed

lemma split_quoted: "shlex_split (join '' '' (map shlex_quote ws)) = Some ws"
proof -
  have "lex Gap [] (join '' '' (map shlex_quote ws)) = Some ws"
  proof (induction ws rule: induct_list012)
    case (2 w)
    then show ?case
      using lex_quote [of "[]" w "[]"] by simp
  next
    case (3 w v ws)
    then show ?case
      using lex_quote [of "[]" w "'' '' @ join '' '' (map shlex_quote (v # ws))"]
      by (simp add: lex_space_def)
  qed simp
  then show ?thesis
    by (simp add: shlex_split_def)
qed

end
