(* ===== verification/Py_Difflib.thy ===== *)
theory Py_Difflib
  imports Prelude
begin

text \<open>
  \<open>difflib.unified_diff\<close> of Python's library, on lists of lines: the matcher with its heuristic for
  popular lines, the edit operations, their groups with context, and the text. There is no junk
  function, as in the call of \<open>plan-annotate.py\<close>, so the loops of the matcher over junk do nothing.

  The laws: the operations rebuild both sides, and the difference is empty exactly for equal sides.
\<close>

section \<open>The matcher\<close>

text \<open>\<open>b2j\<close>: the positions of a line in the second side, none for a popular line of a long side.\<close>

definition positions :: "'a list \<Rightarrow> 'a \<Rightarrow> nat list" where
  "positions b x = filter (\<lambda>j. b ! j = x) [0..<length b]"

definition b2j :: "'a list \<Rightarrow> 'a \<Rightarrow> nat list" where
  "b2j b x =
     (let js = positions b x in
      if 200 \<le> length b \<and> length js > length b div 100 + 1 then [] else js)"

text \<open>
  One row of \<open>find_longest_match\<close>: \<open>old\<close> and \<open>new\<close> are \<open>j2len\<close> and \<open>newj2len\<close>, the best match is
  its two starts and its size.
\<close>

type_synonym lengths = "(nat \<times> nat) list"
type_synonym match = "nat \<times> nat \<times> nat"

definition run_before :: "lengths \<Rightarrow> nat \<Rightarrow> nat" where
  "run_before old j =
     (if j = 0 then 0 else (case map_of old (j - 1) of None \<Rightarrow> 0 | Some k \<Rightarrow> k))"

fun match_row :: "nat \<Rightarrow> nat \<Rightarrow> nat \<Rightarrow> lengths \<Rightarrow> nat list \<Rightarrow> lengths \<Rightarrow> match \<Rightarrow> lengths \<times> match" where
  "match_row i blo bhi old [] new best = (new, best)"
| "match_row i blo bhi old (j # js) new best =
     (if j < blo then match_row i blo bhi old js new best
      else if j \<ge> bhi then (new, best)
      else
        (let k = run_before old j + 1;
             best' = (if k > snd (snd best) then (i + 1 - k, j + 1 - k, k) else best) in
         match_row i blo bhi old js ((j, k) # new) best'))"

fun match_rows :: "'a list \<Rightarrow> 'a list \<Rightarrow> nat \<Rightarrow> nat \<Rightarrow> nat list \<Rightarrow> lengths \<Rightarrow> match \<Rightarrow> match" where
  "match_rows a b blo bhi [] old best = best"
| "match_rows a b blo bhi (i # is) old best =
     (case match_row i blo bhi old (b2j b (a ! i)) [] best of
        (new, best') \<Rightarrow> match_rows a b blo bhi is new best')"

text \<open>The two loops that extend the best match over equal lines, popular ones included.\<close>

fun grow_left :: "'a list \<Rightarrow> 'a list \<Rightarrow> nat \<Rightarrow> nat \<Rightarrow> nat \<Rightarrow> nat \<Rightarrow> nat \<Rightarrow> match" where
  "grow_left a b alo blo (Suc i) (Suc j) k =
     (if alo \<le> i \<and> blo \<le> j \<and> a ! i = b ! j then grow_left a b alo blo i j (k + 1) else (Suc i, Suc j, k))"
| "grow_left a b alo blo i j k = (i, j, k)"

function grow_right :: "'a list \<Rightarrow> 'a list \<Rightarrow> nat \<Rightarrow> nat \<Rightarrow> match \<Rightarrow> match" where
  "grow_right a b ahi bhi (i, j, k) =
     (if i + k < ahi \<and> j + k < bhi \<and> a ! (i + k) = b ! (j + k) then grow_right a b ahi bhi (i, j, k + 1)
      else (i, j, k))"
  by pat_completeness auto
termination
  by (relation "measure (\<lambda>(a, b, ahi, bhi, i, j, k). ahi - (i + k))") auto

declare grow_right.simps [simp del]

definition find_longest_match :: "'a list \<Rightarrow> 'a list \<Rightarrow> nat \<Rightarrow> nat \<Rightarrow> nat \<Rightarrow> nat \<Rightarrow> match" where
  "find_longest_match a b alo ahi blo bhi =
     (case match_rows a b blo bhi [alo..<ahi] [] (alo, blo, 0) of
        (i, j, k) \<Rightarrow> grow_right a b ahi bhi (grow_left a b alo blo i j k))"

section \<open>What a match is\<close>

text \<open>Within the given ranges, or the empty match at their start.\<close>

definition matching :: "'a list \<Rightarrow> 'a list \<Rightarrow> nat \<Rightarrow> nat \<Rightarrow> nat \<Rightarrow> nat \<Rightarrow> match \<Rightarrow> bool" where
  "matching a b alo ahi blo bhi = (\<lambda>(i, j, k).
     (k = 0 \<and> i = alo \<and> j = blo) \<or>
     (alo \<le> i \<and> i + k \<le> ahi \<and> blo \<le> j \<and> j + k \<le> bhi \<and> (\<forall>d < k. a ! (i + d) = b ! (j + d))))"

text \<open>An entry of a row stands for a run of equal lines that ends at the row and the position.\<close>

definition run_ends :: "'a list \<Rightarrow> 'a list \<Rightarrow> nat \<Rightarrow> nat \<Rightarrow> nat \<Rightarrow> nat \<Rightarrow> nat \<Rightarrow> bool" where
  "run_ends a b alo blo i j k \<longleftrightarrow>
     alo + k \<le> i \<and> blo + k \<le> j \<and> (\<forall>d < k. a ! (i - 1 - d) = b ! (j - 1 - d))"

definition row_ok :: "'a list \<Rightarrow> 'a list \<Rightarrow> nat \<Rightarrow> nat \<Rightarrow> nat \<Rightarrow> lengths \<Rightarrow> bool" where
  "row_ok a b alo blo i row \<longleftrightarrow> (\<forall>(j, k) \<in> set row. run_ends a b alo blo i (j + 1) k)"

lemma positions_iff: "j \<in> set (positions b x) \<longleftrightarrow> j < length b \<and> b ! j = x"
  by (auto simp: positions_def)

lemma b2j_pos: "j \<in> set (b2j b x) \<Longrightarrow> j < length b \<and> b ! j = x"
  by (auto simp: b2j_def Let_def positions_iff split: if_splits)

lemma run_before_ok:
  assumes "row_ok a b alo blo i old" "alo \<le> i" "blo \<le> j"
  shows "run_ends a b alo blo i j (run_before old j)"
proof (cases "j = 0 \<or> map_of old (j - 1) = None")
  case True
  then show ?thesis
    using assms(2,3) by (auto simp: run_before_def run_ends_def)
next
  case False
  then obtain k where k: "map_of old (j - 1) = Some k"
    by auto
  then have "run_ends a b alo blo i ((j - 1) + 1) k"
    using assms(1) map_of_SomeD by (fastforce simp: row_ok_def)
  then show ?thesis
    using False k by (simp add: run_before_def)
qed

lemma run_ends_Suc:
  "run_ends a b alo blo i j k \<Longrightarrow> a ! i = b ! j \<Longrightarrow> run_ends a b alo blo (i + 1) (j + 1) (k + 1)"
  by (auto simp: run_ends_def less_Suc_eq_0_disj)

lemma run_ends_matching:
  assumes "run_ends a b alo blo (i + 1) (j + 1) k" "i < ahi" "j < bhi"
  shows "matching a b alo ahi blo bhi (i + 1 - k, j + 1 - k, k)"
proof -
  have ends: "\<forall>d < k. a ! (i - d) = b ! (j - d)" "k \<le> i + 1" "k \<le> j + 1"
    using assms(1) by (auto simp: run_ends_def)
  have "a ! (i + 1 - k + d) = b ! (j + 1 - k + d)" if "d < k" for d
  proof -
    have "i + 1 - k + d = i - (k - 1 - d)" "j + 1 - k + d = j - (k - 1 - d)" "k - 1 - d < k"
      using ends(2,3) that by auto
    then show ?thesis
      using ends(1) by metis
  qed
  then show ?thesis
    using assms unfolding matching_def run_ends_def by auto
qed

lemma match_row_ok:
  "match_row i blo bhi old js new best = (new', best') \<Longrightarrow> row_ok a b alo blo i old \<Longrightarrow>
     row_ok a b alo blo (i + 1) new \<Longrightarrow> matching a b alo ahi blo bhi best \<Longrightarrow>
     \<forall>j \<in> set js. a ! i = b ! j \<Longrightarrow> alo \<le> i \<Longrightarrow> i < ahi \<Longrightarrow>
     row_ok a b alo blo (i + 1) new' \<and> matching a b alo ahi blo bhi best'"
proof (induction js arbitrary: new best)
  case (Cons j js)
  show ?case
  proof (cases "j < blo \<or> j \<ge> bhi")
    case True
    then show ?thesis
      using Cons by (auto split: if_splits)
  next
    case False
    define k where "k = run_before old j + 1"
    define best1 where "best1 = (if k > snd (snd best) then (i + 1 - k, j + 1 - k, k) else best)"
    have k: "run_ends a b alo blo (i + 1) (j + 1) k"
      using run_ends_Suc [OF run_before_ok [OF Cons.prems(2,6)]] Cons.prems(5) False
      unfolding k_def by simp
    have row: "row_ok a b alo blo (i + 1) ((j, k) # new)"
      using k Cons.prems(3) by (simp add: row_ok_def)
    have best1: "matching a b alo ahi blo bhi best1"
      using run_ends_matching [OF k Cons.prems(7)] Cons.prems(4) False by (simp add: best1_def)
    have "match_row i blo bhi old (j # js) new best = match_row i blo bhi old js ((j, k) # new) best1"
      using False by (simp add: k_def best1_def Let_def)
    then have "match_row i blo bhi old js ((j, k) # new) best1 = (new', best')"
      using Cons.prems(1) by (simp only:)
    then show ?thesis
      using Cons.IH [OF _ Cons.prems(2) row best1] Cons.prems(5-7) by simp
  qed
qed simp

lemma match_rows_ok:
  "row_ok a b alo blo i old \<Longrightarrow> matching a b alo ahi blo bhi best \<Longrightarrow> alo \<le> i \<Longrightarrow>
     matching a b alo ahi blo bhi (match_rows a b blo bhi [i..<ahi] old best)"
proof (induction "ahi - i" arbitrary: i old best)
  case (Suc n)
  obtain new best' where r: "match_row i blo bhi old (b2j b (a ! i)) [] best = (new, best')"
    by (cases "match_row i blo bhi old (b2j b (a ! i)) [] best")
  have "row_ok a b alo blo (i + 1) []" "\<forall>j \<in> set (b2j b (a ! i)). a ! i = b ! j"
    using b2j_pos by (fastforce simp: row_ok_def)+
  then have "row_ok a b alo blo (i + 1) new \<and> matching a b alo ahi blo bhi best'"
    using match_row_ok [OF r Suc.prems(1) _ Suc.prems(2)] Suc.prems(3) Suc.hyps(2) by simp
  moreover have "[i..<ahi] = i # [i + 1..<ahi]" "n = ahi - (i + 1)"
    using Suc.hyps(2) by (simp_all add: upt_conv_Cons)
  ultimately show ?case
    using Suc.hyps(1) [of "i + 1" new best'] Suc.prems(3) r by simp
qed simp

lemma grow_left_ok:
  "matching a b alo ahi blo bhi (i, j, k) \<Longrightarrow>
     matching a b alo ahi blo bhi (grow_left a b alo blo i j k)"
proof (induction a b alo blo i j k rule: grow_left.induct)
  case (1 a b alo blo i j k)
  show ?case
  proof (cases "alo \<le> i \<and> blo \<le> j \<and> a ! i = b ! j")
    case True
    have "a ! (i + d) = b ! (j + d)" if "d < k + 1" for d
      using "1.prems" True that by (cases d) (auto simp: matching_def)
    then have "matching a b alo ahi blo bhi (i, j, k + 1)"
      using "1.prems" True by (auto simp: matching_def)
    then show ?thesis
      using "1.IH" True by simp
  qed (use "1.prems" in auto)
qed simp_all

lemma grow_right_ok:
  "matching a b alo ahi blo bhi m \<Longrightarrow> alo \<le> fst m \<Longrightarrow> matching a b alo ahi blo bhi (grow_right a b ahi bhi m)"
proof (induction a b ahi bhi m rule: grow_right.induct)
  case (1 a b ahi bhi i j k)
  show ?case
  proof (cases "i + k < ahi \<and> j + k < bhi \<and> a ! (i + k) = b ! (j + k)")
    case True
    have "matching a b alo ahi blo bhi (i, j, k + 1)"
      using "1.prems" True by (auto simp: matching_def less_Suc_eq)
    then show ?thesis
      using "1.IH" "1.prems" True grow_right.simps [of a b ahi bhi i j k] by simp
  next
    case False
    then show ?thesis
      using "1.prems" grow_right.simps [of a b ahi bhi i j k] by auto
  qed
qed

lemma longest_matching:
  "matching a b alo ahi blo bhi (find_longest_match a b alo ahi blo bhi)"
proof -
  obtain i j k where r: "match_rows a b blo bhi [alo..<ahi] [] (alo, blo, 0) = (i, j, k)"
    by (cases "match_rows a b blo bhi [alo..<ahi] [] (alo, blo, 0)")
  have "matching a b alo ahi blo bhi (i, j, k)"
    using match_rows_ok [of a b alo blo alo "[]" ahi bhi "(alo, blo, 0)"] r
    by (auto simp: row_ok_def matching_def)
  then have left: "matching a b alo ahi blo bhi (grow_left a b alo blo i j k)"
    by (rule grow_left_ok)
  moreover have "alo \<le> fst (grow_left a b alo blo i j k)"
    using left by (cases "grow_left a b alo blo i j k") (auto simp: matching_def)
  ultimately show ?thesis
    using grow_right_ok r by (simp add: find_longest_match_def)
qed

lemma longest_shrinks:
  "find_longest_match a b alo ahi blo bhi = (i, j, k) \<Longrightarrow> 0 < k \<Longrightarrow>
     alo \<le> i \<and> i + k \<le> ahi \<and> blo \<le> j \<and> j + k \<le> bhi \<and> (\<forall>d < k. a ! (i + d) = b ! (j + d))"
  using longest_matching [of a b alo ahi blo bhi] by (simp add: matching_def)

section \<open>Blocks\<close>

text \<open>
  The matching blocks in their order: the code works through a queue of ranges and sorts at the
  end, which is the order of this recursion.
\<close>

function blocks :: "'a list \<Rightarrow> 'a list \<Rightarrow> nat \<Rightarrow> nat \<Rightarrow> nat \<Rightarrow> nat \<Rightarrow> match list" where
  "blocks a b alo ahi blo bhi =
     (case find_longest_match a b alo ahi blo bhi of
        (i, j, k) \<Rightarrow>
          if k = 0 then []
          else (if alo < i \<and> blo < j then blocks a b alo i blo j else []) @ [(i, j, k)] @
               (if i + k < ahi \<and> j + k < bhi then blocks a b (i + k) ahi (j + k) bhi else []))"
  by pat_completeness auto
termination
  by (relation "measure (\<lambda>(a, b, alo, ahi, blo, bhi). ahi - alo)")
    (auto dest!: longest_shrinks [OF sym])

declare blocks.simps [simp del]

text \<open>Adjacent blocks are joined; the first argument is the block to compare against.\<close>

fun collapse :: "match \<Rightarrow> match list \<Rightarrow> match list" where
  "collapse (i1, j1, k1) [] = (if k1 \<noteq> 0 then [(i1, j1, k1)] else [])"
| "collapse (i1, j1, k1) ((i2, j2, k2) # ms) =
     (if i1 + k1 = i2 \<and> j1 + k1 = j2 then collapse (i1, j1, k1 + k2) ms
      else (if k1 \<noteq> 0 then [(i1, j1, k1)] else []) @ collapse (i2, j2, k2) ms)"

definition get_matching_blocks :: "'a list \<Rightarrow> 'a list \<Rightarrow> match list" where
  "get_matching_blocks a b =
     collapse (0, 0, 0) (blocks a b 0 (length a) 0 (length b)) @ [(length a, length b, 0)]"

section \<open>Operations\<close>

datatype tag = Replace | Delete | Insert | Equal

type_synonym opcode = "tag \<times> nat \<times> nat \<times> nat \<times> nat"

definition gap :: "nat \<Rightarrow> nat \<Rightarrow> nat \<Rightarrow> nat \<Rightarrow> opcode list" where
  "gap i ai j bj =
     (if i < ai \<and> j < bj then [(Replace, i, ai, j, bj)]
      else if i < ai then [(Delete, i, ai, j, bj)]
      else if j < bj then [(Insert, i, ai, j, bj)] else [])"

fun opcodes_from :: "nat \<Rightarrow> nat \<Rightarrow> match list \<Rightarrow> opcode list" where
  "opcodes_from i j [] = []"
| "opcodes_from i j ((ai, bj, k) # ms) =
     gap i ai j bj @ (if k \<noteq> 0 then [(Equal, ai, ai + k, bj, bj + k)] else []) @
     opcodes_from (ai + k) (bj + k) ms"

definition get_opcodes :: "'a list \<Rightarrow> 'a list \<Rightarrow> opcode list" where
  "get_opcodes a b = opcodes_from 0 0 (get_matching_blocks a b)"

text \<open>The groups with \<open>n\<close> lines of context; \<open>g\<close> is the one under construction.\<close>

fun trim_first :: "nat \<Rightarrow> opcode list \<Rightarrow> opcode list" where
  "trim_first n ((Equal, i1, i2, j1, j2) # ops) = (Equal, max i1 (i2 - n), i2, max j1 (j2 - n), j2) # ops"
| "trim_first n ops = ops"

fun trim_last :: "nat \<Rightarrow> opcode list \<Rightarrow> opcode list" where
  "trim_last n [] = []"
| "trim_last n [(t, i1, i2, j1, j2)] =
     [if t = Equal then (t, i1, min i2 (i1 + n), j1, min j2 (j1 + n)) else (t, i1, i2, j1, j2)]"
| "trim_last n (x # y # ops) = x # trim_last n (y # ops)"

fun group_ops :: "nat \<Rightarrow> opcode list \<Rightarrow> opcode list \<Rightarrow> opcode list list" where
  "group_ops n g [] =
     (if g \<noteq> [] \<and> \<not> (length g = 1 \<and> fst (hd g) = Equal) then [g] else [])"
| "group_ops n g ((t, i1, i2, j1, j2) # ops) =
     (if t = Equal \<and> i2 - i1 > n + n
      then (g @ [(t, i1, min i2 (i1 + n), j1, min j2 (j1 + n))]) #
           group_ops n [(t, max i1 (i2 - n), i2, max j1 (j2 - n), j2)] ops
      else group_ops n (g @ [(t, i1, i2, j1, j2)]) ops)"

definition get_grouped_opcodes :: "nat \<Rightarrow> 'a list \<Rightarrow> 'a list \<Rightarrow> opcode list list" where
  "get_grouped_opcodes n a b =
     (let codes = (if get_opcodes a b = [] then [(Equal, 0, 1, 0, 1)] else get_opcodes a b) in
      group_ops n [] (trim_last n (trim_first n codes)))"

section \<open>The text\<close>

fun show_nat :: "nat \<Rightarrow> string" where
  "show_nat n = (if n < 10 then [] else show_nat (n div 10)) @ [''0123456789'' ! (n mod 10)]"

declare show_nat.simps [simp del]

definition format_range :: "nat \<Rightarrow> nat \<Rightarrow> string" where
  "format_range start stop =
     (if stop - start = 1 then show_nat (start + 1)
      else show_nat (if stop - start = 0 then start else start + 1) @ '','' @ show_nat (stop - start))"

text \<open>\<open>xs[i:j]\<close>\<close>

definition segment :: "nat \<Rightarrow> nat \<Rightarrow> 'a list \<Rightarrow> 'a list" where
  "segment i j xs = take (j - i) (drop i xs)"

fun op_lines :: "string list \<Rightarrow> string list \<Rightarrow> opcode \<Rightarrow> string list" where
  "op_lines a b (Equal, i1, i2, j1, j2) = map ((#) CHR '' '') (segment i1 i2 a)"
| "op_lines a b (Delete, i1, i2, j1, j2) = map ((#) CHR ''-'') (segment i1 i2 a)"
| "op_lines a b (Insert, i1, i2, j1, j2) = map ((#) CHR ''+'') (segment j1 j2 b)"
| "op_lines a b (Replace, i1, i2, j1, j2) =
     map ((#) CHR ''-'') (segment i1 i2 a) @ map ((#) CHR ''+'') (segment j1 j2 b)"

definition group_lines :: "string list \<Rightarrow> string list \<Rightarrow> opcode list \<Rightarrow> string list" where
  "group_lines a b g =
     (case (hd g, last g) of
        ((_, i1, _, j1, _), (_, _, i2, _, j2)) \<Rightarrow>
          (''@@ -'' @ format_range i1 i2 @ '' +'' @ format_range j1 j2 @ '' @@'' @ [CHR 0x0A])) #
     concat (map (op_lines a b) g)"

definition unified_diff :: "nat \<Rightarrow> string \<Rightarrow> string \<Rightarrow> string list \<Rightarrow> string list \<Rightarrow> string list" where
  "unified_diff n fromfile tofile a b =
     (let groups = get_grouped_opcodes n a b in
      if groups = [] then []
      else [''--- '' @ fromfile @ [CHR 0x0A], ''+++ '' @ tofile @ [CHR 0x0A]] @
           concat (map (group_lines a b) groups))"

section \<open>The operations rebuild both sides\<close>

text \<open>A chain of blocks of equal lines between two pairs of positions.\<close>

fun chain :: "'a list \<Rightarrow> 'a list \<Rightarrow> nat \<Rightarrow> nat \<Rightarrow> match list \<Rightarrow> nat \<Rightarrow> nat \<Rightarrow> bool" where
  "chain a b i j [] i' j' \<longleftrightarrow> i \<le> i' \<and> j \<le> j'"
| "chain a b i j ((x, y, k) # ms) i' j' \<longleftrightarrow>
     i \<le> x \<and> j \<le> y \<and> (\<forall>d < k. a ! (x + d) = b ! (y + d)) \<and> chain a b (x + k) (y + k) ms i' j'"

lemma chain_append:
  "chain a b i j ms x y \<Longrightarrow> chain a b x y ms' i' j' \<Longrightarrow> chain a b i j (ms @ ms') i' j'"
proof (induction ms arbitrary: i j)
  case Nil
  then show ?case
    by (cases ms') (auto intro: order_trans)
qed auto

lemma chain_blocks:
  "alo \<le> ahi \<Longrightarrow> blo \<le> bhi \<Longrightarrow> chain a b alo blo (blocks a b alo ahi blo bhi) ahi bhi"
proof (induction a b alo ahi blo bhi rule: blocks.induct)
  case (1 a b alo ahi blo bhi)
  obtain i j k where m: "find_longest_match a b alo ahi blo bhi = (i, j, k)"
    by (cases "find_longest_match a b alo ahi blo bhi")
  show ?case
  proof (cases "k = 0")
    case True
    then show ?thesis
      using "1.prems" m by (simp add: blocks.simps [of a b alo ahi blo bhi])
  next
    case False
    note ok = longest_shrinks [OF m]
    have left: "chain a b alo blo (if alo < i \<and> blo < j then blocks a b alo i blo j else []) i j"
      using "1.IH"(1) [OF m [symmetric] refl False] ok False by auto
    have "chain a b (i + k) (j + k) (if i + k < ahi \<and> j + k < bhi then blocks a b (i + k) ahi (j + k) bhi else []) ahi bhi"
      using "1.IH"(2) [OF m [symmetric] refl False] ok False by auto
    then have "chain a b i j ([(i, j, k)] @
        (if i + k < ahi \<and> j + k < bhi then blocks a b (i + k) ahi (j + k) bhi else [])) ahi bhi"
      using ok False by simp
    then show ?thesis
      using chain_append [OF left] m False by (simp add: blocks.simps [of a b alo ahi blo bhi])
  qed
qed

lemma chain_collapse:
  "i \<le> i1 \<Longrightarrow> j \<le> j1 \<Longrightarrow> \<forall>d < k1. a ! (i1 + d) = b ! (j1 + d) \<Longrightarrow> chain a b (i1 + k1) (j1 + k1) ms i' j' \<Longrightarrow>
     chain a b i j (collapse (i1, j1, k1) ms) i' j'"
proof (induction "(i1, j1, k1)" ms arbitrary: i j i1 j1 k1 rule: collapse.induct)
  case (2 i1 j1 k1 i2 j2 k2 ms)
  show ?case
  proof (cases "i1 + k1 = i2 \<and> j1 + k1 = j2")
    case True
    have "a ! (i1 + d) = b ! (j1 + d)" if "d < k1 + k2" for d
    proof (cases "d < k1")
      case False
      then have "d - k1 < k2"
        using that by simp
      moreover have "\<forall>d < k2. a ! (i2 + d) = b ! (j2 + d)"
        using "2.prems"(4) by simp
      ultimately have "a ! (i2 + (d - k1)) = b ! (j2 + (d - k1))"
        by blast
      then show ?thesis
        using True False by auto
    qed (use "2.prems"(3) in simp)
    then have "chain a b i j (collapse (i1, j1, k1 + k2) ms) i' j'"
      using "2.hyps"(1) [OF True "2.prems"(1,2)] "2.prems"(4) True by (simp add: add.assoc [symmetric])
    then show ?thesis
      using True by simp
  next
    case False
    then show ?thesis
      using "2.hyps"(2) [OF False] "2.prems" by auto
  qed
qed auto

text \<open>What an operation claims of the two sides, and a sequence of operations without gaps.\<close>

fun op_ok :: "'a list \<Rightarrow> 'a list \<Rightarrow> opcode \<Rightarrow> bool" where
  "op_ok a b (Equal, i1, i2, j1, j2) \<longleftrightarrow>
     i1 < i2 \<and> i2 - i1 = j2 - j1 \<and> j1 < j2 \<and> (\<forall>d < i2 - i1. a ! (i1 + d) = b ! (j1 + d))"
| "op_ok a b (Replace, i1, i2, j1, j2) \<longleftrightarrow> i1 < i2 \<and> j1 < j2"
| "op_ok a b (Delete, i1, i2, j1, j2) \<longleftrightarrow> i1 < i2 \<and> j1 = j2"
| "op_ok a b (Insert, i1, i2, j1, j2) \<longleftrightarrow> i1 = i2 \<and> j1 < j2"

fun tiles :: "'a list \<Rightarrow> 'a list \<Rightarrow> nat \<Rightarrow> nat \<Rightarrow> opcode list \<Rightarrow> nat \<Rightarrow> nat \<Rightarrow> bool" where
  "tiles a b i j [] i' j' \<longleftrightarrow> i = i' \<and> j = j'"
| "tiles a b i j ((t, i1, i2, j1, j2) # ops) i' j' \<longleftrightarrow>
     i1 = i \<and> j1 = j \<and> op_ok a b (t, i1, i2, j1, j2) \<and> tiles a b i2 j2 ops i' j'"

lemma tiles_ConsE:
  assumes "tiles a b i j (p # ops) i' j'"
  obtains t i2 j2 where "p = (t, i, i2, j, j2)" "op_ok a b (t, i, i2, j, j2)" "tiles a b i2 j2 ops i' j'"
  using assms by (cases p) (auto simp del: op_ok.simps)

lemma tiles_append: "tiles a b i j ops x y \<Longrightarrow> tiles a b x y ops' i' j' \<Longrightarrow> tiles a b i j (ops @ ops') i' j'"
proof (induction ops arbitrary: i j)
  case (Cons p ops)
  then show ?case
    by (elim tiles_ConsE) (simp del: op_ok.simps)
qed simp

lemma tiles_gap: "i \<le> ai \<Longrightarrow> j \<le> bj \<Longrightarrow> tiles a b i j (gap i ai j bj) ai bj"
  by (auto simp: gap_def)

lemma tiles_opcodes:
  "chain a b i j ms i' j' \<Longrightarrow> tiles a b i j (opcodes_from i j (ms @ [(i', j', 0)])) i' j'"
proof (induction ms arbitrary: i j)
  case Nil
  then show ?case
    using tiles_gap [of i i' j j' a b] by simp
next
  case (Cons m ms)
  obtain x y k where m: "m = (x, y, k)"
    by (cases m)
  have "tiles a b x y ((if k \<noteq> 0 then [(Equal, x, x + k, y, y + k)] else []) @
      opcodes_from (x + k) (y + k) (ms @ [(i', j', 0)])) i' j'"
    using Cons.IH [of "x + k" "y + k"] Cons.prems m by (cases "k = 0") simp_all
  moreover have "tiles a b i j (gap i x j y) x y"
    using Cons.prems m by (intro tiles_gap) simp_all
  ultimately show ?case
    using m by (simp only: append_Cons opcodes_from.simps tiles_append)
qed

lemma tiles_get_opcodes: "tiles a b 0 0 (get_opcodes a b) (length a) (length b)"
proof -
  have "chain a b 0 0 (collapse (0, 0, 0) (blocks a b 0 (length a) 0 (length b))) (length a) (length b)"
    using chain_collapse [of 0 0 0 0 0 a b] chain_blocks [of 0 "length a" 0 "length b" a b] by simp
  then show ?thesis
    by (simp add: get_opcodes_def get_matching_blocks_def tiles_opcodes)
qed

text \<open>The part of the second side that an operation gives, from the first side where it claims equality.\<close>

fun op_result :: "'a list \<Rightarrow> 'a list \<Rightarrow> opcode \<Rightarrow> 'a list" where
  "op_result a b (Equal, i1, i2, j1, j2) = segment i1 i2 a"
| "op_result a b (_, i1, i2, j1, j2) = segment j1 j2 b"

lemma segment_append:
  assumes "i \<le> j" "j \<le> k"
  shows "segment i j xs @ segment j k xs = segment i k xs"
proof -
  have "k - i = (j - i) + (k - j)" "drop j xs = drop (j - i) (drop i xs)"
    using assms by simp_all
  then show ?thesis
    by (simp add: segment_def take_add)
qed

lemma segment_subset: "x \<in> set (segment i j xs) \<Longrightarrow> x \<in> set xs"
  unfolding segment_def by (meson in_set_dropD in_set_takeD)

lemma segment_eq:
  assumes "i2 - i1 = j2 - j1" "i2 \<le> length a" "j2 \<le> length b" "\<forall>d < i2 - i1. a ! (i1 + d) = b ! (j1 + d)"
  shows "segment i1 i2 a = segment j1 j2 b"
  using assms by (auto simp: segment_def list_eq_iff_nth_eq)

lemma op_ok_le: "op_ok a b (t, i1, i2, j1, j2) \<Longrightarrow> i1 \<le> i2 \<and> j1 \<le> j2"
  by (cases t) auto

lemma op_ok_segment:
  "op_ok a b (t, i1, i2, j1, j2) \<Longrightarrow> i2 \<le> length a \<Longrightarrow> j2 \<le> length b \<Longrightarrow>
     op_result a b (t, i1, i2, j1, j2) = segment j1 j2 b"
  by (cases t) (auto intro: segment_eq)

lemma tiles_le: "tiles a b i j ops i' j' \<Longrightarrow> i \<le> i' \<and> j \<le> j'"
proof (induction ops arbitrary: i j)
  case (Cons p ops)
  from Cons.prems show ?case
    by (elim tiles_ConsE) (meson Cons.IH op_ok_le order_trans)
qed simp

lemma tiles_rebuild:
  "tiles a b i j ops i' j' \<Longrightarrow> i' \<le> length a \<Longrightarrow> j' \<le> length b \<Longrightarrow>
     concat (map (op_result a b) ops) = segment j j' b"
proof (induction ops arbitrary: i j)
  case (Cons p ops)
  from Cons.prems(1) obtain t i2 j2
    where p: "p = (t, i, i2, j, j2)" "op_ok a b (t, i, i2, j, j2)" "tiles a b i2 j2 ops i' j'"
    by (rule tiles_ConsE)
  have le: "i2 \<le> i'" "j2 \<le> j'" "j \<le> j2"
    using tiles_le [OF p(3)] op_ok_le [OF p(2)] by simp_all
  have "op_result a b p = segment j j2 b"
    using op_ok_segment [OF p(2)] le Cons.prems(2,3) p(1) by simp
  then show ?case
    using Cons.IH [OF p(3) Cons.prems(2,3)] segment_append [OF le(3,2)] by simp
qed (simp add: segment_def)

lemma opcodes_rebuild: "concat (map (op_result a b) (get_opcodes a b)) = b"
  using tiles_rebuild [OF tiles_get_opcodes [of a b]] by (simp add: segment_def)

lemma tiles_equal:
  "tiles a b i j ops i' j' \<Longrightarrow> list_all (\<lambda>p. fst p = Equal) ops \<Longrightarrow> i' \<le> length a \<Longrightarrow> j' \<le> length b \<Longrightarrow>
     segment i i' a = segment j j' b"
proof (induction ops arbitrary: i j)
  case (Cons p ops)
  from Cons.prems(1) obtain t i2 j2
    where p: "p = (t, i, i2, j, j2)" "op_ok a b (t, i, i2, j, j2)" "tiles a b i2 j2 ops i' j'"
    by (rule tiles_ConsE)
  have le: "i2 \<le> i'" "j2 \<le> j'" "i \<le> i2" "j \<le> j2"
    using tiles_le [OF p(3)] op_ok_le [OF p(2)] by simp_all
  have "segment i i2 a = segment j j2 b"
    using op_ok_segment [OF p(2)] le Cons.prems(2-4) p(1) by simp
  moreover have "segment i2 i' a = segment j2 j' b"
    using Cons.IH [OF p(3)] Cons.prems(2-4) by simp
  ultimately show ?case
    using segment_append [OF le(3,1)] segment_append [OF le(4,2)] by metis
qed (simp add: segment_def)

lemma changed_opcode: "a \<noteq> b \<Longrightarrow> \<exists>p \<in> set (get_opcodes a b). fst p \<noteq> Equal"
  using tiles_equal [OF tiles_get_opcodes [of a b]] by (auto simp: segment_def list_all_iff)

section \<open>Equal sides\<close>

text \<open>
  The length of the common run of lines that are not popular before two positions of one text: no
  run is longer than the one before the same position on both sides, so the best match of a text
  with itself has equal starts, and extending it gives the whole text.
\<close>

fun run_len :: "'a list \<Rightarrow> nat \<Rightarrow> nat \<Rightarrow> nat" where
  "run_len a (Suc i) (Suc j) = (if j \<in> set (b2j a (a ! i)) then Suc (run_len a i j) else 0)"
| "run_len a i j = 0"

lemma run_len_0 [simp]: "run_len a i 0 = 0"
  by (cases i) simp_all

lemma b2j_diagonal:
  assumes "j \<in> set (b2j a (a ! i))" "i < length a"
  shows "i \<in> set (b2j a (a ! i))" "j \<in> set (b2j a (a ! j))"
proof -
  have "a ! j = a ! i"
    using b2j_pos [OF assms(1)] by simp
  moreover have "b2j a (a ! i) = positions a (a ! i)"
    using assms(1) by (auto simp: b2j_def Let_def split: if_splits)
  ultimately show "i \<in> set (b2j a (a ! i))" "j \<in> set (b2j a (a ! j))"
    using assms by (simp_all add: positions_iff)
qed

lemma run_len_diagonal:
  "i \<le> length a \<Longrightarrow> run_len a i j \<le> run_len a i i \<and> run_len a i j \<le> run_len a j j"
proof (induction a i j rule: run_len.induct)
  case (1 a i j)
  then show ?case
    using b2j_diagonal [of j a i] by auto
qed auto

definition row_of :: "'a list \<Rightarrow> nat \<Rightarrow> nat list \<Rightarrow> lengths" where
  "row_of a i js = rev (map (\<lambda>j. (j, run_len a (Suc i) (Suc j))) js)"

lemma run_before_row_of: "run_before (row_of a i (b2j a (a ! i))) j = run_len a (Suc i) j"
proof (cases j)
  case (Suc l)
  have "map_of (map (\<lambda>j. (j, f j)) js) l = (if l \<in> set js then Some (f l) else None)" for js and f :: "nat \<Rightarrow> nat"
    by (induction js) auto
  from this [of _ "rev js" for js]
  have "map_of (row_of a i js) l = (if l \<in> set js then Some (run_len a (Suc i) (Suc l)) else None)" for js
    unfolding row_of_def rev_map by (simp del: run_len.simps)
  then show ?thesis
    using Suc by (simp add: run_before_def)
qed (simp add: run_before_def)

lemma match_row_diagonal:
  assumes "\<forall>j. run_before old j = run_len a i j" "i < length a"
  shows "sorted_wrt (<) js \<Longrightarrow> set js \<subseteq> set (b2j a (a ! i)) \<Longrightarrow> \<forall>m \<le> i. run_len a m m \<le> s \<Longrightarrow>
    i \<in> set js \<or> run_len a (Suc i) (Suc i) \<le> s \<Longrightarrow>
    \<exists>p' s'. match_row i 0 (length a) old js new (p, p, s) = (row_of a i js @ new, (p', p', s')) \<and>
      s \<le> s' \<and> run_len a (Suc i) (Suc i) \<le> s'"
proof (induction js arbitrary: new p s)
  case (Cons j js)
  have j: "j \<in> set (b2j a (a ! i))" "j < length a"
    using Cons.prems(2) b2j_pos [of j a "a ! i"] by auto
  define k where "k = run_len a (Suc i) (Suc j)"
  have "run_before old j + 1 = k"
    using assms(1) j by (simp add: k_def)
  then have step: "match_row i 0 (length a) old (j # js) new (p, p, s)
      = match_row i 0 (length a) old js ((j, k) # new) (if k > s then (i + 1 - k, j + 1 - k, k) else (p, p, s))"
    using j by (simp add: Let_def)
  have row: "row_of a i (j # js) @ new = row_of a i js @ ((j, k) # new)"
    by (simp add: row_of_def k_def)
  have diag: "k \<le> run_len a (Suc i) (Suc i)" "k \<le> run_len a (Suc j) (Suc j)"
    using run_len_diagonal [of "Suc i" a "Suc j"] assms(2) unfolding k_def by simp_all
  have rest: "sorted_wrt (<) js" "set js \<subseteq> set (b2j a (a ! i))"
    using Cons.prems(1,2) by simp_all
  show ?case
  proof (cases "k > s")
    case True
    have "\<not> j < i"
      using Cons.prems(3) diag(2) True by (meson Suc_leI le_trans not_le)
    moreover have "\<not> i < j"
      using Cons.prems(1,4) diag(1) True by auto
    ultimately have "j = i"
      by simp
    moreover have "\<forall>m \<le> i. run_len a m m \<le> k"
      using Cons.prems(3) True by (meson le_trans less_imp_le)
    ultimately show ?thesis
      using Cons.IH [OF rest, of k "(j, k) # new" "i + 1 - k"] step row True
      by (auto simp: k_def intro: order_trans less_imp_le)
  next
    case False
    have "i \<in> set js \<or> run_len a (Suc i) (Suc i) \<le> s"
      using Cons.prems(4) False by (auto simp: k_def)
    then show ?thesis
      using Cons.IH [OF rest Cons.prems(3), of "(j, k) # new" p] step row False by simp
  qed
qed (simp add: row_of_def)

lemma match_rows_diagonal:
  "\<forall>j. run_before old j = run_len a i j \<Longrightarrow> \<forall>m \<le> i. run_len a m m \<le> s \<Longrightarrow> i \<le> length a \<Longrightarrow>
     \<exists>p' s'. match_rows a a 0 (length a) [i..<length a] old (p, p, s) = (p', p', s')"
proof (induction "length a - i" arbitrary: i old p s)
  case (Suc n)
  have i: "i < length a" "[i..<length a] = i # [Suc i..<length a]"
    using Suc.hyps(2) by (simp_all add: upt_conv_Cons)
  have "sorted_wrt (<) (positions a (a ! i))"
    by (simp add: positions_def sorted_wrt_filter)
  then have "sorted_wrt (<) (b2j a (a ! i))"
    by (simp add: b2j_def Let_def)
  moreover have "i \<in> set (b2j a (a ! i)) \<or> run_len a (Suc i) (Suc i) \<le> s"
    by simp
  ultimately obtain p' s' where r: "match_row i 0 (length a) old (b2j a (a ! i)) [] (p, p, s)
        = (row_of a i (b2j a (a ! i)) @ [], (p', p', s'))" "s \<le> s'" "run_len a (Suc i) (Suc i) \<le> s'"
    using match_row_diagonal [OF Suc.prems(1) i(1) _ subset_refl Suc.prems(2)] by blast
  have "\<forall>m \<le> Suc i. run_len a m m \<le> s'"
    using Suc.prems(2) r(2,3) by (auto simp: le_Suc_eq simp del: run_len.simps intro: order_trans)
  moreover have "\<forall>j. run_before (row_of a i (b2j a (a ! i)) @ []) j = run_len a (Suc i) j"
    using run_before_row_of [of a i] by simp
  ultimately show ?case
    using Suc.hyps(1) [of "Suc i" "row_of a i (b2j a (a ! i)) @ []" s' p'] Suc.hyps(2) i r(1) by simp
qed simp

lemma grow_left_diagonal: "grow_left a a 0 0 p p k = (0, 0, k + p)"
  by (induction p arbitrary: k) simp_all

lemma grow_right_diagonal: "k \<le> length a \<Longrightarrow> grow_right a a (length a) (length a) (0, 0, k) = (0, 0, length a)"
  by (induction "length a - k" arbitrary: k) (simp_all add: grow_right.simps [of a a "length a" "length a"])

lemma longest_match_itself: "find_longest_match a a 0 (length a) 0 (length a) = (0, 0, length a)"
proof -
  obtain p s where r: "match_rows a a 0 (length a) [0..<length a] [] (0, 0, 0) = (p, p, s)"
    using match_rows_diagonal [of "[]" a 0 0 0] by (fastforce simp: run_before_def)
  have "matching a a 0 (length a) 0 (length a) (p, p, s)"
    using match_rows_ok [of a a 0 0 0 "[]" "length a" "length a" "(0, 0, 0)"] r
    by (auto simp: row_ok_def matching_def)
  then have "s + p \<le> length a"
    by (auto simp: matching_def)
  then show ?thesis
    using r by (simp add: find_longest_match_def grow_left_diagonal grow_right_diagonal)
qed

lemma opcodes_itself: "get_opcodes a a = (if a = [] then [] else [(Equal, 0, length a, 0, length a)])"
  using longest_match_itself [of a]
  by (simp add: get_opcodes_def get_matching_blocks_def gap_def blocks.simps [of a a 0 "length a" 0 "length a"])

lemma groups_itself: "get_grouped_opcodes n a a = []"
  by (simp add: get_grouped_opcodes_def opcodes_itself)

section \<open>The text shows every change\<close>

lemma trim_first_kept: "fst p \<noteq> Equal \<Longrightarrow> p \<in> set (trim_first n ops) \<longleftrightarrow> p \<in> set ops"
  by (cases "(n, ops)" rule: trim_first.cases) auto

lemma trim_last_kept: "fst p \<noteq> Equal \<Longrightarrow> p \<in> set (trim_last n ops) \<longleftrightarrow> p \<in> set ops"
  by (induction n ops rule: trim_last.induct) auto

lemma group_ops_kept:
  "fst p \<noteq> Equal \<Longrightarrow> p \<in> set g \<union> set ops \<Longrightarrow> \<exists>h \<in> set (group_ops n g ops). p \<in> set h"
proof (induction n g ops rule: group_ops.induct)
  case (1 n g)
  then show ?case
    by (cases g) auto
next
  case (2 n g t i1 i2 j1 j2 ops)
  show ?case
  proof (cases "t = Equal \<and> i2 - i1 > n + n")
    case True
    have "p \<in> set g \<or> p \<in> set ops"
      using "2.prems" True by auto
    then show ?thesis
    proof
      assume "p \<in> set ops"
      then show ?thesis
        using "2.IH"(1) [OF True "2.prems"(1)] True by auto
    qed (use True in auto)
  next
    case False
    then show ?thesis
      using "2.IH"(2) [OF False "2.prems"(1)] "2.prems"(2) by auto
  qed
qed

lemma change_shown:
  assumes "p \<in> set (get_opcodes a b)" "fst p \<noteq> Equal"
  shows "set (op_lines a b p) \<subseteq> set (unified_diff n f t a b)" "unified_diff n f t a b \<noteq> []"
proof -
  have "get_opcodes a b \<noteq> []"
    using assms(1) by auto
  then obtain h where h: "h \<in> set (get_grouped_opcodes n a b)" "p \<in> set h"
    using group_ops_kept [of p "[]" "trim_last n (trim_first n (get_opcodes a b))" n] assms
    by (auto simp: get_grouped_opcodes_def trim_first_kept trim_last_kept)
  then have "set (op_lines a b p) \<subseteq> set (group_lines a b h)"
    by (auto simp: group_lines_def split: prod.splits)
  moreover have "set (group_lines a b h) \<subseteq> set (unified_diff n f t a b)"
    using h(1) by (auto simp: unified_diff_def Let_def)
  ultimately show "set (op_lines a b p) \<subseteq> set (unified_diff n f t a b)"
    by blast
  show "unified_diff n f t a b \<noteq> []"
    using h(1) by (auto simp: unified_diff_def Let_def)
qed

lemma unified_diff_Nil: "unified_diff n f t a b = [] \<longleftrightarrow> a = b"
proof
  show "a = b" if "unified_diff n f t a b = []"
    using changed_opcode [of a b] change_shown(2) that by blast
qed (simp add: unified_diff_def groups_itself)

lemma unified_diff_empty: "concat (unified_diff n f t a b) = [] \<longleftrightarrow> a = b"
proof
  show "a = b" if "concat (unified_diff n f t a b) = []"
    using that unified_diff_Nil [of n f t a b] by (auto simp: unified_diff_def Let_def split: if_splits)
  show "concat (unified_diff n f t a b) = []" if "a = b"
    using unified_diff_Nil [of n f t a b] that by simp
qed

text \<open>The parts of the first side, and of operations in general.\<close>

fun op_source :: "'a list \<Rightarrow> opcode \<Rightarrow> 'a list" where
  "op_source a (t, i1, i2, j1, j2) = segment i1 i2 a"

lemma tiles_source:
  "tiles a b i j ops i' j' \<Longrightarrow> concat (map (op_source a) ops) = segment i i' a"
proof (induction ops arbitrary: i j)
  case (Cons p ops)
  from Cons.prems(1) obtain t i2 j2
    where p: "p = (t, i, i2, j, j2)" "op_ok a b (t, i, i2, j, j2)" "tiles a b i2 j2 ops i' j'"
    by (rule tiles_ConsE)
  then show ?case
    using Cons.IH [OF p(3)] segment_append [of i i2 i' a] tiles_le [OF p(3)] op_ok_le [OF p(2)] by simp
qed (simp add: segment_def)

lemma tiles_ok: "tiles a b i j ops i' j' \<Longrightarrow> p \<in> set ops \<Longrightarrow> op_ok a b p"
proof (induction ops arbitrary: i j)
  case (Cons q ops)
  from Cons.prems(1) show ?case
    by (rule tiles_ConsE) (use Cons.IH Cons.prems(2) in auto)
qed simp

lemma tiles_result:
  assumes "tiles a b i j ops i' j'" "p \<in> set ops" "i' \<le> length a" "j' \<le> length b" "fst p = Equal"
  shows "set (op_source a p) \<subseteq> set b"
proof -
  obtain t i1 i2 j1 j2 where p: "p = (t, i1, i2, j1, j2)"
    by (cases p)
  have "tiles a b i j ops i' j' \<Longrightarrow> p \<in> set ops \<Longrightarrow> i2 \<le> i' \<and> j2 \<le> j'"
  proof (induction ops arbitrary: i j)
    case (Cons q ops)
    from Cons.prems(1) obtain t' i2' j2'
      where q: "q = (t', i, i2', j, j2')" "tiles a b i2' j2' ops i' j'"
      by (rule tiles_ConsE)
    then show ?case
      using Cons.IH Cons.prems(2) tiles_le [OF q(2)] p by auto
  qed simp
  then have "segment i1 i2 a = segment j1 j2 b"
    using tiles_ok [OF assms(1,2)] assms p by (intro segment_eq) auto
  then show ?thesis
    using p by (auto dest: segment_subset)
qed

lemma added_shown:
  assumes "x \<in> set b" "x \<notin> set a"
  shows "CHR ''+'' # x \<in> set (unified_diff n f t a b)"
proof -
  obtain p where p: "p \<in> set (get_opcodes a b)" "x \<in> set (op_result a b p)"
    using assms(1) opcodes_rebuild [of a b] by (metis (no_types, lifting) UN_E set_concat set_map imageE)
  obtain c i1 i2 j1 j2 where c: "p = (c, i1, i2, j1, j2)"
    by (cases p)
  have "op_ok a b p"
    using tiles_ok [OF tiles_get_opcodes p(1)] .
  moreover have "c \<noteq> Equal"
    using p(2) assms(2) c by (auto dest: segment_subset)
  ultimately have "CHR ''+'' # x \<in> set (op_lines a b p)"
    using p(2) c by (cases c) (auto simp: segment_def)
  then show ?thesis
    using change_shown(1) [OF p(1)] \<open>c \<noteq> Equal\<close> c by auto
qed

lemma removed_shown:
  assumes "x \<in> set a" "x \<notin> set b"
  shows "CHR ''-'' # x \<in> set (unified_diff n f t a b)"
proof -
  have "concat (map (op_source a) (get_opcodes a b)) = a"
    using tiles_source [OF tiles_get_opcodes [of a b]] by (simp add: segment_def)
  then obtain p where p: "p \<in> set (get_opcodes a b)" "x \<in> set (op_source a p)"
    using assms(1) by (metis (no_types, lifting) UN_E set_concat set_map imageE)
  obtain c i1 i2 j1 j2 where c: "p = (c, i1, i2, j1, j2)"
    by (cases p)
  have "op_ok a b p"
    using tiles_ok [OF tiles_get_opcodes p(1)] .
  moreover have "c \<noteq> Equal"
    using tiles_result [OF tiles_get_opcodes p(1)] p(2) assms(2) c by auto
  ultimately have "CHR ''-'' # x \<in> set (op_lines a b p)"
    using p(2) c by (cases c) (auto simp: segment_def)
  then show ?thesis
    using change_shown(1) [OF p(1)] \<open>c \<noteq> Equal\<close> c by auto
qed

end
