(* ===== verification/Plan_Annotate.thy ===== *)
theory Plan_Annotate
  imports Os_Write Py_Json Py_Shlex Py_Difflib
begin

text \<open>
  \<open>plan-annotate.py\<close>: the plan is written to a temporary file, opened in an editor in the overlay
  of a terminal, read back and compared. The external programs and the names of temporary files
  are fields of the machine; the temporary files are a store of their own, by path. The embedded unit tests are not modelled.
\<close>

section \<open>State\<close>

text \<open>
  \<open>which\<close> is \<open>shutil.which\<close>. \<open>program\<close> gives for a command and the temporary files the return
  code and the temporary files afterwards; \<open>polls n\<close> tells whether the sentinel file is there at
  the \<open>n\<close>-th look, and \<open>meanwhile\<close> what has become of the temporary files when it is.
\<close>

record desk = rw_machine +
  penv :: "(string \<times> string) list"
  which :: "string \<Rightarrow> string option"
  temp_name :: "nat \<Rightarrow> string"
  temps_made :: nat
  temps :: "(string \<times> string) list"
  ran :: "string list list"
  program :: "string list \<Rightarrow> (string \<times> string) list \<Rightarrow> int \<times> (string \<times> string) list"
  polls :: "nat \<Rightarrow> bool"
  meanwhile :: "(string \<times> string) list \<Rightarrow> (string \<times> string) list"

definition env_of :: "desk \<Rightarrow> string \<Rightarrow> string" where
  "env_of m k = (case map_of (penv m) k of Some v \<Rightarrow> v | None \<Rightarrow> [])"

text \<open>\<open>shutil.which\<close> as a truth value.\<close>

definition installed :: "desk \<Rightarrow> string \<Rightarrow> bool" where
  "installed m prog \<longleftrightarrow> which m prog \<noteq> None \<and> which m prog \<noteq> Some []"

definition run :: "string list \<Rightarrow> desk \<Rightarrow> desk \<times> int" where
  "run cmd m =
     (case program m cmd (temps m) of (rc, ts) \<Rightarrow> (m\<lparr>ran := ran m @ [cmd], temps := ts\<rparr>, rc))"

section \<open>Plan and answer\<close>

text \<open>\<open>input\<close> is the parsed standard input, \<open>None\<close> where it is blank or does not parse.\<close>

definition read_plan_from_stdin :: "json option \<Rightarrow> json result" where
  "read_plan_from_stdin input =
     (case input of
        None \<Rightarrow> Inr (JStr [])
      | Some event \<Rightarrow> bind_res (get_or event ''tool_input'' (JObj [])) (\<lambda>ti. get_or ti ''plan'' (JStr [])))"

text \<open>The event that \<open>plan-review-hook.py\<close> gives to the script for a plan.\<close>

definition plan_event :: "string \<Rightarrow> json" where
  "plan_event plan_content = JObj [(''tool_input'', JObj [(''plan'', JStr plan_content)])]"

definition review_disabled :: "desk \<Rightarrow> bool" where
  "review_disabled m \<longleftrightarrow> env_of m ''PLANNING_DISABLE_REVDIFF'' \<noteq> []"

definition make_response :: "string \<Rightarrow> string \<Rightarrow> json" where
  "make_response decision reason =
     JObj [(''hookSpecificOutput'', JObj ([(''hookEventName'', JStr ''PreToolUse''),
              (''permissionDecision'', JStr decision)]
            @ (if reason \<noteq> [] then [(''permissionDecisionReason'', JStr reason)] else [])))]"

text \<open>\<open>s.splitlines(keepends=True)\<close>.\<close>

definition ends_line :: "char \<Rightarrow> bool" where
  "ends_line c \<longleftrightarrow> code c \<in> {10, 11, 12, 13, 28, 29, 30, 133}"

fun keep_lines :: "string \<Rightarrow> string list" where
  "keep_lines [] = []"
| "keep_lines (c # s) =
     (if ends_line c \<and> \<not> (c = CHR 0x0D \<and> prefix [nl] s) then [c] # keep_lines s
      else (case keep_lines s of [] \<Rightarrow> [[c]] | w # ws \<Rightarrow> (c # w) # ws))"

definition get_diff :: "string \<Rightarrow> string \<Rightarrow> string" where
  "get_diff original edited =
     concat (unified_diff 2 ''original'' ''annotated'' (keep_lines original) (keep_lines edited))"

section \<open>The editor\<close>

definition build_editor_cmd :: "desk \<Rightarrow> string \<Rightarrow> string" where
  "build_editor_cmd m editor =
     (let parts = (case shlex_split editor of Some (p # ps) \<Rightarrow> p # ps | _ \<Rightarrow> [''vi'']);
          resolved = which m (hd parts);
          parts' = (if installed m (hd parts) then the resolved # tl parts else parts) in
      join '' '' (map shlex_quote parts'))"

text \<open>The loop that waits for the sentinel file: the look at which it is there, if ever.\<close>

partial_function (option) await :: "(nat \<Rightarrow> bool) \<Rightarrow> nat \<Rightarrow> nat option" where
  "await p n = (if p n then Some n else await p (n + 1))"

definition set_or :: "string list \<Rightarrow> string \<Rightarrow> string list" where
  "set_or flag v = (if v \<noteq> [] then flag @ [v] else [])"

definition agterm_overlay :: "string \<Rightarrow> desk \<Rightarrow> desk" where
  "agterm_overlay overlay_cmd m =
     (let target = [''--target'', env_of m ''AGTERM_SESSION_ID''] @ set_or [''--socket''] (env_of m ''AGTERM_SOCKET'');
          pane = env_of m ''AGTERM_PANE'';
          status_pane = set_or [''--pane''] pane;
          overlay_pane = (if pane = ''left'' \<or> pane = ''right'' then [''--pane'', pane] else []);
          m1 = fst (run ([''agtermctl'', ''session'', ''status'', ''blocked'', ''--blink''] @ target @ status_pane) m);
          m2 = fst (run ([''agtermctl'', ''session'', ''overlay'', ''open'', overlay_cmd] @ target @ overlay_pane
                      @ [''--block'']) m1) in
      fst (run ([''agtermctl'', ''session'', ''status'', ''active''] @ target) m2))"

definition new_temp :: "desk \<Rightarrow> string \<times> desk" where
  "new_temp m = (temp_name m (temps_made m), m\<lparr>temps_made := temps_made m + 1\<rparr>)"

text \<open>
  A command that opens the editor elsewhere, and the wait for the sentinel: the command of the
  editor touches it in the end. Nothing where the wait does not end.
\<close>

definition wait_overlay :: "(string \<Rightarrow> string list) \<Rightarrow> string \<Rightarrow> desk \<Rightarrow> desk option" where
  "wait_overlay launch overlay_cmd m =
     (let (sentinel, m1) = new_temp m;
          m2 = fst (run (launch (overlay_cmd @ ''; touch '' @ shlex_quote sentinel)) m1) in
      case await (polls m2) 0 of
        None \<Rightarrow> None
      | Some n \<Rightarrow> Some (m2\<lparr>temps := meanwhile m2 (temps m2)\<rparr>))"

definition kitty_launch :: "desk \<Rightarrow> string \<Rightarrow> bool \<Rightarrow> string \<Rightarrow> string list" where
  "kitty_launch m filepath target_window wrapper =
     [''kitty'', ''@'', ''--to'', env_of m ''KITTY_LISTEN_ON'', ''launch'', ''--type=overlay'',
      ''--title=Plan Review: '' @ basename filepath]
     @ (if target_window \<and> env_of m ''KITTY_WINDOW_ID'' \<noteq> []
        then [''--match'', ''window_id:'' @ env_of m ''KITTY_WINDOW_ID''] else [])
     @ [''sh'', ''-c'', wrapper]"

definition wezterm_launch :: "desk \<Rightarrow> string \<Rightarrow> string list" where
  "wezterm_launch m wrapper =
     [''wezterm'', ''cli'', ''split-pane'', ''--bottom'', ''--percent'', ''80'', ''--pane-id'',
      env_of m ''WEZTERM_PANE'', ''--'', ''sh'', ''-c'', wrapper]"

text \<open>\<open>None\<close> is a wait without end.\<close>

definition open_editor :: "desk \<Rightarrow> string \<Rightarrow> bool \<Rightarrow> (desk \<times> int) option" where
  "open_editor m filepath target_window =
     (let editor_cmd = build_editor_cmd m (case map_of (penv m) ''EDITOR'' of Some e \<Rightarrow> e | None \<Rightarrow> ''vi'');
          overlay_cmd = editor_cmd @ '' '' @ shlex_quote filepath in
      if env_of m ''AGTERM_SESSION_ID'' \<noteq> [] \<and> installed m ''agtermctl'' then
        Some (agterm_overlay overlay_cmd m, 0)
      else if env_of m ''TMUX'' \<noteq> [] \<and> installed m ''tmux'' then
        Some (run [''tmux'', ''display-popup'', ''-E'', ''-w'', ''90%'', ''-h'', ''90%'', ''-T'', ''Plan Review'',
                   ''--'', ''sh'', ''-c'', overlay_cmd] m)
      else if env_of m ''KITTY_LISTEN_ON'' \<noteq> [] \<and> installed m ''kitty'' then
        map_option (\<lambda>m'. (m', 0)) (wait_overlay (kitty_launch m filepath target_window) overlay_cmd m)
      else if env_of m ''WEZTERM_PANE'' \<noteq> [] \<and> installed m ''wezterm'' then
        map_option (\<lambda>m'. (m', 0)) (wait_overlay (wezterm_launch m) overlay_cmd m)
      else Some (m, 1))"

section \<open>The two modes\<close>

definition unlink_temp :: "string \<Rightarrow> desk \<Rightarrow> desk" where
  "unlink_temp p m = m\<lparr>temps := del_entry p (temps m)\<rparr>"

definition read_temp :: "desk \<Rightarrow> string \<Rightarrow> string option" where
  "read_temp m p = map_option universal (map_of (temps m) p)"

definition write_temp :: "string \<Rightarrow> string \<Rightarrow> desk \<Rightarrow> desk" where
  "write_temp p content m = m\<lparr>temps := put_entry p content (temps m)\<rparr>"

definition no_overlay :: string where
  "no_overlay = ''no overlay terminal available (requires agterm, tmux, kitty, or wezterm)''"

definition feedback :: "string \<Rightarrow> string" where
  "feedback diff =
     ''user reviewed the plan in an editor and made changes. '' @
     ''the diff below shows what the user modified (lines starting with - are original, + are user'' @ [single]
       @ ''s version).'' @ [nl] @
     ''examine each diff hunk to understand the user'' @ [single] @ ''s feedback:'' @ [nl] @
     ''- added lines (+) are user'' @ [single] @ ''s annotations, comments, or requested additions'' @ [nl] @
     ''- removed lines (-) with replacement (+) show what the user wants changed'' @ [nl] @
     ''- removed lines (-) without replacement mean the user wants that removed'' @ [nl] @
     ''- context lines (no prefix) show surrounding plan content for reference'' @ [nl, nl] @
     diff @ [nl] @ ''adjust the plan to address each annotation, then call ExitPlanMode again.''"

text \<open>
  The value of a mode is the machine with what is printed, or the exception that leaves the
  script; nothing where the wait for the editor does not end.
\<close>

definition review_temp :: "desk \<Rightarrow> string \<Rightarrow> string \<Rightarrow> desk \<times> json result" where
  "review_temp m tmp plan_content =
     (case read_temp m tmp of
        None \<Rightarrow> (m, Inl OSError)
      | Some edited \<Rightarrow>
          (let diff = get_diff plan_content edited in
           (m, Inr (if diff = [] then make_response ''ask'' ''plan reviewed, no changes''
                    else make_response ''deny'' (feedback diff)))))"

definition run_hook_mode :: "desk \<Rightarrow> json option \<Rightarrow> (desk \<times> json result) option" where
  "run_hook_mode m input =
     (if review_disabled m then
        Some (m, Inr (make_response ''ask'' ''plan review disabled via PLANNING_DISABLE_REVDIFF''))
      else
        (case read_plan_from_stdin input of
           Inl e \<Rightarrow> Some (m, Inl e)
         | Inr plan \<Rightarrow>
             if \<not> truthy plan then Some (m, Inr (make_response ''ask'' ''no plan content in hook event''))
             else
               (let (tmp, m1) = new_temp m in
                case str_arg plan of
                  Inl e \<Rightarrow> Some (write_temp tmp [] m1, Inl e)
                | Inr plan_content \<Rightarrow>
                    (case open_editor (write_temp tmp plan_content m1) tmp True of
                       None \<Rightarrow> None
                     | Some (m2, rc) \<Rightarrow>
                         (case (if rc \<noteq> 0
                                then (m2, Inr (make_response ''ask'' (no_overlay @ '', skipping plan annotation'')))
                                else review_temp m2 tmp plan_content) of
                            (m3, r) \<Rightarrow> Some (unlink_temp tmp m3, r))))))"

text \<open>File mode: what is printed on standard output and the exit code.\<close>

definition run_file_mode :: "desk \<Rightarrow> string \<Rightarrow> (desk \<times> (string \<times> int) result) option" where
  "run_file_mode m plan_file =
     (if review_disabled m then Some (m, Inr ([], 0))
      else if \<not> path_exists m plan_file then Some (m, Inr ([], 1))
      else
        (case read_text m plan_file of
           None \<Rightarrow> Some (m, Inl OSError)
         | Some plan_content \<Rightarrow>
             (let (tmp, m1) = new_temp m in
              case open_editor (write_temp tmp plan_content m1) tmp False of
                None \<Rightarrow> None
              | Some (m2, rc) \<Rightarrow>
                  Some (unlink_temp tmp m2,
                    if rc \<noteq> 0 then Inr ([], 1)
                    else
                      (case read_temp m2 tmp of
                         None \<Rightarrow> Inl OSError
                       | Some edited \<Rightarrow>
                           (let diff = get_diff plan_content edited in
                            Inr (if diff = [] then [] else diff @ [nl], 0)))))))"

text \<open>
  \<open>main\<close> after the arguments are parsed: a file that is named is reviewed in file mode, else the
  event on standard input. What is printed is the answer, or the difference with an exit code.
\<close>

datatype printed = Answer json | Difference string int

definition main_annotate :: "desk \<Rightarrow> string option \<Rightarrow> json option \<Rightarrow> (desk \<times> printed result) option" where
  "main_annotate m plan_file input =
     (if plan_file \<notin> {None, Some []}
      then map_option (\<lambda>(m', r). (m', bind_res r (\<lambda>(out, rc). Inr (Difference out rc)))) (run_file_mode m (the plan_file))
      else map_option (\<lambda>(m', r). (m', bind_res r (\<lambda>v. Inr (Answer v)))) (run_hook_mode m input))"

end
