(* ===== verification/Py_Hashlib.thy ===== *)
theory Py_Hashlib
  imports Py_String "HOL-Library.Word"
begin

unbundle bit_operations_syntax

text \<open>
  \<open>hashlib.sha256(s.encode()).hexdigest()\<close> on 32-bit words: the encoding of the text, the padding
  to blocks of 64 bytes, the message schedule and the compression, and the digits of the digest.

  The laws: the padding fills whole blocks, so no byte of the text is left out, and a digest is 64
  hexadecimal digits.
\<close>

section \<open>Words\<close>

type_synonym word32 = "32 word"

definition ch :: "word32 \<Rightarrow> word32 \<Rightarrow> word32 \<Rightarrow> word32" where
  "ch x y z = (x AND y) XOR (NOT x AND z)"

definition maj :: "word32 \<Rightarrow> word32 \<Rightarrow> word32 \<Rightarrow> word32" where
  "maj x y z = (x AND y) XOR (x AND z) XOR (y AND z)"

definition big0 :: "word32 \<Rightarrow> word32" where
  "big0 x = word_rotr 2 x XOR word_rotr 13 x XOR word_rotr 22 x"

definition big1 :: "word32 \<Rightarrow> word32" where
  "big1 x = word_rotr 6 x XOR word_rotr 11 x XOR word_rotr 25 x"

definition small0 :: "word32 \<Rightarrow> word32" where
  "small0 x = word_rotr 7 x XOR word_rotr 18 x XOR drop_bit 3 x"

definition small1 :: "word32 \<Rightarrow> word32" where
  "small1 x = word_rotr 17 x XOR word_rotr 19 x XOR drop_bit 10 x"

definition round_constants :: "word32 list" where
  "round_constants =
    [0x428a2f98, 0x71374491, 0xb5c0fbcf, 0xe9b5dba5, 0x3956c25b, 0x59f111f1,
     0x923f82a4, 0xab1c5ed5, 0xd807aa98, 0x12835b01, 0x243185be, 0x550c7dc3,
     0x72be5d74, 0x80deb1fe, 0x9bdc06a7, 0xc19bf174, 0xe49b69c1, 0xefbe4786,
     0x0fc19dc6, 0x240ca1cc, 0x2de92c6f, 0x4a7484aa, 0x5cb0a9dc, 0x76f988da,
     0x983e5152, 0xa831c66d, 0xb00327c8, 0xbf597fc7, 0xc6e00bf3, 0xd5a79147,
     0x06ca6351, 0x14292967, 0x27b70a85, 0x2e1b2138, 0x4d2c6dfc, 0x53380d13,
     0x650a7354, 0x766a0abb, 0x81c2c92e, 0x92722c85, 0xa2bfe8a1, 0xa81a664b,
     0xc24b8b70, 0xc76c51a3, 0xd192e819, 0xd6990624, 0xf40e3585, 0x106aa070,
     0x19a4c116, 0x1e376c08, 0x2748774c, 0x34b0bcb5, 0x391c0cb3, 0x4ed8aa4a,
     0x5b9cca4f, 0x682e6ff3, 0x748f82ee, 0x78a5636f, 0x84c87814, 0x8cc70208,
     0x90befffa, 0xa4506ceb, 0xbef9a3f7, 0xc67178f2]"

definition initial_hash :: "word32 list" where
  "initial_hash = [0x6a09e667, 0xbb67ae85, 0x3c6ef372, 0xa54ff53a,
     0x510e527f, 0x9b05688c, 0x1f83d9ab, 0x5be0cd19]"

section \<open>Blocks\<close>

text \<open>The bytes of a text, in UTF-8.\<close>

definition utf8 :: "string \<Rightarrow> int list" where
  "utf8 s = concat (map (\<lambda>c. let n = int (code c) in if n < 128 then [n] else [192 + n div 64, 128 + n mod 64]) s)"

fun big_endian :: "nat \<Rightarrow> int \<Rightarrow> int list" where
  "big_endian 0 n = []"
| "big_endian (Suc k) n = big_endian k (n div 256) @ [n mod 256]"

definition padded_bytes :: "int list \<Rightarrow> int list" where
  "padded_bytes bs =
     bs @ [128] @ replicate ((119 - length bs mod 64) mod 64) 0 @ big_endian 8 (8 * int (length bs))"

fun words_of_bytes :: "int list \<Rightarrow> word32 list" where
  "words_of_bytes (a # b # c # d # bs) = of_int (((a * 256 + b) * 256 + c) * 256 + d) # words_of_bytes bs"
| "words_of_bytes bs = []"

fun blocks_of :: "nat \<Rightarrow> word32 list \<Rightarrow> word32 list list" where
  "blocks_of 0 ws = []"
| "blocks_of (Suc n) ws = take 16 ws # blocks_of n (drop 16 ws)"

section \<open>Compression\<close>

fun schedule :: "nat \<Rightarrow> word32 list \<Rightarrow> word32 list" where
  "schedule 0 ws = ws"
| "schedule (Suc n) ws =
     (let t = length ws in
      schedule n (ws @ [small1 (ws ! (t - 2)) + ws ! (t - 7) + small0 (ws ! (t - 15)) + ws ! (t - 16)]))"

fun round_step :: "word32 list \<Rightarrow> word32 \<times> word32 \<Rightarrow> word32 list" where
  "round_step [a, b, c, d, e, f, g, h] (k, w) =
     (let t1 = h + big1 e + ch e f g + k + w;
          t2 = big0 a + maj a b c in
      [t1 + t2, a, b, c, d + t1, e, f, g])"
| "round_step s kw = s"

definition compress :: "word32 list \<Rightarrow> word32 list \<Rightarrow> word32 list" where
  "compress hs block = map2 (+) hs (foldl round_step hs (zip round_constants (schedule 48 block)))"

section \<open>Digest\<close>

fun hex_digits :: "nat \<Rightarrow> int \<Rightarrow> string" where
  "hex_digits 0 n = []"
| "hex_digits (Suc k) n = hex_digits k (n div 16) @ [''0123456789abcdef'' ! nat (n mod 16)]"

definition sha256 :: "string \<Rightarrow> string" where
  "sha256 s =
     (let bs = padded_bytes (utf8 s) in
      concat (map (\<lambda>w. hex_digits 8 (uint w)) (foldl compress initial_hash (blocks_of (length bs div 64) (words_of_bytes bs)))))"

section \<open>Laws\<close>

lemma length_big_endian [simp]: "length (big_endian k n) = k"
  by (induction k arbitrary: n) simp_all

lemma padding_fills: "64 dvd length (padded_bytes bs)"
proof -
  define q r where "q = length bs div 64" and "r = length bs mod 64"
  have n: "length bs = 64 * q + r" "r < 64"
    by (simp_all add: q_def r_def)
  have "length (padded_bytes bs) = (if r \<le> 55 then 64 * (q + 1) else 64 * (q + 2))"
  proof (cases "r \<le> 55")
    case True
    then have "(119 - r) mod 64 = (64 + (55 - r)) mod 64"
      by simp
    also have "\<dots> = 55 - r"
      by (simp only: mod_add_self1) simp
    finally have "(119 - r) mod 64 = 55 - r" .
    then show ?thesis
      using True n by (simp add: padded_bytes_def r_def [symmetric])
  next
    case False
    then show ?thesis
      using n by (simp add: padded_bytes_def r_def [symmetric])
  qed
  then show ?thesis
    by (simp split: if_splits)
qed

lemma length_words_of_bytes: "length (words_of_bytes bs) = length bs div 4"
  by (induction bs rule: words_of_bytes.induct) simp_all

lemma concat_blocks_of: "length ws = 16 * n \<Longrightarrow> concat (blocks_of n ws) = ws"
  by (induction n arbitrary: ws) simp_all

lemma blocks_whole:
  "concat (blocks_of (length (padded_bytes bs) div 64) (words_of_bytes (padded_bytes bs))) = words_of_bytes (padded_bytes bs)"
proof (rule concat_blocks_of)
  obtain k where "length (padded_bytes bs) = 64 * k"
    using padding_fills [of bs] by (auto simp: dvd_def)
  then show "length (words_of_bytes (padded_bytes bs)) = 16 * (length (padded_bytes bs) div 64)"
    by (simp add: length_words_of_bytes)
qed

lemma length_round_step: "length (round_step s kw) = length s"
  by (induction s kw rule: round_step.induct) (simp_all add: Let_def)

lemma length_rounds: "length (foldl round_step s kws) = length s"
  by (induction kws arbitrary: s) (simp_all add: length_round_step)

lemma length_compress: "length (foldl compress hs bss) = length hs"
  by (induction bss arbitrary: hs) (simp_all add: compress_def length_rounds)

definition hex_char :: "char \<Rightarrow> bool" where
  "hex_char c \<longleftrightarrow> c \<in> set ''0123456789abcdef''"

lemma hex_digits_ok: "list_all hex_char (hex_digits k n) \<and> length (hex_digits k n) = k"
proof (induction k arbitrary: n)
  case (Suc k)
  have "''0123456789abcdef'' ! nat (n mod 16) \<in> set ''0123456789abcdef''"
    by (rule nth_mem) (simp add: nat_less_iff)
  then show ?case
    using Suc unfolding hex_char_def by simp
qed simp

lemma concat_hex_ok:
  "list_all hex_char (concat (map (\<lambda>w. hex_digits 8 (uint w)) ws)) \<and>
   length (concat (map (\<lambda>w. hex_digits 8 (uint w)) ws)) = 8 * length ws"
  by (induction ws) (simp_all add: hex_digits_ok)

lemma sha256_hex: "list_all hex_char (sha256 s)" and sha256_length: "length (sha256 s) = 64"
  using concat_hex_ok [of "foldl compress initial_hash bss" for bss]
  by (simp_all add: sha256_def Let_def length_compress initial_hash_def)

end
