(* ===== verification/Plan_Review.thy ===== *)
theory Plan_Review
  imports Plan_Annotate Py_Hashlib
begin

text \<open>
  \<open>plan-review-hook.py\<close>: the stop hook that opens the implementation plan for review, in \<open>revdiff\<close>
  or, as a fallback, by running \<open>plan-annotate.py\<close>, whose model it composes with; and the hash
  file that keeps a plan once reviewed from being reviewed again.
\<close>

section \<open>State and answers\<close>

text \<open>
  \<open>launcher\<close> is what running the launch script with the temporary file gives, with the temporary
  files at hand: the return code and the standard output, or nothing where running it raises (the
  time limit included).
\<close>

record review_desk = desk +
  plugin_root :: string
  launcher :: "string list \<Rightarrow> (string \<times> string) list \<Rightarrow> (int \<times> string) option"

text \<open>\<open>input\<close> is the parsed standard input, \<open>None\<close> where it is blank or does not parse.\<close>

definition read_context_from_stdin :: "json option \<Rightarrow> json" where
  "read_context_from_stdin input = (case input of None \<Rightarrow> JObj [] | Some v \<Rightarrow> v)"

definition stop_response :: "string \<Rightarrow> string \<Rightarrow> json" where
  "stop_response decision reason =
     JObj ([(''decision'', JStr decision)] @ (if reason \<noteq> [] then [(''reason'', JStr reason)] else []))"

definition annotated :: "string \<Rightarrow> string" where
  "annotated annotations =
     ''User reviewed the plan in revdiff and added annotations. '' @
     ''Each annotation references a specific line and contains the user'' @ [single] @ ''s feedback.'' @ [nl, nl] @
     annotations @ [nl, nl] @ ''Adjust the plan to address each annotation.''"

text \<open>The part of the machine that \<open>plan-annotate.py\<close> works on, and its effect put back.\<close>

definition as_desk :: "review_desk \<Rightarrow> desk" where
  "as_desk m = desk.truncate m"

definition put_desk :: "desk \<Rightarrow> review_desk \<Rightarrow> review_desk" where
  "put_desk d m = m\<lparr>temps_made := temps_made d, temps := temps d, ran := ran d\<rparr>"

section \<open>The review in revdiff\<close>

text \<open>The result is \<open>None\<close> where revdiff is not available, else the annotations, with their frame.\<close>

definition try_revdiff :: "review_desk \<Rightarrow> string \<Rightarrow> (review_desk \<times> string option) result" where
  "try_revdiff m plan_content =
     (let script = path_join (path_join (plugin_root m) ''scripts'') ''launch-plan-review.sh'' in
      if \<not> (which m ''revdiff'' \<noteq> None \<and> which m ''revdiff'' \<noteq> Some []) then Inr (m, None)
      else if \<not> path_exists m script then Inr (m, None)
      else
        (let tmp = temp_name m (temps_made m);
             m1 = m\<lparr>temps_made := temps_made m + 1, ran := ran m @ [[script, tmp]]\<rparr> in
         case launcher m [script, tmp] (put_entry tmp plan_content (temps m)) of
           None \<Rightarrow> Inl TimeoutExpired
         | Some (rc, out) \<Rightarrow>
             Inr (m1, if rc \<noteq> 0 then None
                      else if trim out = [] then Some [] else Some (annotated (trim out)))))"

section \<open>The hook\<close>

definition keep_hash :: "string \<Rightarrow> string \<Rightarrow> json \<Rightarrow> review_desk \<Rightarrow> review_desk \<times> json result" where
  "keep_hash hash_file plan_hash answer m =
     (case write_text m hash_file plan_hash of
        (m', ok) \<Rightarrow> (m', if ok then Inr answer else Inl OSError))"

text \<open>The output of the fallback script: what it prints, or nothing where an exception ends it.\<close>

definition fallback_answer :: "string \<Rightarrow> string \<Rightarrow> json result \<Rightarrow> review_desk \<Rightarrow> review_desk \<times> json result" where
  "fallback_answer hash_file plan_hash out m =
     (case out of
        Inl e \<Rightarrow> keep_hash hash_file plan_hash (stop_response ''allow'' ''plan reviewed, no changes'') m
      | Inr v \<Rightarrow>
          (case bind_res (get_or v ''hookSpecificOutput'' (JObj [])) (\<lambda>h.
                bind_res (get h ''permissionDecision'') (\<lambda>d.
                bind_res (get_or h ''permissionDecisionReason'' (JStr [])) (\<lambda>r. Inr (d, r)))) of
             Inl e \<Rightarrow> (m, Inl e)
           | Inr (decision, reason) \<Rightarrow>
               if decision = JStr ''deny'' then (m, Inr (stop_response ''continue'' (py_str reason)))
               else keep_hash hash_file plan_hash (stop_response ''allow'' (py_str reason)) m))"

definition review_plan :: "review_desk \<Rightarrow> string \<Rightarrow> string \<Rightarrow> string \<Rightarrow> review_desk \<times> json result" where
  "review_plan m hash_file plan_hash plan_content =
     (case try_revdiff m plan_content of
        Inl e \<Rightarrow> (m, Inl e)
      | Inr (m1, Some annotations) \<Rightarrow>
          if annotations = []
          then keep_hash hash_file plan_hash (stop_response ''allow'' ''plan reviewed, no annotations'') m1
          else (m1, Inr (stop_response ''continue'' annotations))
      | Inr (m1, None) \<Rightarrow>
          if \<not> path_exists m1 (path_join (path_join (plugin_root m1) ''scripts'') ''plan-annotate.py'')
          then (m1, Inr (stop_response ''allow''
                  ''no review tool available (revdiff not installed, plan-annotate.py not found)''))
          else
            (case run_hook_mode (as_desk m1) (Some (plan_event plan_content)) of
               None \<Rightarrow> (m1, Inl TimeoutExpired)
             | Some (d, out) \<Rightarrow> fallback_answer hash_file plan_hash out (put_desk d m1)))"

text \<open>
  \<open>main\<close>. Where the plan cannot be read the code appends the text of the exception to the reason.
\<close>

definition main_review :: "review_desk \<Rightarrow> json option \<Rightarrow> review_desk \<times> json result" where
  "main_review m input =
     (case bind_res (get (read_context_from_stdin input) ''artifactDirectoryPath'') (\<lambda>a.
           if truthy a then bind_res (str_arg a) (\<lambda>s. Inr (Some s)) else Inr None) of
        Inl e \<Rightarrow> (m, Inl e)
      | Inr None \<Rightarrow> (m, Inr (stop_response ''allow'' ''no artifactDirectoryPath in hook context''))
      | Inr (Some artifact_dir) \<Rightarrow>
          (let plan_path = path_join artifact_dir ''implementation_plan.md'';
               hash_file = path_join artifact_dir ''.plan_reviewed.hash'' in
           if \<not> path_exists m plan_path then
             (m, Inr (stop_response ''allow'' ''implementation_plan.md not found''))
           else
             (case read_text m plan_path of
                None \<Rightarrow> (m, Inr (stop_response ''allow'' ''could not read plan: ''))
              | Some plan_content \<Rightarrow>
                  if map_of (penv m) ''PLANNING_DISABLE_REVDIFF'' \<notin> {None, Some []} then
                    (m, Inr (stop_response ''allow'' ''plan review disabled via PLANNING_DISABLE_REVDIFF''))
                  else if path_exists m hash_file \<and> \<not> is_file m hash_file then (m, Inl OSError)
                  else if map_option trim (read_text m hash_file) = Some (sha256 plan_content) then
                    (m, Inr (stop_response ''allow'' ''plan already reviewed and unchanged''))
                  else review_plan m hash_file (sha256 plan_content) plan_content)))"

end
