(* ===== verification/Plan_Diff.thy ===== *)
theory Plan_Diff
  imports Plan_Annotate
begin

text \<open>
  What the difference of \<open>plan-annotate.py\<close> tells: a reader who has the plan can rebuild the edited
  plan from the text of the difference alone. The reader is \<open>apply_diff\<close>: it goes through the text
  without knowing how it was made, copies what no hunk mentions, and finds the end of an added
  line by its line end.
\<close>

section \<open>Lines\<close>

lemma concat_keep_lines: "concat (keep_lines s) = s"
  by (induction s rule: keep_lines.induct) (auto split: list.splits)

text \<open>The first line of a text with its end, and the rest.\<close>

fun first_line :: "string \<Rightarrow> string \<times> string" where
  "first_line [] = ([], [])"
| "first_line (c # s) =
     (if ends_line c \<and> \<not> (c = CHR 0x0D \<and> prefix [nl] s) then ([c], s)
      else (case first_line s of (l, r) \<Rightarrow> (c # l, r)))"

lemma keep_lines_first:
  "s \<noteq> [] \<Longrightarrow> first_line s = (l, r) \<Longrightarrow> keep_lines s = l # keep_lines r"
proof (induction s arbitrary: l r)
  case (Cons c s)
  show ?case
  proof (cases "ends_line c \<and> \<not> (c = CHR 0x0D \<and> prefix [nl] s)")
    case False
    obtain l' r' where f: "first_line s = (l', r')"
      by (cases "first_line s")
    then have lr: "l = c # l'" "r = r'"
      using Cons.prems(2) False by auto
    show ?thesis
    proof (cases "s = []")
      case True
      then show ?thesis
        using False f lr by auto
    next
      case ne: False
      have "keep_lines s = l' # keep_lines r'"
        using Cons.IH [OF ne f] .
      then show ?thesis
        using False lr by auto
    qed
  qed (use Cons.prems in auto)
qed simp

lemma first_line_parts:
  "first_line s = (l, r) \<Longrightarrow>
     s = l @ r \<and> (s \<noteq> [] \<longrightarrow> l \<noteq> []) \<and> first_line l = (l, []) \<and> (r \<noteq> [] \<longrightarrow> ends_line (last l))"
proof (induction s arbitrary: l r)
  case (Cons c s)
  obtain l' r' where f: "first_line s = (l', r')"
    by (cases "first_line s")
  note IH = Cons.IH [OF f]
  show ?case
  proof (cases "ends_line c \<and> \<not> (c = CHR 0x0D \<and> prefix [nl] s)")
    case True
    then show ?thesis
      using Cons.prems by auto
  next
    case False
    then have lr: "l = c # l'" "r = r'"
      using Cons.prems f by auto
    have s: "s = l' @ r'" "s \<noteq> [] \<longrightarrow> l' \<noteq> []" "first_line l' = (l', [])" "r' \<noteq> [] \<longrightarrow> ends_line (last l')"
      using IH by blast+
    have "prefix [nl] s \<longrightarrow> prefix [nl] l'"
      using s(1,2) by (cases l') simp_all
    then have "first_line l = (l, [])"
      using False lr(1) s(3) by auto
    moreover have "r \<noteq> [] \<longrightarrow> ends_line (last l)"
      using lr s(1,2,4) by auto
    ultimately show ?thesis
      using lr s(1) by simp
  qed
qed simp

text \<open>A line with its end, and a text cut into lines.\<close>

definition terminated :: "string \<Rightarrow> bool" where
  "terminated l \<longleftrightarrow> l \<noteq> [] \<and> first_line l = (l, []) \<and> ends_line (last l)"

lemma first_line_terminated:
  "first_line l = (l, []) \<Longrightarrow> l \<noteq> [] \<Longrightarrow> ends_line (last l) \<Longrightarrow> \<not> prefix [nl] r \<Longrightarrow>
     first_line (l @ r) = (l, r)"
proof (induction l)
  case (Cons c l)
  show ?case
  proof (cases "ends_line c \<and> \<not> (c = CHR 0x0D \<and> prefix [nl] l)")
    case True
    then show ?thesis
      using Cons.prems by (auto split: if_splits)
  next
    case False
    then have l: "first_line l = (l, [])"
      using Cons.prems(1) by (auto split: prod.splits)
    have ne: "l \<noteq> []"
      using Cons.prems(3) False by auto
    have "prefix [nl] (l @ r) \<longleftrightarrow> prefix [nl] l"
      using ne by (cases l) auto
    then show ?thesis
      using Cons.IH [OF l ne] Cons.prems(3,4) False ne by auto
  qed
qed simp

inductive lines_ok :: "string list \<Rightarrow> bool" where
  no_line: "lines_ok []"
| last_line: "l \<noteq> [] \<Longrightarrow> first_line l = (l, []) \<Longrightarrow> lines_ok [l]"
| more_lines: "terminated l \<Longrightarrow> lines_ok ls \<Longrightarrow> lines_ok (l # ls)"

lemma lines_ok_keep_lines: "lines_ok (keep_lines s)"
proof (induction "length s" arbitrary: s rule: less_induct)
  case less
  show ?case
  proof (cases "s = []")
    case True
    then show ?thesis
      by (simp add: no_line)
  next
    case False
    obtain l r where f: "first_line s = (l, r)"
      by (cases "first_line s")
    note parts = first_line_parts [OF f]
    have ks: "keep_lines s = l # keep_lines r"
      using keep_lines_first [OF False f] .
    show ?thesis
    proof (cases "r = []")
      case True
      then show ?thesis
        using ks parts False by (auto intro: last_line)
    next
      case r: False
      have "length r < length s"
        using parts False by (metis length_append length_greater_0_conv less_add_same_cancel2)
      then show ?thesis
        using less [of r] ks parts r False by (auto simp: terminated_def intro: more_lines)
    qed
  qed
qed

lemma lines_ok_nth: "lines_ok ls \<Longrightarrow> k < length ls \<Longrightarrow> ls ! k \<noteq> [] \<and> first_line (ls ! k) = (ls ! k, []) \<and>
    (Suc k < length ls \<longrightarrow> ends_line (last (ls ! k)))"
proof (induction arbitrary: k rule: lines_ok.induct)
  case (more_lines l ls)
  then show ?case
    by (cases k) (auto simp: terminated_def)
qed auto

section \<open>The reader\<close>

text \<open>A decimal number, and where a hunk starts: its header is \<open>@@ -start,length +start,length @@\<close>.\<close>

fun read_nat :: "nat \<Rightarrow> string \<Rightarrow> nat \<times> string" where
  "read_nat n [] = (n, [])"
| "read_nat n (c # s) = (if is_digit09 c then read_nat (10 * n + (code c - 48)) s else (n, c # s))"

definition hunk_start :: "string \<Rightarrow> nat" where
  "hunk_start h =
     (case read_nat 0 (drop 4 h) of
        (start, r) \<Rightarrow>
          if prefix '','' r \<and> fst (read_nat 0 (tl r)) = 0 then start else start - 1)"

text \<open>
  \<open>i\<close> is the position in the plan. The result are the lines of the edited plan from there on.
\<close>

lemma first_line_length: "length (snd (first_line s)) \<le> length s"
  by (induction s rule: first_line.induct) (auto split: prod.splits)

function patch :: "string list \<Rightarrow> nat \<Rightarrow> string \<Rightarrow> string list" where
  "patch a i [] = drop i a"
| "patch a i (c # s) =
     (if c = CHR ''@'' then
        (case first_line s of
           (h, r) \<Rightarrow> segment i (hunk_start (c # h)) a @ patch a (hunk_start (c # h)) r)
      else if c = CHR '' '' then a ! i # patch a (Suc i) (drop (length (a ! i)) s)
      else if c = CHR ''-'' then patch a (Suc i) (drop (length (a ! i)) s)
      else (case first_line s of (l, r) \<Rightarrow> l # patch a i r))"
  by pat_completeness auto
termination
  by (relation "measure (\<lambda>(a, i, s). length s)")
    (auto simp: less_Suc_eq_le dest!: arg_cong [where f = "\<lambda>p. length (snd p)"] intro: first_line_length order_trans)

declare patch.simps(2) [simp del]

definition apply_diff :: "string \<Rightarrow> string \<Rightarrow> string" where
  "apply_diff plan d =
     concat (patch (keep_lines plan) 0 (snd (first_line (snd (first_line d)))))"

section \<open>Numbers and headers\<close>

lemma digit_char:
  "n < 10 \<Longrightarrow> is_digit09 (''0123456789'' ! n) \<and> code (''0123456789'' ! n) = 48 + n"
  by (simp add: numeral_eq_Suc less_Suc_eq) (elim disjE; simp; code_simp)

lemma read_show: "read_nat 0 (show_nat n @ r) = read_nat n r"
proof (induction n arbitrary: r rule: show_nat.induct)
  case (1 n)
  have d: "is_digit09 (''0123456789'' ! (n mod 10))" "code (''0123456789'' ! (n mod 10)) - 48 = n mod 10"
    using digit_char [of "n mod 10"] by simp_all
  show ?case
  proof (cases "n < 10")
    case True
    then show ?thesis
      using d by (simp add: show_nat.simps [of n])
  next
    case False
    then have "read_nat 0 (show_nat n @ r) = read_nat (n div 10) (''0123456789'' ! (n mod 10) # r)"
      using 1 by (simp add: show_nat.simps [of n])
    then show ?thesis
      using d by simp
  qed
qed

lemma show_nat_digits: "c \<in> set (show_nat n) \<Longrightarrow> is_digit09 c"
proof (induction n rule: show_nat.induct)
  case (1 n)
  then show ?case
    using digit_char [of "n mod 10"] by (auto simp: show_nat.simps [of n] split: if_splits)
qed

lemma no_digit: "\<not> is_digit09 CHR '' ''" "\<not> is_digit09 CHR '',''"
  by code_simp+

lemma hunk_start_header:
  "i1 \<le> i2 \<Longrightarrow> hunk_start (''@@ -'' @ format_range i1 i2 @ '' '' @ r) = i1"
  by (auto simp: hunk_start_def format_range_def read_show no_digit)

section \<open>What the hunks leave out\<close>

text \<open>A stretch of equal lines on both sides.\<close>

definition same_part :: "'a list \<Rightarrow> 'a list \<Rightarrow> nat \<Rightarrow> nat \<Rightarrow> nat \<Rightarrow> nat \<Rightarrow> bool" where
  "same_part a b i i' j j' \<longleftrightarrow>
     i \<le> i' \<and> j \<le> j' \<and> i' - i = j' - j \<and> (\<forall>d < i' - i. a ! (i + d) = b ! (j + d))"

lemma same_refl: "same_part a b i i j j"
  by (simp add: same_part_def)

lemma same_trans:
  assumes "same_part a b i x j y" "same_part a b x i' y j'"
  shows "same_part a b i i' j j'"
proof -
  obtain k k' where k: "x = i + k" "y = j + k" "i' = i + k + k'" "j' = j + k + k'"
    using assms by (auto simp: same_part_def le_iff_add)
  have "a ! (i + d) = b ! (j + d)" if "d < k + k'" for d
  proof (cases "d < k")
    case True
    then show ?thesis
      using assms(1) k by (simp add: same_part_def)
  next
    case False
    then obtain e where "d = k + e"
      by (auto simp: not_less le_iff_add)
    then show ?thesis
      using assms(2) k that by (simp add: same_part_def add.assoc)
  qed
  then show ?thesis
    using k by (simp add: same_part_def)
qed

lemma same_split:
  assumes "same_part a b i i' j j'" "i \<le> x" "x \<le> i'"
  shows "same_part a b i x j (j + (x - i))" "same_part a b x i' (j + (x - i)) j'"
proof -
  show "same_part a b i x j (j + (x - i))"
    using assms by (auto simp: same_part_def)
  have "a ! (x + d) = b ! (j + (x - i) + d)" if "d < i' - x" for d
  proof -
    have "x - i + d < i' - i"
      using assms(2) that by simp
    then have "a ! (i + (x - i + d)) = b ! (j + (x - i + d))"
      using assms(1) by (simp add: same_part_def)
    then show ?thesis
      using assms(2) by (simp add: add.assoc)
  qed
  then show "same_part a b x i' (j + (x - i)) j'"
    using assms by (auto simp: same_part_def)
qed

text \<open>Operations whose equal parts may have been cut down to their context.\<close>

fun part_ok :: "'a list \<Rightarrow> 'a list \<Rightarrow> opcode \<Rightarrow> bool" where
  "part_ok a b (Equal, i1, i2, j1, j2) \<longleftrightarrow> same_part a b i1 i2 j1 j2"
| "part_ok a b (Replace, i1, i2, j1, j2) \<longleftrightarrow> i1 \<le> i2 \<and> j1 \<le> j2"
| "part_ok a b (Delete, i1, i2, j1, j2) \<longleftrightarrow> i1 \<le> i2 \<and> j1 = j2"
| "part_ok a b (Insert, i1, i2, j1, j2) \<longleftrightarrow> i1 = i2 \<and> j1 \<le> j2"

inductive parts :: "'a list \<Rightarrow> 'a list \<Rightarrow> nat \<Rightarrow> nat \<Rightarrow> opcode list \<Rightarrow> nat \<Rightarrow> nat \<Rightarrow> bool"
  for a b where
  no_part: "parts a b i j [] i j"
| part: "part_ok a b (t, i, i2, j, j2) \<Longrightarrow> parts a b i2 j2 ops i' j' \<Longrightarrow>
    parts a b i j ((t, i, i2, j, j2) # ops) i' j'"

inductive_cases parts_NilE: "parts a b i j [] i' j'"
inductive_cases parts_ConsE: "parts a b i j (p # ops) i' j'"

lemma part_ok_le: "part_ok a b (t, i1, i2, j1, j2) \<Longrightarrow> i1 \<le> i2 \<and> j1 \<le> j2"
  by (cases t) (auto simp: same_part_def)

lemma parts_le: "parts a b i j ops i' j' \<Longrightarrow> i \<le> i' \<and> j \<le> j'"
  by (induction rule: parts.induct) (auto dest: part_ok_le intro: order_trans)

lemma parts_append: "parts a b i j ops x y \<Longrightarrow> parts a b x y ops' i' j' \<Longrightarrow> parts a b i j (ops @ ops') i' j'"
  by (induction rule: parts.induct) (auto intro: parts.intros)

lemma tiles_parts: "tiles a b i j ops i' j' \<Longrightarrow> parts a b i j ops i' j'"
proof (induction ops arbitrary: i j)
  case Nil
  then show ?case
    by (simp add: no_part)
next
  case (Cons p ops)
  from Cons.prems obtain t i2 j2
    where p: "p = (t, i, i2, j, j2)" "op_ok a b (t, i, i2, j, j2)" "tiles a b i2 j2 ops i' j'"
    by (rule tiles_ConsE)
  have "part_ok a b (t, i, i2, j, j2)"
    using p(2) by (cases t) (auto simp: same_part_def)
  then show ?case
    using Cons.IH [OF p(3)] p(1) by (simp add: part)
qed

text \<open>No operation follows one that adds the last lines of the second side.\<close>

fun adds_end :: "nat \<Rightarrow> opcode \<Rightarrow> bool" where
  "adds_end n (t, i1, i2, j1, j2) \<longleftrightarrow> (t = Replace \<or> t = Insert) \<and> j2 = n"

fun end_last :: "nat \<Rightarrow> opcode list \<Rightarrow> bool" where
  "end_last n [] \<longleftrightarrow> True"
| "end_last n (p # ops) \<longleftrightarrow> (adds_end n p \<longrightarrow> ops = []) \<and> end_last n ops"

lemma end_last_append:
  "end_last n (xs @ ys) \<longleftrightarrow> end_last n xs \<and> end_last n ys \<and> (ys \<noteq> [] \<longrightarrow> \<not> list_ex (adds_end n) xs)"
  by (induction xs) auto

lemma collapse_sizes: "(x, y, k) \<in> set (collapse m ms) \<Longrightarrow> k \<noteq> 0"
  by (induction m ms rule: collapse.induct) (auto split: if_splits)

lemma end_last_opcodes:
  "chain a b i j ms i' j' \<Longrightarrow> \<forall>(x, y, k) \<in> set ms. k \<noteq> 0 \<Longrightarrow>
     end_last j' (opcodes_from i j (ms @ [(i', j', 0)]))"
proof (induction ms arbitrary: i j)
  case Nil
  then show ?case
    by (auto simp: gap_def)
next
  case (Cons m ms)
  obtain x y k where m: "m = (x, y, k)"
    by (cases m)
  have rest: "end_last j' (opcodes_from (x + k) (y + k) (ms @ [(i', j', 0)]))"
    using Cons m by simp
  have "chain a b (x + k) (y + k) ms i' j' \<Longrightarrow> y + k \<le> j'"
    using tiles_le [OF tiles_opcodes] by blast
  then have "y < j'" "k \<noteq> 0"
    using Cons.prems m by auto
  then have "\<not> list_ex (adds_end j') (gap i x j y)"
    by (auto simp: gap_def)
  then show ?case
    using rest m \<open>k \<noteq> 0\<close> by (auto simp: end_last_append) (auto simp: gap_def)
qed

lemma end_last_get_opcodes: "end_last (length b) (get_opcodes a b)"
proof -
  have "chain a b 0 0 (collapse (0, 0, 0) (blocks a b 0 (length a) 0 (length b))) (length a) (length b)"
    using chain_collapse [of 0 0 0 0 0 a b] chain_blocks [of 0 "length a" 0 "length b" a b] by simp
  moreover have "\<forall>(x, y, k) \<in> set (collapse (0, 0, 0) (blocks a b 0 (length a) 0 (length b))). k \<noteq> 0"
    using collapse_sizes by fast
  ultimately show ?thesis
    by (simp add: get_opcodes_def get_matching_blocks_def end_last_opcodes)
qed

text \<open>The context: trimming and grouping leave out equal lines only.\<close>

lemma parts_trim_first:
  "parts a b i j ops i' j' \<Longrightarrow>
     \<exists>i0 j0. same_part a b i i0 j j0 \<and> parts a b i0 j0 (trim_first n ops) i' j'"
proof (cases "(n, ops)" rule: trim_first.cases)
  case (1 n' i1 i2 j1 j2 rest)
  moreover assume "parts a b i j ops i' j'"
  ultimately have p: "i1 = i" "j1 = j" "same_part a b i i2 j j2" "parts a b i2 j2 rest i' j'"
    by (auto elim: parts_ConsE)
  let ?x = "max i (i2 - n)"
  have x: "i \<le> ?x" "?x \<le> i2" "max j (j2 - n) = j + (?x - i)"
    using p(3) by (auto simp: same_part_def)
  show ?thesis
    using same_split [OF p(3) x(1,2)] p x(3) 1 by (intro exI conjI) (auto intro!: part)
qed (auto intro: same_refl)

lemma parts_trim_last:
  "parts a b i j ops i' j' \<Longrightarrow>
     \<exists>x y. parts a b i j (trim_last n ops) x y \<and> same_part a b x i' y j'"
proof (induction n ops arbitrary: i j rule: trim_last.induct)
  case (2 n t i1 i2 j1 j2)
  have p: "i1 = i" "j1 = j" "part_ok a b (t, i, i2, j, j2)" "i' = i2" "j' = j2"
    using "2.prems" by (auto elim: parts_ConsE parts_NilE)
  show ?case
  proof (cases "t = Equal")
    case True
    let ?x = "min i2 (i + n)"
    have same: "same_part a b i i2 j j2"
      using p(3) True by simp
    have x: "i \<le> ?x" "?x \<le> i2" "min j2 (j + n) = j + (?x - i)"
      using same by (auto simp: same_part_def)
    show ?thesis
      using same_split [OF same x(1,2)] p x(3) True by (intro exI conjI) (auto intro!: part no_part)
  next
    case False
    then show ?thesis
      using p by (intro exI conjI) (auto intro!: part no_part same_refl)
  qed
next
  case (3 n p q ops)
  from "3.prems" show ?case
    by (elim parts_ConsE) (use "3.IH" in \<open>fastforce intro: part\<close>)
qed (auto elim: parts_NilE intro: no_part same_refl)

lemma end_last_trim: "end_last m (trim_first n ops) = end_last m ops" "end_last m (trim_last n ops) = end_last m ops"
proof -
  show "end_last m (trim_first n ops) = end_last m ops"
    by (cases "(n, ops)" rule: trim_first.cases) auto
  show "end_last m (trim_last n ops) = end_last m ops"
  proof (induction n ops rule: trim_last.induct)
    case (3 n p q ops)
    have "trim_last n (q # ops) \<noteq> []"
      by (cases ops; cases q) auto
    then show ?case
      using 3 by simp
  qed auto
qed

inductive hunks_ok :: "'a list \<Rightarrow> 'a list \<Rightarrow> nat \<Rightarrow> nat \<Rightarrow> opcode list list \<Rightarrow> bool" for a b where
  no_hunk: "same_part a b i (length a) j (length b) \<Longrightarrow> hunks_ok a b i j []"
| hunk: "same_part a b i i0 j j0 \<Longrightarrow> g \<noteq> [] \<Longrightarrow> parts a b i0 j0 g i1 j1 \<Longrightarrow> end_last (length b) g \<Longrightarrow>
    (list_ex (adds_end (length b)) g \<Longrightarrow> gs = []) \<Longrightarrow> hunks_ok a b i1 j1 gs \<Longrightarrow> hunks_ok a b i j (g # gs)"

lemma hunks_ok_group:
  "parts a b i0 j0 g x y \<Longrightarrow> parts a b x y ops p q \<Longrightarrow> same_part a b p (length a) q (length b) \<Longrightarrow>
     end_last (length b) (g @ ops) \<Longrightarrow> same_part a b i i0 j j0 \<Longrightarrow> hunks_ok a b i j (group_ops n g ops)"
proof (induction n g ops arbitrary: i j i0 j0 x y rule: group_ops.induct)
  case (1 n g)
  have xy: "x = p" "y = q"
    using "1.prems"(2) by (auto elim: parts_NilE)
  show ?case
  proof (cases "g \<noteq> [] \<and> \<not> (length g = 1 \<and> fst (hd g) = Equal)")
    case True
    then show ?thesis
      using "1.prems" xy by (auto intro!: hunk no_hunk)
  next
    case False
    have "same_part a b i0 p j0 q"
    proof (cases g)
      case Nil
      then show ?thesis
        using "1.prems"(1) xy by (auto elim: parts_NilE intro: same_refl)
    next
      case (Cons o1 g')
      then have "g = [o1]" "fst o1 = Equal"
        using False by auto
      then show ?thesis
        using "1.prems"(1) xy by (auto elim!: parts_ConsE parts_NilE)
    qed
    then have "same_part a b i (length a) j (length b)"
      using "1.prems"(3,5) same_trans by blast
    then show ?thesis
      using False by (auto intro: no_hunk)
  qed
next
  case (2 n g t i1 i2 j1 j2 ops)
  have p: "i1 = x" "j1 = y" "part_ok a b (t, x, i2, y, j2)" "parts a b i2 j2 ops p q"
    using "2.prems"(2) by (auto elim: parts_ConsE)
  show ?case
  proof (cases "t = Equal \<and> i2 - i1 > n + n")
    case True
    have same: "same_part a b x i2 y j2"
      using p(3) True by simp
    have le: "x \<le> i2 - n" "i2 - n \<le> i2" "x \<le> x + n" "x + n \<le> i2 - n" "y + n \<le> j2" "y \<le> j2 - n"
        "y + (i2 - n - x) = j2 - n"
      using True p(1) same by (auto simp: same_part_def)
    have cut: "same_part a b x (i2 - n) y (j2 - n)" "same_part a b (i2 - n) i2 (j2 - n) j2"
      using same_split [OF same le(1,2)] le(7) by simp_all
    have first: "same_part a b x (x + n) y (y + n)" "same_part a b (x + n) (i2 - n) (y + n) (j2 - n)"
      using same_split [OF cut(1) le(3,4)] by simp_all
    let ?g = "g @ [(Equal, x, x + n, y, y + n)]" and ?h = "[(Equal, i2 - n, i2, j2 - n, j2)]"
    have g: "parts a b i0 j0 ?g (x + n) (y + n)" and h: "parts a b (i2 - n) (j2 - n) ?h i2 j2"
      using "2.prems"(1) first(1) cut(2) by (auto intro!: parts_append part no_part)
    have e: "end_last (length b) ?g" "\<not> list_ex (adds_end (length b)) ?g" "end_last (length b) (?h @ ops)"
      using "2.prems"(4) by (auto simp: end_last_append)
    have "hunks_ok a b (x + n) (y + n) (group_ops n ?h ops)"
      using "2.IH"(1) [OF True, of "i2 - n" "j2 - n" i2 j2 "x + n" "y + n"] True p(1,2,4) h first(2)
        "2.prems"(3) e(3) le by auto
    with "2.prems"(5) _ g e(1) _ have "hunks_ok a b i j (?g # group_ops n ?h ops)"
      by (rule hunk) (use e(2) in auto)
    then show ?thesis
      using True p(1,2) le by (simp add: min_absorb2 max_absorb2)
  next
    case False
    have "parts a b i0 j0 (g @ [(t, i1, i2, j1, j2)]) i2 j2"
      using "2.prems"(1) p by (auto intro!: parts_append part no_part)
    then show ?thesis
      using "2.IH"(2) [OF False] "2.prems" p(4) False by auto
  qed
qed

lemma hunks_ok_groups: "hunks_ok a b 0 0 (get_grouped_opcodes n a b)"
proof (cases "get_opcodes a b = []")
  case True
  then have "a = b"
    using changed_opcode [of a b] by auto
  then show ?thesis
    by (simp add: groups_itself no_hunk same_part_def)
next
  case False
  obtain i0 j0 where f: "same_part a b 0 i0 0 j0"
      "parts a b i0 j0 (trim_first n (get_opcodes a b)) (length a) (length b)"
    using parts_trim_first [OF tiles_parts [OF tiles_get_opcodes]] by blast
  obtain x y where l: "parts a b i0 j0 (trim_last n (trim_first n (get_opcodes a b))) x y"
      "same_part a b x (length a) y (length b)"
    using parts_trim_last [OF f(2)] by blast
  show ?thesis
    using hunks_ok_group [OF no_part l _ f(1), of n] end_last_get_opcodes [of b a] False
    by (simp add: get_grouped_opcodes_def end_last_trim)
qed

section \<open>Reading the hunks\<close>

text \<open>How the text goes on after a line: not with the second half of a line end.\<close>

definition fits :: "string \<Rightarrow> bool" where
  "fits r \<longleftrightarrow> r = [] \<or> hd r \<in> set ''@ +-''"

lemma fits_line: "fits r \<Longrightarrow> \<not> prefix [nl] r"
  by (cases r) (auto simp: fits_def nl_def)

lemma fits_append: "fits r \<Longrightarrow> \<forall>l \<in> set ls. l \<noteq> [] \<and> hd l \<in> set ''@ +-'' \<Longrightarrow> fits (concat ls @ r)"
  by (cases ls) (auto simp: fits_def)

lemma op_lines_fit: "l \<in> set (op_lines a b p) \<Longrightarrow> l \<noteq> [] \<and> hd l \<in> set ''@ +-''"
  by (cases "(a, b, p)" rule: op_lines.cases) auto

lemma segment_Suc: "i < i2 \<Longrightarrow> i2 \<le> length a \<Longrightarrow> segment i i2 a = a ! i # segment (Suc i) i2 a"
  by (simp add: segment_def Cons_nth_drop_Suc [symmetric] Suc_diff_Suc [symmetric] del: Suc_diff_Suc)

lemma patch_equal:
  "i \<le> i2 \<Longrightarrow> i2 \<le> length a \<Longrightarrow>
     patch a i (concat (map ((#) CHR '' '') (segment i i2 a)) @ r) = segment i i2 a @ patch a i2 r"
proof (induction "i2 - i" arbitrary: i)
  case (Suc k)
  then show ?case
    using segment_Suc [of i i2 a] by (simp add: patch.simps)
qed (simp add: segment_def)

lemma patch_removed:
  "i \<le> i2 \<Longrightarrow> i2 \<le> length a \<Longrightarrow>
     patch a i (concat (map ((#) CHR ''-'') (segment i i2 a)) @ r) = patch a i2 r"
proof (induction "i2 - i" arbitrary: i)
  case (Suc k)
  then show ?case
    using segment_Suc [of i i2 a] by (simp add: patch.simps)
qed (simp add: segment_def)

lemma patch_added:
  assumes "lines_ok b"
  shows "j \<le> j2 \<Longrightarrow> j2 \<le> length b \<Longrightarrow> fits r \<Longrightarrow> (j < j2 \<Longrightarrow> j2 = length b \<Longrightarrow> r = []) \<Longrightarrow>
     patch a i (concat (map ((#) CHR ''+'') (segment j j2 b)) @ r) = segment j j2 b @ patch a i r"
proof (induction "j2 - j" arbitrary: j)
  case (Suc k)
  let ?t = "concat (map ((#) CHR ''+'') (segment (Suc j) j2 b)) @ r"
  have j: "j < j2" "j < length b"
    using Suc.hyps(2) Suc.prems(2) by simp_all
  have seg: "segment j j2 b = b ! j # segment (Suc j) j2 b"
    using j Suc.prems(2) by (simp add: segment_Suc)
  note line = lines_ok_nth [OF assms j(2)]
  have "first_line (b ! j @ ?t) = (b ! j, ?t)"
  proof (cases "Suc j < length b")
    case True
    have "fits ?t"
      using Suc.prems(3) by (rule fits_append) auto
    then show ?thesis
      using line True by (intro first_line_terminated fits_line) auto
  next
    case False
    then have "Suc j = length b" "j2 = length b"
      using j Suc.prems(2) by simp_all
    then have "?t = []"
      using Suc.prems(4) j by (simp add: segment_def)
    then show ?thesis
      using line by simp
  qed
  moreover have "patch a i ?t = segment (Suc j) j2 b @ patch a i r"
    using Suc j by simp
  ultimately show ?case
    by (simp add: seg patch.simps)
qed (simp add: segment_def)

lemma adds_endI: "t = Replace \<or> t = Insert \<Longrightarrow> adds_end j2 (t, i1, i2, j1, j2)"
  by simp

lemma patch_parts:
  assumes "lines_ok b"
  shows "parts a b i j ops i' j' \<Longrightarrow> i' \<le> length a \<Longrightarrow> j' \<le> length b \<Longrightarrow> end_last (length b) ops \<Longrightarrow> fits r \<Longrightarrow>
    (list_ex (adds_end (length b)) ops \<Longrightarrow> r = []) \<Longrightarrow>
    patch a i (concat (concat (map (op_lines a b) ops)) @ r) = segment j j' b @ patch a i' r"
proof (induction rule: parts.induct)
  case (no_part i j)
  then show ?case
    by (simp add: segment_def)
next
  case (part t i i2 j j2 ops i' j')
  let ?t = "concat (concat (map (op_lines a b) ops)) @ r"
  have le: "i \<le> i2" "j \<le> j2" "i2 \<le> i'" "j2 \<le> j'"
    using part_ok_le [OF part.hyps(1)] parts_le [OF part.hyps(2)] by simp_all
  have fits: "fits ?t"
    using part.prems(4) op_lines_fit by (intro fits_append) fastforce+
  have ends: "?t = []" if "t = Replace \<or> t = Insert" "j2 = length b"
    using part.prems(3,5) adds_endI [OF that(1)] that(2) by auto
  have "patch a i (concat (op_lines a b (t, i, i2, j, j2)) @ ?t) = segment j j2 b @ patch a i2 ?t"
  proof (cases t)
    case Equal
    then have "segment i i2 a = segment j j2 b"
      using part.hyps(1) part.prems(1,2) le by (intro segment_eq) (auto simp: same_part_def)
    then show ?thesis
      using patch_equal [of i i2 a ?t] part.prems(1) le Equal by simp
  next
    case Delete
    then show ?thesis
      using patch_removed [of i i2 a ?t] part.hyps(1) part.prems(1) le by (simp add: segment_def)
  next
    case Insert
    then show ?thesis
      using patch_added [OF assms le(2) _ fits] part.hyps(1) part.prems(2) le ends by simp
  next
    case Replace
    then show ?thesis
      using patch_added [OF assms le(2) _ fits, of a i2] patch_removed [of i i2 a] part.prems(1,2) le ends by simp
  qed
  moreover have "patch a i2 ?t = segment j2 j' b @ patch a i' r"
    using part.IH part.prems by simp
  ultimately show ?case
    using segment_append [OF le(2,4), of b] by simp
qed

lemma parts_ends:
  "parts a b i j ops i' j' \<Longrightarrow> ops \<noteq> [] \<Longrightarrow>
     (\<exists>t i2 j2. hd ops = (t, i, i2, j, j2)) \<and> (\<exists>t i1 j1. last ops = (t, i1, i', j1, j'))"
proof (induction rule: parts.induct)
  case (part t i i2 j j2 ops i' j')
  then show ?case
    by (cases "ops = []") (auto elim: parts_NilE)
qed simp

text \<open>A header is one line.\<close>

lemma line_ends:
  "ends_line CHR 0x0A" "\<not> ends_line CHR '' ''" "\<not> ends_line CHR '',''" "\<not> ends_line CHR ''@''"
  "\<not> ends_line CHR ''+''" "\<not> ends_line CHR ''-''"
  by code_simp+

lemma first_line_plain: "\<forall>c \<in> set h. \<not> ends_line c \<Longrightarrow> first_line (h @ CHR 0x0A # r) = (h @ [CHR 0x0A], r)"
  by (induction h) (auto simp: line_ends)

lemma digit_plain: "is_digit09 c \<Longrightarrow> \<not> ends_line c"
  by (auto simp: ends_line_def is_digit09_def)

lemma range_plain: "c \<in> set (format_range i1 i2) \<Longrightarrow> \<not> ends_line c"
  by (auto simp: format_range_def line_ends split: if_splits dest!: show_nat_digits digit_plain)

lemma hunks_ok_le: "hunks_ok a b i j gs \<Longrightarrow> i \<le> length a \<and> j \<le> length b"
  by (induction rule: hunks_ok.induct) (auto simp: same_part_def dest!: parts_le)

lemma patch_header:
  assumes "i0 \<le> i1"
  shows "patch a i ((''@@ -'' @ format_range i0 i1 @ '' +'' @ format_range j0 j1 @ '' @@'' @ [CHR 0x0A]) @ r)
    = segment i i0 a @ patch a i0 r"
proof -
  let ?h = "''@ -'' @ format_range i0 i1 @ '' +'' @ format_range j0 j1 @ '' @@''"
  have "\<forall>c \<in> set ?h. \<not> ends_line c"
    using range_plain by (auto simp: line_ends)
  then have "first_line (?h @ CHR 0x0A # r) = (?h @ [CHR 0x0A], r)"
    by (rule first_line_plain)
  moreover have "hunk_start (CHR ''@'' # ?h @ [CHR 0x0A]) = i0"
    using hunk_start_header [OF assms, of "''+'' @ format_range j0 j1 @ '' @@'' @ [CHR 0x0A]"] by simp
  ultimately show ?thesis
    by (simp add: patch.simps(2))
qed

lemma patch_hunks:
  assumes "lines_ok b"
  shows "hunks_ok a b i j gs \<Longrightarrow> patch a i (concat (concat (map (group_lines a b) gs))) = segment j (length b) b"
proof (induction rule: hunks_ok.induct)
  case (no_hunk i j)
  then have "segment i (length a) a = segment j (length b) b"
    by (intro segment_eq) (auto simp: same_part_def)
  then show ?case
    by (simp add: segment_def)
next
  case (hunk i i0 j j0 g i1 j1 gs)
  let ?r = "concat (concat (map (group_lines a b) gs))"
  have le: "i1 \<le> length a" "j1 \<le> length b" "i0 \<le> i1" "j0 \<le> j1" "j \<le> j0"
    using hunks_ok_le [OF hunk.hyps(6)] parts_le [OF hunk.hyps(3)] hunk.hyps(1) by (simp_all add: same_part_def)
  obtain t i2 j2 t' i3 j3 where ends: "hd g = (t, i0, i2, j0, j2)" "last g = (t', i3, i1, j3, j1)"
    using parts_ends [OF hunk.hyps(3,2)] by blast
  have fits: "fits ?r"
    by (cases gs) (auto simp: fits_def group_lines_def split: prod.splits)
  have "patch a i (concat (group_lines a b g) @ ?r)
      = segment i i0 a @ patch a i0 (concat (concat (map (op_lines a b) g)) @ ?r)"
    using patch_header [OF le(3)] ends by (simp add: group_lines_def)
  also have "patch a i0 (concat (concat (map (op_lines a b) g)) @ ?r) = segment j0 j1 b @ patch a i1 ?r"
    using patch_parts [OF assms hunk.hyps(3) le(1,2) hunk.hyps(4) fits] hunk.hyps(5) by simp
  also have "segment i i0 a = segment j j0 b"
    using hunk.hyps(1) le by (intro segment_eq) (auto simp: same_part_def)
  finally show ?case
    using hunk.IH segment_append [OF le(4,2), of b] segment_append [OF le(5), of "length b" b] le by simp
qed

text \<open>
  C11: The difference says everything: from the plan and the text of the difference a reader rebuilds
  the edited plan, character for character, whatever the two texts are.
\<close>

theorem difference_rebuilds: "apply_diff original (get_diff original edited) = edited"
proof (cases "get_grouped_opcodes 2 (keep_lines original) (keep_lines edited) = []")
  case True
  then have "keep_lines original = keep_lines edited"
    using unified_diff_Nil [of 2 "[]" "[]" "keep_lines original" "keep_lines edited"]
    by (simp add: unified_diff_def Let_def)
  then have "original = edited"
    using concat_keep_lines by metis
  then show ?thesis
    using True by (simp add: get_diff_def unified_diff_def apply_diff_def concat_keep_lines)
next
  case False
  let ?a = "keep_lines original" and ?b = "keep_lines edited"
  let ?r = "concat (concat (map (group_lines ?a ?b) (get_grouped_opcodes 2 ?a ?b)))"
  have "get_diff original edited = ''--- original'' @ CHR 0x0A # (''+++ annotated'' @ CHR 0x0A # ?r)"
    using False by (simp add: get_diff_def unified_diff_def Let_def)
  moreover have "\<forall>c \<in> set ''--- original''. \<not> ends_line c" "\<forall>c \<in> set ''+++ annotated''. \<not> ends_line c"
    by code_simp+
  ultimately have "apply_diff original (get_diff original edited) = concat (patch ?a 0 ?r)"
    by (simp only: apply_diff_def first_line_plain snd_conv)
  also have "\<dots> = concat ?b"
    using patch_hunks [OF lines_ok_keep_lines hunks_ok_groups] by (simp add: segment_def)
  finally show ?thesis
    by (simp add: concat_keep_lines)
qed

end
