(* ===== verification/Plan_Properties.thy ===== *)
theory Plan_Properties
  imports Plan_Review Plan_Diff
begin

text \<open>
  The properties of the two plan review hooks and of their composition: what the editor command
  means to a shell, the verdict on an edited plan, that no temporary copy stays behind, when the
  hook returns, and what the hash file does.
\<close>

section \<open>Lemmas\<close>

lemma keep_lines_inject: "keep_lines a = keep_lines b \<longleftrightarrow> a = b"
  by (metis concat_keep_lines)

lemma get_diff_Nil: "get_diff a b = [] \<longleftrightarrow> a = b"
  unfolding get_diff_def unified_diff_empty by (rule keep_lines_inject)

text \<open>A text that is one of the parts of a concatenation is within it.\<close>

lemma concat_sublist: "x \<in> set xs \<Longrightarrow> sublist x (concat xs)"
proof -
  assume "x \<in> set xs"
  then obtain ys zs where "xs = ys @ x # zs"
    by (auto simp: in_set_conv_decomp)
  then show ?thesis
    by (auto simp: sublist_def)
qed

lemma universal_no_return: "CHR 0x0D \<notin> set (universal s)"
  by (induction s rule: universal.induct) (auto simp: nl_def split: list.splits)

lemma universal_id: "CHR 0x0D \<notin> set s \<Longrightarrow> universal s = s"
  by (induction s) auto

lemma run_frame [simp]:
  "penv (fst (run cmd m)) = penv m" "which (fst (run cmd m)) = which m" "polls (fst (run cmd m)) = polls m"
  "ran (fst (run cmd m)) = ran m @ [cmd]"
  "program (fst (run cmd m)) = program m"
  by (simp_all add: run_def split: prod.splits)

lemma await_found: "p (n + k) \<Longrightarrow> \<exists>i. await p n = Some i"
proof (induction k arbitrary: n)
  case 0
  then show ?case
    by (simp add: await.simps)
next
  case (Suc k)
  then show ?case
    using Suc.IH [of "n + 1"] by (subst await.simps) auto
qed

lemma await_sound: "await p n = Some i \<Longrightarrow> p i"
  by (rule await.raw_induct [of "\<lambda>p n i. p i"]) (auto split: if_splits)

lemma await_iff: "await p 0 = None \<longleftrightarrow> (\<forall>i. \<not> p i)"
  using await_found [of p 0] await_sound [of p 0] by (metis add_0 not_None_eq)

section \<open>The editor command\<close>

text \<open>
  C32: To a shell the command that opens the editor is exactly: the program of the editor variable,
  replaced by its absolute path where it is found, the other words of the variable, and the file;
  a variable that is empty or has an open quote counts as \<open>vi\<close>.
\<close>

theorem editor_command_words:
  "\<exists>p ps. shlex_split (build_editor_cmd m editor @ '' '' @ shlex_quote filepath)
       = Some ((if installed m p then the (which m p) else p) # ps @ [filepath]) \<and>
     p # ps = (case shlex_split editor of None \<Rightarrow> [''vi''] | Some [] \<Rightarrow> [''vi''] | Some (q # qs) \<Rightarrow> q # qs)"
proof -
  define parts where
    "parts = (case shlex_split editor of None \<Rightarrow> [''vi''] | Some [] \<Rightarrow> [''vi''] | Some (q # qs) \<Rightarrow> q # qs)"
  obtain p ps where p: "parts = p # ps"
    by (cases parts) (auto simp: parts_def split: option.splits list.splits)
  have alt: "(case shlex_split editor of Some (p # ps) \<Rightarrow> p # ps | _ \<Rightarrow> [''vi'']) = parts"
    by (auto simp: parts_def split: option.splits list.splits)
  let ?ws = "(if installed m p then the (which m p) else p) # ps"
  have "build_editor_cmd m editor = join '' '' (map shlex_quote ?ws)"
    unfolding build_editor_cmd_def Let_def alt p by simp
  moreover have "join '' '' (map shlex_quote (ws @ [w])) = join '' '' (map shlex_quote ws) @ '' '' @ shlex_quote w"
    if "ws \<noteq> []" for ws w
    using that by (induction ws rule: induct_list012) simp_all
  ultimately have "build_editor_cmd m editor @ '' '' @ shlex_quote filepath
      = join '' '' (map shlex_quote (?ws @ [filepath]))"
    by (simp only: list.distinct simp_thms not_False_eq_True append_assoc)
  then have "shlex_split (build_editor_cmd m editor @ '' '' @ shlex_quote filepath) = Some (?ws @ [filepath])"
    by (simp only: split_quoted)
  then show ?thesis
    using p by (intro exI [of _ p] exI [of _ ps]) (simp add: parts_def)
qed

section \<open>The verdict on an edited plan\<close>

text \<open>What the editor leaves of the machine.\<close>

definition same_desk :: "desk \<Rightarrow> desk \<Rightarrow> bool" where
  "same_desk m m' \<longleftrightarrow> polls m' = polls m \<and> penv m' = penv m \<and> which m' = which m \<and>
     files m' = files m \<and> cwd m' = cwd m"

lemma same_desk_trans: "same_desk a b \<Longrightarrow> same_desk b c \<Longrightarrow> same_desk a c"
  by (simp add: same_desk_def)

lemma same_desk_run: "same_desk m (fst (run cmd m))"
  by (simp add: same_desk_def run_def split: prod.splits)

lemma same_desk_agterm: "same_desk m (agterm_overlay cmd m)"
  unfolding agterm_overlay_def Let_def by (intro same_desk_trans [OF _ same_desk_run] same_desk_run)

lemma same_desk_wait: "wait_overlay launch cmd m = Some m' \<Longrightarrow> same_desk m m'"
  by (auto simp: wait_overlay_def new_temp_def same_desk_def run_def Let_def split: prod.splits option.splits)

lemma same_desk_refl: "same_desk m m"
  by (simp add: same_desk_def)

lemma same_desk_run_pair: "run cmd m = (m', rc) \<Longrightarrow> same_desk m m'"
  using same_desk_run [of m cmd] by simp

lemma same_desk_editor: "open_editor m f w = Some (m', rc) \<Longrightarrow> same_desk m m'"
  by (auto simp: open_editor_def Let_def split: if_splits
      intro: same_desk_refl same_desk_run_pair same_desk_agterm same_desk_wait)

lemma open_editor_waits: "open_editor m f w = None \<Longrightarrow> \<not> polls m i"
proof -
  have "wait_overlay launch cmd m = None \<Longrightarrow> \<not> polls m i" for launch cmd
    by (auto simp: wait_overlay_def new_temp_def run_def Let_def await_iff split: prod.splits option.splits)
  then show "open_editor m f w = None \<Longrightarrow> \<not> polls m i"
    by (auto simp: open_editor_def Let_def split: if_splits)
qed

text \<open>
  C33: When the editor has closed and left a text in the copy of the plan, the hook answers ask if
  that text, its line ends made newlines, is the plan, and else deny with the difference as the
  reason; the copy is gone.
\<close>

theorem hook_verdict:
  assumes on: "\<not> review_disabled m" "plan \<noteq> []" and tmp: "new_temp m = (tmp, m1)"
    and ed: "open_editor (write_temp tmp plan m1) tmp True = Some (m2, 0)" "map_of (temps m2) tmp = Some text"
  shows "run_hook_mode m (Some (plan_event plan)) =
    Some (unlink_temp tmp m2,
      Inr (if universal text = plan then make_response ''ask'' ''plan reviewed, no changes''
           else make_response ''deny'' (feedback (get_diff plan (universal text)))))"
proof -
  have "read_plan_from_stdin (Some (plan_event plan)) = Inr (JStr plan)"
    by (simp add: read_plan_from_stdin_def plan_event_def)
  then show ?thesis
    using on tmp ed get_diff_Nil [of plan "universal text"]
    by (auto simp: run_hook_mode_def review_temp_def read_temp_def Let_def)
qed

text \<open>A sample desk: agterm and an editor that appends a word.\<close>

definition sample_program :: "string list \<Rightarrow> (string \<times> string) list \<Rightarrow> int \<times> (string \<times> string) list" where
  "sample_program cmd ts =
     (if ''overlay'' \<in> set cmd then (0, map (\<lambda>(k, v). (k, v @ ''note'')) ts) else (0, ts))"

definition sample_desk :: desk where
  "sample_desk =
     \<lparr>files = [], cwd = [], home = ''/home/u'', users = [], clock = 0, denied = [],
      penv = [(''AGTERM_SESSION_ID'', ''s1''), (''EDITOR'', ''vim -f'')],
      which = (\<lambda>p. Some (''/usr/bin/'' @ p)), temp_name = (\<lambda>n. if n = 0 then ''/tmp/plan-0'' else ''/tmp/plan-1''), temps_made = 0,
      temps = [], ran = [], program = sample_program, polls = (\<lambda>i. False), meanwhile = (\<lambda>ts. ts)\<rparr>"

definition sample_opened :: desk where
  "sample_opened = fst (the (open_editor (write_temp ''/tmp/plan-0'' ''do it'' (sample_desk\<lparr>temps_made := 1\<rparr>))
     ''/tmp/plan-0'' True))"

theorem hook_verdict_witness:
  "run_hook_mode sample_desk (Some (plan_event ''do it'')) =
    Some (unlink_temp ''/tmp/plan-0'' sample_opened,
      Inr (if universal ''do itnote'' = ''do it'' then make_response ''ask'' ''plan reviewed, no changes''
           else make_response ''deny'' (feedback (get_diff ''do it'' (universal ''do itnote'')))))"
proof (rule hook_verdict)
  show "\<not> review_disabled sample_desk" "''do it'' \<noteq> []"
    by code_simp+
  show "new_temp sample_desk = (''/tmp/plan-0'', sample_desk\<lparr>temps_made := 1\<rparr>)"
    by (simp add: new_temp_def sample_desk_def)
  have "map_option snd (open_editor (write_temp ''/tmp/plan-0'' ''do it'' (sample_desk\<lparr>temps_made := 1\<rparr>))
      ''/tmp/plan-0'' True) = Some 0"
    by code_simp
  then show "open_editor (write_temp ''/tmp/plan-0'' ''do it'' (sample_desk\<lparr>temps_made := 1\<rparr>)) ''/tmp/plan-0'' True
      = Some (sample_opened, 0)"
    by (auto simp: sample_opened_def)
  show "map_of (temps sample_opened) ''/tmp/plan-0'' = Some ''do itnote''"
    by code_simp
qed

text \<open>
  C34: The difference shows every edit: a line of the edited plan that the plan does not have is
  in it behind a plus sign; the other way round, a line that was taken out is behind a minus sign.
\<close>

theorem edits_shown:
  assumes "line \<in> set (keep_lines edited)" "line \<notin> set (keep_lines original)"
  shows "sublist (CHR ''+'' # line) (get_diff original edited) \<and> sublist (CHR ''-'' # line) (get_diff edited original)"
  unfolding get_diff_def using added_shown [OF assms] removed_shown [OF assms] by (simp add: concat_sublist)

theorem edits_shown_witness:
  "sublist (CHR ''+'' # ''no'') (get_diff ''do it'' ([CHR ''d'', CHR ''o'', nl] @ ''no'')) \<and>
   sublist (CHR ''-'' # ''no'') (get_diff ([CHR ''d'', CHR ''o'', nl] @ ''no'') ''do it'')"
proof (rule edits_shown)
  show "''no'' \<in> set (keep_lines ([CHR ''d'', CHR ''o'', nl] @ ''no''))"
    by code_simp
  show "''no'' \<notin> set (keep_lines ''do it'')"
    by code_simp
qed

text \<open>
  C35: The hook returns unless it waits for an editor that never closes: it does so whenever the
  sentinel file appears at some look, whatever the payload and the terminal.
\<close>

theorem hook_returns:
  assumes "polls m i"
  shows "run_hook_mode m input \<noteq> None"
proof -
  have "open_editor (write_temp tmp plan m1) tmp True \<noteq> None" if "new_temp m = (tmp, m1)" for tmp plan m1
  proof -
    have "polls (write_temp tmp plan m1) i"
      using assms that by (auto simp: write_temp_def new_temp_def)
    then show ?thesis
      using open_editor_waits by blast
  qed
  then show ?thesis
    by (auto simp: run_hook_mode_def Let_def simp del: not_None_eq split: sum.splits prod.splits option.splits)
qed

theorem hook_returns_witness:
  "run_hook_mode (sample_desk\<lparr>polls := (\<lambda>i. i = 7)\<rparr>) (Some (plan_event ''do it'')) \<noteq> None"
  by (rule hook_returns [of _ 7]) simp

text \<open>
  No copy of a plan stays behind: when the hook, on a plan that is a text, or the file mode
  returns, the temporary file it made is gone, whatever the editor and the terminal did.
\<close>

theorem copy_removed:
  assumes "(\<exists>r. run_hook_mode m (Some (plan_event plan)) = Some (m', r)) \<or> (\<exists>r. run_file_mode m plan_file = Some (m', r))"
    and "map_of (temps m) (temp_name m (temps_made m)) = None"
  shows "map_of (temps m') (temp_name m (temps_made m)) = None"
  using assms
  by (auto simp: run_hook_mode_def run_file_mode_def read_plan_from_stdin_def plan_event_def new_temp_def
      unlink_temp_def entry_store.get_del Let_def split: if_splits option.splits prod.splits)

theorem copy_removed_witness:
  "map_of (temps (fst (the (run_hook_mode sample_desk (Some (plan_event ''do it''))))))
     (temp_name sample_desk (temps_made sample_desk)) = None"
proof (rule copy_removed)
  have "run_hook_mode sample_desk (Some (plan_event ''do it'')) \<noteq> None"
    by code_simp
  then show "(\<exists>r. run_hook_mode sample_desk (Some (plan_event ''do it'')) =
        Some (fst (the (run_hook_mode sample_desk (Some (plan_event ''do it'')))), r)) \<or>
      (\<exists>r. run_file_mode sample_desk [] = Some (fst (the (run_hook_mode sample_desk (Some (plan_event ''do it'')))), r))"
    by auto
  show "map_of (temps sample_desk) (temp_name sample_desk (temps_made sample_desk)) = None"
    by (simp add: sample_desk_def)
qed

text \<open>
  A plan with a carriage return is denied although the user left it as it was.
\<close>

theorem unedited_plan_denied:
  assumes "CHR 0x0D \<in> set plan" and on: "\<not> review_disabled m" and tmp: "new_temp m = (tmp, m1)"
    and ed: "open_editor (write_temp tmp plan m1) tmp True = Some (m2, 0)" "map_of (temps m2) tmp = Some plan"
  shows "\<exists>m' d. run_hook_mode m (Some (plan_event plan)) = Some (m', Inr (make_response ''deny'' (feedback d)))"
proof -
  have "plan \<noteq> []"
    using assms(1) by auto
  moreover have "universal plan \<noteq> plan"
    using universal_no_return [of plan] assms(1) by auto
  ultimately show ?thesis
    using hook_verdict [OF on _ tmp ed] by (intro exI) simp
qed

definition still_desk :: desk where
  "still_desk = sample_desk\<lparr>program := (\<lambda>cmd ts. (0, ts))\<rparr>"

definition still_opened :: desk where
  "still_opened = fst (the (open_editor (write_temp ''/tmp/plan-0'' [CHR ''a'', CHR 0x0D, CHR 0x0A]
     (still_desk\<lparr>temps_made := 1\<rparr>)) ''/tmp/plan-0'' True))"

theorem unedited_plan_denied_witness:
  "\<exists>m' d. run_hook_mode still_desk (Some (plan_event [CHR ''a'', CHR 0x0D, CHR 0x0A]))
     = Some (m', Inr (make_response ''deny'' (feedback d)))"
proof (rule unedited_plan_denied)
  show "CHR 0x0D \<in> set [CHR ''a'', CHR 0x0D, CHR 0x0A]"
    by simp
  show "\<not> review_disabled still_desk"
    by code_simp
  show "new_temp still_desk = (''/tmp/plan-0'', still_desk\<lparr>temps_made := 1\<rparr>)"
    by (simp add: new_temp_def still_desk_def sample_desk_def)
  have "map_option snd (open_editor (write_temp ''/tmp/plan-0'' [CHR ''a'', CHR 0x0D, CHR 0x0A]
      (still_desk\<lparr>temps_made := 1\<rparr>)) ''/tmp/plan-0'' True) = Some 0"
    by code_simp
  then show "open_editor (write_temp ''/tmp/plan-0'' [CHR ''a'', CHR 0x0D, CHR 0x0A] (still_desk\<lparr>temps_made := 1\<rparr>))
      ''/tmp/plan-0'' True = Some (still_opened, 0)"
    by (auto simp: still_opened_def)
  show "map_of (temps still_opened) ''/tmp/plan-0'' = Some [CHR ''a'', CHR 0x0D, CHR 0x0A]"
    by code_simp
qed

end
