(* ===== verification/Os_Tree.thy ===== *)
theory Os_Tree
  imports Os_Write
begin

text \<open>
  The file tree as a transition system: an entry is made in a directory, an empty directory is
  removed, or the content of a file is replaced. Every operation of the machine is a sequence of
  such steps, and the steps keep the tree well formed: each entry has a proper name and is in a
  directory, and no entry is there twice.
\<close>

section \<open>Well-formed trees\<close>

definition tree_ok :: "tree \<Rightarrow> bool" where
  "tree_ok fs \<longleftrightarrow> distinct (map fst fs) \<and>
     list_all (\<lambda>(e, n). e \<noteq> [] \<and> clean_comp (last e) \<and> lookup fs (butlast e) = Some Dir) fs"

lemma tree_ok_iff:
  "tree_ok fs \<longleftrightarrow> distinct (map fst fs) \<and>
     (\<forall>e n. map_of fs e = Some n \<longrightarrow> e \<noteq> [] \<and> clean_comp (last e) \<and> lookup fs (butlast e) = Some Dir)"
  by (auto simp: tree_ok_def list_all_iff map_of_eq_Some_iff) (metis map_of_SomeD | blast)+

text \<open>In a well-formed tree every directory is reached through directories.\<close>

lemma tree_ok_solid: "tree_ok fs \<Longrightarrow> lookup fs p = Some Dir \<Longrightarrow> solid fs p"
proof (induction p rule: rev_induct)
  case (snoc c p)
  then have "map_of fs (p @ [c]) = Some Dir"
    by (simp add: lookup_def)
  then show ?case
    using snoc by (fastforce simp: tree_ok_iff solid_snoc)
qed simp

section \<open>Steps\<close>

inductive tree_step :: "tree \<Rightarrow> tree \<Rightarrow> bool" where
  make: "lookup fs d = Some Dir \<Longrightarrow> clean_comp c \<Longrightarrow> map_of fs (d @ [c]) = None \<Longrightarrow>
    tree_step fs (put_entry (d @ [c]) n fs)"
| remove: "map_of fs e = Some Dir \<Longrightarrow> children fs e = [] \<Longrightarrow> tree_step fs (del_entry e fs)"
| rewrite: "map_of fs e = Some (File old t) \<Longrightarrow> tree_step fs (put_entry e (File new t') fs)"

lemma distinct_put: "distinct (map fst fs) \<Longrightarrow> distinct (map fst (put_entry e n fs))"
  by (simp add: put_entry_def distinct_map inj_on_def) auto

lemma distinct_del: "distinct (map fst fs) \<Longrightarrow> distinct (map fst (del_entry e fs))"
  by (simp add: del_entry_def distinct_map inj_on_def)

lemma tree_step_ok: "tree_step fs fs' \<Longrightarrow> tree_ok fs \<Longrightarrow> tree_ok fs'"
proof (induction rule: tree_step.induct)
  case (make fs d c n)
  let ?fs = "put_entry (d @ [c]) n fs"
  have "lookup ?fs p = Some Dir" if "lookup fs p = Some Dir" for p
    using make.hyps(3) that by (auto simp: lookup_def entry_store.get_put)
  then show ?case
    using make by (auto simp: tree_ok_iff entry_store.get_put distinct_put split: if_splits)
next
  case (remove fs e)
  have "k \<noteq> [] \<and> clean_comp (last k) \<and> lookup (del_entry e fs) (butlast k) = Some Dir"
    if "map_of (del_entry e fs) k = Some n" for k n
  proof -
    have k: "map_of fs k = Some n"
      using that by (simp add: entry_store.get_del split: if_splits)
    then have "k \<noteq> [] \<and> clean_comp (last k) \<and> lookup fs (butlast k) = Some Dir"
      using remove.prems unfolding tree_ok_iff by blast
    moreover have "butlast k \<noteq> e"
      using remove.hyps(2) k calculation unfolding children_Nil by force
    ultimately show ?thesis
      by (auto simp: lookup_def entry_store.get_del split: if_splits)
  qed
  moreover have "distinct (map fst (del_entry e fs))"
    using remove.prems by (intro distinct_del) (simp only: tree_ok_iff)
  ultimately show ?case
    by (simp only: tree_ok_iff) blast
next
  case (rewrite fs e old t new t')
  have "e \<noteq> []"
    using rewrite by (auto simp: tree_ok_iff)
  then have "lookup (put_entry e (File new t') fs) p = Some Dir" if "lookup fs p = Some Dir" for p
    using rewrite.hyps that by (auto simp: lookup_def entry_store.get_put)
  then show ?case
    using rewrite by (auto simp: tree_ok_iff entry_store.get_put distinct_put split: if_splits)
qed

lemma tree_steps_ok: "tree_step\<^sup>*\<^sup>* fs fs' \<Longrightarrow> tree_ok fs \<Longrightarrow> tree_ok fs'"
  by (induction rule: rtranclp_induct) (auto intro: tree_step_ok)

section \<open>The operations are steps\<close>

lemma entry_of_new:
  assumes "entry_of m p = Some e"
  shows "\<exists>d c. e = d @ [c] \<and> lookup (files m) d = Some Dir \<and> clean_comp c"
proof -
  note walk = entry_of_walk [OF assms]
  have "last (comps_of p) \<in> set (comps_of p)"
    by (rule last_in_set) (simp add: comps_of_def)
  then have "clean_comp (last (comps_of p))"
    using walk slash_free_comps_of [of p] by (auto simp: clean_comp_def slash_free_def list_all_iff)
  then show ?thesis
    using walk by blast
qed

lemma put_new_steps:
  "entry_of m p = Some e \<Longrightarrow> map_of (files m) e = None \<Longrightarrow> tree_step\<^sup>*\<^sup>* (files m) (put_entry e n (files m))"
  using entry_of_new make by blast

lemma mkdir_steps: "mkdir m p = (m', ok) \<Longrightarrow> tree_step\<^sup>*\<^sup>* (files m) (files m')"
  by (auto simp: mkdir_def put_new_steps split: option.splits if_splits)

lemma symlink_steps: "symlink m t p = (m', ok) \<Longrightarrow> tree_step\<^sup>*\<^sup>* (files m) (files m')"
  by (auto simp: symlink_def put_new_steps split: option.splits if_splits)

lemma remove_steps: "map_of fs e = Some Dir \<Longrightarrow> children fs e = [] \<Longrightarrow> tree_step\<^sup>*\<^sup>* fs (del_entry e fs)"
  by (rule r_into_rtranclp) (rule remove)

lemma rmdir_steps: "rmdir m p = (m', ok) \<Longrightarrow> tree_step\<^sup>*\<^sup>* (files m) (files m')"
  by (auto simp: rmdir_def remove_steps split: option.splits if_splits)

lemma rewrite_steps: "map_of fs e = Some (File old t) \<Longrightarrow> tree_step\<^sup>*\<^sup>* fs (put_entry e (File new t') fs)"
  by (rule r_into_rtranclp) (rule rewrite)

lemma write_text_steps: "write_text m p t = (m', ok) \<Longrightarrow> tree_step\<^sup>*\<^sup>* (files m) (files m')"
  by (auto simp: write_text_def stat_node_def lookup_def put_new_steps intro: rewrite_steps
      split: prod.splits option.splits node.splits if_splits)

lemma makedirs_steps: "makedirs m p = (m', ok) \<Longrightarrow> tree_step\<^sup>*\<^sup>* (files m) (files m')"
proof (induction m p arbitrary: m' ok rule: makedirs.induct)
  case (1 m p)
  obtain head tail where ht: "split_tail p = (head, tail)"
    by (cases "split_tail p")
  let ?deep = "head \<noteq> [] \<and> tail \<noteq> [] \<and> \<not> path_exists m head"
  obtain m1 ok1 where r: "(if ?deep then makedirs m head else (m, True)) = (m1, ok1)"
    by (cases "if ?deep then makedirs m head else (m, True)")
  have m1: "tree_step\<^sup>*\<^sup>* (files m) (files m1)"
    using "1.IH" [OF ht [symmetric]] r by (auto split: if_splits)
  obtain m2 made where m2: "mkdir m1 p = (m2, made)"
    by (cases "mkdir m1 p")
  have "tree_step\<^sup>*\<^sup>* (files m) (files m2)"
    using m1 mkdir_steps [OF m2] by (rule rtranclp_trans)
  then show ?case
    using "1.prems"(1) r m1 m2 by (auto simp: makedirs.simps [of m p] ht split: if_splits)
qed

end
