(* ===== verification/Review_Properties.thy ===== *)
theory Review_Properties
  imports Plan_Properties Os_Tree
begin

text \<open>
  The properties of \<open>plan-review-hook.py\<close> with \<open>plan-annotate.py\<close> as its fallback: a plan that was
  allowed is not opened again, the verdict of the editor is passed on, and a plan that no one saw
  counts as reviewed.
\<close>

section \<open>Lemmas\<close>

lemma hex_plain: "hex_char c \<Longrightarrow> \<not> is_space c \<and> c \<noteq> CHR 0x0D"
  by (auto simp: hex_char_def is_space_code)

lemma strip_none: "\<forall>c \<in> set s. \<not> P c \<Longrightarrow> strip P s = s"
proof -
  assume none: "\<forall>c \<in> set s. \<not> P c"
  have "dropWhile P s = s" "dropWhile P (rev s) = rev s"
    using none by (simp_all add: dropWhile_eq_self_iff hd_rev disj_imp)
  then show ?thesis
    by (simp add: strip_def lstrip_def rstrip_def)
qed

lemma hash_read_back:
  assumes "list_all hex_char h"
  shows "trim (universal h) = h"
proof -
  have "\<forall>c \<in> set h. \<not> is_space c" "\<forall>c \<in> set h. c \<noteq> CHR 0x0D"
    using assms hex_plain by (simp_all only: list_all_iff) blast+
  then have "universal h = h" "trim h = h"
    using universal_id [of h] strip_none [of h is_space] by blast+
  then show ?thesis
    by simp
qed

text \<open>What stays the same on the way to the answer.\<close>

lemma str_arg_Inr: "str_arg v = Inr s \<longleftrightarrow> v = JStr s"
  by (cases v) auto

definition same_review :: "review_desk \<Rightarrow> review_desk \<Rightarrow> bool" where
  "same_review m m' \<longleftrightarrow> files m' = files m \<and> cwd m' = cwd m \<and> penv m' = penv m \<and> clock m' = clock m"

lemma same_put_desk: "same_review m m1 \<Longrightarrow> same_review m (put_desk d m1)"
  by (simp add: same_review_def put_desk_def)

lemma same_revdiff: "try_revdiff m c = Inr (m1, r) \<Longrightarrow> same_review m m1"
  by (auto simp: try_revdiff_def same_review_def Let_def split: if_splits option.splits prod.splits)

lemma response_inject: "stop_response d r = stop_response d' r' \<longleftrightarrow> d = d' \<and> r = r'"
  by (auto simp: stop_response_def)

text \<open>An allowing answer has kept the hash, unless there was no tool.\<close>

definition no_tool :: string where
  "no_tool = ''no review tool available (revdiff not installed, plan-annotate.py not found)''"

definition hash_kept :: "review_desk \<Rightarrow> string \<Rightarrow> string \<Rightarrow> review_desk \<Rightarrow> bool" where
  "hash_kept m hash_file h m' \<longleftrightarrow> (\<exists>m2. same_review m m2 \<and> write_text m2 hash_file h = (m', True))"

lemma keep_hash_kept:
  "keep_hash hash_file h answer m1 = (m', Inr r) \<Longrightarrow> same_review m m1 \<Longrightarrow> hash_kept m hash_file h m'"
  by (auto simp: keep_hash_def hash_kept_def split: prod.splits if_splits)

lemma fallback_kept:
  assumes "fallback_answer hash_file h out m1 = (m', Inr (stop_response ''allow'' reason))" "same_review m m1"
  shows "hash_kept m hash_file h m'"
proof (cases out)
  case (Inl e)
  then show ?thesis
    using assms keep_hash_kept by (auto simp: fallback_answer_def)
next
  case (Inr v)
  then show ?thesis
    using assms keep_hash_kept
    by (auto simp: fallback_answer_def response_inject split: sum.splits if_splits)
qed

lemma review_kept:
  assumes "review_plan m hash_file h c = (m', Inr (stop_response ''allow'' reason))" "reason \<noteq> no_tool"
  shows "hash_kept m hash_file h m'"
proof (cases "try_revdiff m c")
  case (Inl e)
  then show ?thesis
    using assms by (simp add: review_plan_def)
next
  case (Inr r)
  obtain m1 a where r: "r = (m1, a)"
    by (cases r)
  note same = same_revdiff [OF Inr [unfolded r]]
  show ?thesis
  proof (cases a)
    case (Some annotations)
    then show ?thesis
      using assms(1) Inr r same keep_hash_kept by (auto simp: review_plan_def response_inject split: if_splits)
  next
    case None
    let ?script = "path_join (path_join (plugin_root m1) ''scripts'') ''plan-annotate.py''"
    have "path_exists m1 ?script"
      using assms Inr r None by (auto simp: review_plan_def response_inject no_tool_def split: if_splits)
    then obtain d out where "run_hook_mode (as_desk m1) (Some (plan_event c)) = Some (d, out)"
        "fallback_answer hash_file h out (put_desk d m1) = (m', Inr (stop_response ''allow'' reason))"
      using assms(1) Inr r None by (auto simp: review_plan_def split: option.splits prod.splits)
    then show ?thesis
      using fallback_kept same_put_desk [OF same] by blast
  qed
qed

section \<open>What the hook writes\<close>

text \<open>The hash was written, and the answer allows.\<close>

definition hash_written :: "review_desk \<Rightarrow> string \<Rightarrow> string \<Rightarrow> review_desk \<Rightarrow> json result \<Rightarrow> bool" where
  "hash_written m hash_file h m' r \<longleftrightarrow> hash_kept m hash_file h m' \<and> (\<exists>reason. r = Inr (stop_response ''allow'' reason))"

lemma keep_hash_written:
  assumes "keep_hash hash_file h (stop_response ''allow'' reason) m1 = (m', r)" "same_review m m1"
  shows "files m' = files m \<or> hash_written m hash_file h m' r"
proof -
  obtain ok where w: "write_text m1 hash_file h = (m', ok)" and r: "r = (if ok then Inr (stop_response ''allow'' reason) else Inl OSError)"
    using assms(1) by (auto simp: keep_hash_def split: prod.splits)
  have "files m' = files m1" if "\<not> ok"
    using w that by (auto simp: write_text_def split: prod.splits option.splits node.splits if_splits)
  then show ?thesis
    using w r assms(2) by (cases ok) (auto simp: hash_written_def hash_kept_def same_review_def)
qed

lemma fallback_written:
  assumes "fallback_answer hash_file h out m1 = (m', r)" "same_review m m1"
  shows "files m' = files m \<or> hash_written m hash_file h m' r"
  using assms keep_hash_written
  by (auto simp: fallback_answer_def same_review_def split: sum.splits prod.splits if_splits)

lemma review_plan_written:
  assumes "review_plan m hash_file h c = (m', r)"
  shows "files m' = files m \<or> hash_written m hash_file h m' r"
proof (cases "try_revdiff m c")
  case (Inl e)
  then show ?thesis
    using assms by (simp add: review_plan_def)
next
  case (Inr a)
  obtain m1 x where a: "a = (m1, x)"
    by (cases a)
  note same = same_revdiff [OF Inr [unfolded a]]
  show ?thesis
  proof (cases x)
    case (Some annotations)
    then show ?thesis
      using assms Inr a same keep_hash_written
      by (auto simp: review_plan_def same_review_def split: if_splits)
  next
    case None
    then consider "files m' = files m1" | d out where "fallback_answer hash_file h out (put_desk d m1) = (m', r)"
      using assms Inr a by (auto simp: review_plan_def split: option.splits prod.splits if_splits)
    then show ?thesis
      using fallback_written same_put_desk [OF same] same by cases (auto simp: same_review_def)
  qed
qed

lemma hash_kept_steps: "hash_kept m hash_file h m' \<Longrightarrow> tree_step\<^sup>*\<^sup>* (files m) (files m')"
  by (auto simp: hash_kept_def same_review_def dest!: write_text_steps)

lemma main_review_tree: "main_review m input = (m', r) \<Longrightarrow> tree_step\<^sup>*\<^sup>* (files m) (files m')"
  by (auto simp: main_review_def Let_def hash_written_def split: sum.splits option.splits if_splits
      dest!: review_plan_written hash_kept_steps)

text \<open>A successful write changes one entry.\<close>

lemma write_text_put:
  "write_text m p content = (m', True) \<Longrightarrow> \<exists>e. map_of (files m') = (map_of (files m))(e \<mapsto> File content (clock m))"
  by (auto simp: write_text_def entry_store.get_put fun_eq_iff split: prod.splits option.splits node.splits if_splits)

lemma hash_kept_put:
  assumes "hash_kept m hash_file h m'" "rooted m"
  shows "(\<exists>e. map_of (files m') = (map_of (files m))(e \<mapsto> File h (clock m))) \<and> read_file m' hash_file = Some h"
proof -
  obtain m2 where m2: "same_review m m2" "write_text m2 hash_file h = (m', True)"
    using assms(1) by (auto simp: hash_kept_def)
  then have "rooted m2"
    using assms(2) by (simp add: same_review_def rooted_def)
  then show ?thesis
    using write_text_put [OF m2(2)] write_text_read [OF m2(2)] m2(1) by (auto simp: same_review_def)
qed

section \<open>Properties\<close>

definition context_of :: "string \<Rightarrow> json" where
  "context_of dir = JObj [(''artifactDirectoryPath'', JStr dir)]"

lemma main_review_steps:
  assumes "dir \<noteq> []" "read_text m (path_join dir ''implementation_plan.md'') = Some plan"
    "map_of (penv m) ''PLANNING_DISABLE_REVDIFF'' \<in> {None, Some []}"
  shows "main_review m (Some (context_of dir)) =
    (let hash_file = path_join dir ''.plan_reviewed.hash'' in
     if path_exists m hash_file \<and> \<not> is_file m hash_file then (m, Inl OSError)
     else if map_option trim (read_text m hash_file) = Some (sha256 plan)
     then (m, Inr (stop_response ''allow'' ''plan already reviewed and unchanged''))
     else review_plan m hash_file (sha256 plan) plan)"
proof -
  have "path_exists m (path_join dir ''implementation_plan.md'')"
    using assms(2) by (auto simp: read_text_def read_file_def path_exists_def split: option.splits)
  then show ?thesis
    using assms by (simp add: main_review_def context_of_def read_context_from_stdin_def Let_def)
qed

lemma plan_settled:
  assumes dir: "dir \<noteq> []" and plan: "read_text m (path_join dir ''implementation_plan.md'') = Some plan"
    and on: "map_of (penv m) ''PLANNING_DISABLE_REVDIFF'' \<in> {None, Some []}"
    and allow: "main_review m (Some (context_of dir)) = (m', Inr (stop_response ''allow'' reason))"
    and tool: "reason \<noteq> no_tool" and ok: "rooted m"
    and still: "read_text m' (path_join dir ''implementation_plan.md'') = Some plan"
  shows "main_review m' (Some (context_of dir)) =
    (m', Inr (stop_response ''allow'' ''plan already reviewed and unchanged''))"
proof -
  let ?hash = "path_join dir ''.plan_reviewed.hash''" and ?h = "sha256 plan"
  note first = main_review_steps [OF dir plan on]
  show ?thesis
  proof (cases "map_option trim (read_text m ?hash) = Some ?h")
    case True
    then have "m' = m"
      using allow first by (auto simp: Let_def split: if_splits)
    then show ?thesis
      using True allow first by (auto simp: Let_def response_inject split: if_splits)
  next
    case False
    then have "review_plan m ?hash ?h plan = (m', Inr (stop_response ''allow'' reason))"
      using allow first by (auto simp: Let_def split: if_splits)
    then have "hash_kept m ?hash ?h m'"
      using tool by (rule review_kept)
    then obtain m2 where m2: "same_review m m2" "write_text m2 ?hash ?h = (m', True)"
      unfolding hash_kept_def by blast
    have "rooted m2"
      using ok m2(1) by (simp add: rooted_def same_review_def)
    then have read: "read_file m' ?hash = Some ?h"
      by (rule write_text_read [OF m2(2)])
    obtain fs where "m' = m2\<lparr>files := fs\<rparr>"
      using write_text_frame [OF m2(2)] by blast
    then have same: "penv m' = penv m"
      using m2(1) by (simp add: same_review_def)
    have stored: "is_file m' ?hash" "read_text m' ?hash = Some (universal ?h)"
      using read by (auto simp: read_text_def read_file_def is_file_def split: option.splits node.splits)
    have "trim (universal ?h) = ?h"
      by (rule hash_read_back [OF sha256_hex])
    then show ?thesis
      using main_review_steps [OF dir still] on same stored by (simp add: Let_def)
  qed
qed

text \<open>
  C10: A plan that was allowed to pass is not opened again: when the hook allows it, for any reason
  but a missing review tool, the next run on the same plan allows it from the hash file alone.
\<close>

theorem allowed_plan_settled:
  assumes dir: "dir \<noteq> []" and plan: "read_text m (path_join dir ''implementation_plan.md'') = Some plan"
    and on: "map_of (penv m) ''PLANNING_DISABLE_REVDIFF'' \<in> {None, Some []}"
    and allow: "main_review m (Some (context_of dir)) = (m', Inr (stop_response ''allow'' reason))"
    and tool: "reason \<noteq> no_tool" and ok: "rooted m"
    and still: "read_text m' (path_join dir ''implementation_plan.md'') = Some plan"
  shows "main_review m' (Some (context_of dir)) =
    (m', Inr (stop_response ''allow'' ''plan already reviewed and unchanged''))"
  using assms by (rule plan_settled)

text \<open>A machine with a plan, the fallback script and no terminal at all.\<close>

definition sample_review :: review_desk where
  "sample_review =
     \<lparr>files = [([''a''], Dir), ([''a'', ''implementation_plan.md''], File ''do it'' 1), ([''p''], Dir),
               ([''p'', ''scripts''], Dir), ([''p'', ''scripts'', ''plan-annotate.py''], File [] 1)],
      cwd = [], home = ''/home/u'', users = [], clock = 5, denied = [],
      penv = [], which = (\<lambda>p. None), temp_name = (\<lambda>n. ''/tmp/plan-0''), temps_made = 0,
      temps = [], ran = [], program = (\<lambda>cmd ts. (0, ts)), polls = (\<lambda>i. False), meanwhile = (\<lambda>ts. ts),
      plugin_root = ''/p'', launcher = (\<lambda>cmd ts. None)\<rparr>"

definition unseen_reason :: string where
  "unseen_reason = no_overlay @ '', skipping plan annotation''"

text \<open>The digest of its plan, and the first run of the hook on it.\<close>

definition sample_digest :: string where
  "sample_digest = ''f51c362d5cc7defb17b2b1290bb8e9b5'' @
     ''a4d7e1319f85b90741ff3f8578fc6bba''"

lemma sha256_sample: "sha256 ''do it'' = sample_digest"
  by code_simp

definition reviewed :: review_desk where
  "reviewed = fst (review_plan sample_review ''/a/.plan_reviewed.hash'' sample_digest ''do it'')"

lemma first_run: "main_review sample_review (Some (context_of ''/a'')) = (reviewed, Inr (stop_response ''allow'' unseen_reason))"
proof -
  have plan: "read_text sample_review (path_join ''/a'' ''implementation_plan.md'') = Some ''do it''"
    by code_simp
  have "snd (review_plan sample_review ''/a/.plan_reviewed.hash'' sample_digest ''do it'')
      = Inr (stop_response ''allow'' unseen_reason)"
    by code_simp
  then have "review_plan sample_review ''/a/.plan_reviewed.hash'' sample_digest ''do it''
      = (reviewed, Inr (stop_response ''allow'' unseen_reason))"
    by (simp add: reviewed_def prod_eq_iff)
  moreover have "path_join ''/a'' ''.plan_reviewed.hash'' = ''/a/.plan_reviewed.hash''"
      "\<not> path_exists sample_review ''/a/.plan_reviewed.hash''" "read_text sample_review ''/a/.plan_reviewed.hash'' = None"
      "map_of (penv sample_review) ''PLANNING_DISABLE_REVDIFF'' \<in> {None, Some []}"
    by code_simp+
  ultimately show ?thesis
    using main_review_steps [OF _ plan] by (simp add: sha256_sample)
qed

theorem allowed_plan_settled_witness:
  "main_review reviewed (Some (context_of ''/a'')) =
     (reviewed, Inr (stop_response ''allow'' ''plan already reviewed and unchanged''))"
proof (rule allowed_plan_settled [where m = sample_review and plan = "''do it''" and reason = unseen_reason])
  show "''/a'' \<noteq> []"
    by simp
  show "read_text sample_review (path_join ''/a'' ''implementation_plan.md'') = Some ''do it''"
    "read_text reviewed (path_join ''/a'' ''implementation_plan.md'') = Some ''do it''"
    "map_of (penv sample_review) ''PLANNING_DISABLE_REVDIFF'' \<in> {None, Some []}"
    "unseen_reason \<noteq> no_tool" "rooted sample_review"
    by code_simp+
  show "main_review sample_review (Some (context_of ''/a'')) = (reviewed, Inr (stop_response ''allow'' unseen_reason))"
    by (rule first_run)
qed

text \<open>
  C14: The review hook changes at most one file of the tree, and then it is the hash file beside the plan of
  the event: the plan could be read, the hash file did not hold its digest, now it holds exactly that, every
  other entry is as before, and the answer allows. In all other cases no file is touched.
\<close>

theorem review_writes_hash:
  assumes "main_review m input = (m', r)" "files m' \<noteq> files m" "rooted m"
  shows "\<exists>dir plan e reason.
    get (read_context_from_stdin input) ''artifactDirectoryPath'' = Inr (JStr dir) \<and>
    read_text m (path_join dir ''implementation_plan.md'') = Some plan \<and>
    map_option trim (read_text m (path_join dir ''.plan_reviewed.hash'')) \<noteq> Some (sha256 plan) \<and>
    read_file m' (path_join dir ''.plan_reviewed.hash'') = Some (sha256 plan) \<and>
    map_of (files m') = (map_of (files m))(e \<mapsto> File (sha256 plan) (clock m)) \<and>
    r = Inr (stop_response ''allow'' reason)"
proof -
  obtain dir plan where d: "get (read_context_from_stdin input) ''artifactDirectoryPath'' = Inr (JStr dir)"
      "read_text m (path_join dir ''implementation_plan.md'') = Some plan"
      "map_option trim (read_text m (path_join dir ''.plan_reviewed.hash'')) \<noteq> Some (sha256 plan)"
    and run: "review_plan m (path_join dir ''.plan_reviewed.hash'') (sha256 plan) plan = (m', r)"
    using assms(1,2) by (auto simp: main_review_def Let_def bind_res_eq_Inr str_arg_Inr
        split: sum.splits option.splits if_splits)
  have "hash_written m (path_join dir ''.plan_reviewed.hash'') (sha256 plan) m' r"
    using review_plan_written [OF run] assms(2) by simp
  then show ?thesis
    using d hash_kept_put [OF _ assms(3)] unfolding hash_written_def by blast
qed

theorem review_writes_hash_witness:
  "\<exists>e. map_of (files reviewed) = (map_of (files sample_review))(e \<mapsto> File sample_digest 5) \<and>
    read_file reviewed ''/a/.plan_reviewed.hash'' = Some sample_digest"
proof -
  have plan: "read_text sample_review (path_join ''/a'' ''implementation_plan.md'') = Some ''do it''"
    and hash: "path_join ''/a'' ''.plan_reviewed.hash'' = ''/a/.plan_reviewed.hash''" and ok: "rooted sample_review"
    and changed: "files reviewed \<noteq> files sample_review" and now: "clock sample_review = 5"
    by code_simp+
  have dir: "get (read_context_from_stdin (Some (context_of ''/a''))) ''artifactDirectoryPath'' = Inr (JStr d) \<longleftrightarrow> d = ''/a''" for d
    by (auto simp: read_context_from_stdin_def context_of_def)
  show ?thesis
    using review_writes_hash [OF first_run changed ok] plan hash now sha256_sample unfolding dir by auto
qed

text \<open>No terminal in which the editor could be opened.\<close>

definition no_terminal :: "desk \<Rightarrow> bool" where
  "no_terminal m \<longleftrightarrow> list_all (\<lambda>(variable, prog). env_of m variable = [] \<or> \<not> installed m prog)
     [(''AGTERM_SESSION_ID'', ''agtermctl''), (''TMUX'', ''tmux''), (''KITTY_LISTEN_ON'', ''kitty''),
      (''WEZTERM_PANE'', ''wezterm'')]"

lemma env_of_write [simp]: "env_of (write_temp t c m) k = env_of m k" "installed (write_temp t c m) g = installed m g"
  by (simp_all add: env_of_def installed_def write_temp_def)

lemma unseen_run:
  assumes "no_terminal d" "\<not> review_disabled d" "plan \<noteq> []"
  shows "\<exists>d'. run_hook_mode d (Some (plan_event plan)) =
      Some (d', Inr (make_response ''ask'' unseen_reason)) \<and> ran d' = ran d"
proof -
  obtain tmp d1 where t: "new_temp d = (tmp, d1)" "ran d1 = ran d" "env_of d1 = env_of d" "installed d1 = installed d"
    by (auto simp: new_temp_def env_of_def installed_def fun_eq_iff)
  have "open_editor (write_temp tmp plan d1) tmp True = Some (write_temp tmp plan d1, 1)"
    using assms(1) t(3,4) by (auto simp: open_editor_def no_terminal_def Let_def)
  moreover have "read_plan_from_stdin (Some (plan_event plan)) = Inr (JStr plan)"
    by (simp add: read_plan_from_stdin_def plan_event_def)
  ultimately show ?thesis
    using assms(2,3) t(1,2) by (simp add: run_hook_mode_def unseen_reason_def unlink_temp_def write_temp_def)
qed

text \<open>
  C40: A plan that no one has seen counts as reviewed: without revdiff and without any terminal to
  show the editor in, the hook runs no program, and if it returns an answer that is allow and the
  next run says that the plan was already reviewed and is unchanged.
\<close>

theorem unseen_plan_marked:
  assumes dir: "dir \<noteq> []" and plan: "read_text m (path_join dir ''implementation_plan.md'') = Some plan" "plan \<noteq> []"
    and on: "map_of (penv m) ''PLANNING_DISABLE_REVDIFF'' \<in> {None, Some []}"
    and new: "\<not> path_exists m (path_join dir ''.plan_reviewed.hash'')"
    and tools: "which m ''revdiff'' = None"
      "path_exists m (path_join (path_join (plugin_root m) ''scripts'') ''plan-annotate.py'')" "no_terminal (as_desk m)"
    and answer: "main_review m (Some (context_of dir)) = (m', Inr answer)" and ok: "rooted m"
    and still: "read_text m' (path_join dir ''implementation_plan.md'') = Some plan"
  shows "ran m' = ran m \<and> answer = stop_response ''allow'' unseen_reason \<and>
    main_review m' (Some (context_of dir)) =
      (m', Inr (stop_response ''allow'' ''plan already reviewed and unchanged''))"
proof -
  have "\<not> review_disabled (as_desk m)"
    using on by (auto simp: review_disabled_def env_of_def as_desk_def desk.defs)
  then obtain d where d: "run_hook_mode (as_desk m) (Some (plan_event plan)) =
      Some (d, Inr (make_response ''ask'' unseen_reason))" "ran d = ran m"
    using unseen_run [OF tools(3) _ plan(2)] by (auto simp: as_desk_def desk.defs)
  have "read_text m (path_join dir ''.plan_reviewed.hash'') = None"
    using new by (simp add: read_text_def read_file_def path_exists_def)
  then have "main_review m (Some (context_of dir))
      = review_plan m (path_join dir ''.plan_reviewed.hash'') (sha256 plan) plan"
    using main_review_steps [OF dir plan(1) on] new by (simp add: Let_def)
  moreover have "try_revdiff m plan = Inr (m, None)"
    using tools(1) by (simp add: try_revdiff_def)
  ultimately have "keep_hash (path_join dir ''.plan_reviewed.hash'') (sha256 plan)
      (stop_response ''allow'' unseen_reason) (put_desk d m) = (m', Inr answer)"
    using answer tools(2) d(1)
    by (simp add: review_plan_def fallback_answer_def make_response_def unseen_reason_def no_overlay_def)
  then have m': "answer = stop_response ''allow'' unseen_reason"
      "m' = (put_desk d m)\<lparr>files := files m'\<rparr>"
    using write_text_frame by (auto simp: keep_hash_def split: prod.splits if_splits)
  have "ran m' = ran (put_desk d m)"
    by (subst m'(2)) simp
  then have "ran m' = ran m"
    using d(2) by (simp add: put_desk_def)
  moreover have "unseen_reason \<noteq> no_tool"
    by (simp add: unseen_reason_def no_overlay_def no_tool_def)
  ultimately show ?thesis
    using plan_settled [OF dir plan(1) on _ _ ok still] answer m'(1) by simp
qed

theorem unseen_plan_marked_witness:
  "ran reviewed = ran sample_review \<and> stop_response ''allow'' unseen_reason = stop_response ''allow'' unseen_reason \<and>
    main_review reviewed (Some (context_of ''/a'')) =
      (reviewed, Inr (stop_response ''allow'' ''plan already reviewed and unchanged''))"
proof (rule unseen_plan_marked [where m = sample_review and plan = "''do it''"])
  show "''/a'' \<noteq> []" "''do it'' \<noteq> []"
    by simp_all
  show "read_text sample_review (path_join ''/a'' ''implementation_plan.md'') = Some ''do it''"
    "read_text reviewed (path_join ''/a'' ''implementation_plan.md'') = Some ''do it''"
    "map_of (penv sample_review) ''PLANNING_DISABLE_REVDIFF'' \<in> {None, Some []}"
    "\<not> path_exists sample_review (path_join ''/a'' ''.plan_reviewed.hash'')"
    "which sample_review ''revdiff'' = None"
    "path_exists sample_review (path_join (path_join (plugin_root sample_review) ''scripts'') ''plan-annotate.py'')"
    "no_terminal (as_desk sample_review)" "rooted sample_review"
    by code_simp+
  show "main_review sample_review (Some (context_of ''/a'')) = (reviewed, Inr (stop_response ''allow'' unseen_reason))"
    by (rule first_run)
qed

text \<open>
  C9: An edit of the plan in the fallback editor makes the agent go on with the difference as the
  reason, and the plan does not count as reviewed.
\<close>

theorem edited_plan_continues:
  assumes dir: "dir \<noteq> []" and plan: "read_text m (path_join dir ''implementation_plan.md'') = Some plan" "plan \<noteq> []"
    and on: "map_of (penv m) ''PLANNING_DISABLE_REVDIFF'' \<in> {None, Some []}"
    and new: "\<not> path_exists m (path_join dir ''.plan_reviewed.hash'')"
    and tools: "which m ''revdiff'' = None"
      "path_exists m (path_join (path_join (plugin_root m) ''scripts'') ''plan-annotate.py'')"
    and tmp: "new_temp (as_desk m) = (tmp, d)"
    and ed: "open_editor (write_temp tmp plan d) tmp True = Some (d2, 0)" "map_of (temps d2) tmp = Some left"
    and edited: "universal left \<noteq> plan"
  shows "\<exists>m'. main_review m (Some (context_of dir)) =
       (m', Inr (stop_response ''continue'' (feedback (get_diff plan (universal left))))) \<and> files m' = files m"
proof -
  have "\<not> review_disabled (as_desk m)"
    using on by (auto simp: review_disabled_def env_of_def as_desk_def desk.defs)
  then have run: "run_hook_mode (as_desk m) (Some (plan_event plan)) =
      Some (unlink_temp tmp d2, Inr (make_response ''deny'' (feedback (get_diff plan (universal left)))))"
    using hook_verdict [OF _ plan(2) tmp ed] edited by simp
  have "read_text m (path_join dir ''.plan_reviewed.hash'') = None"
    using new by (simp add: read_text_def read_file_def path_exists_def)
  then have "main_review m (Some (context_of dir))
      = review_plan m (path_join dir ''.plan_reviewed.hash'') (sha256 plan) plan"
    using main_review_steps [OF dir plan(1) on] new by (simp add: Let_def)
  also have "\<dots> = (put_desk (unlink_temp tmp d2) m,
      Inr (stop_response ''continue'' (feedback (get_diff plan (universal left)))))"
  proof -
    have "try_revdiff m plan = Inr (m, None)"
      using tools(1) by (simp add: try_revdiff_def)
    moreover have "feedback x \<noteq> []" for x
      by (simp add: feedback_def)
    ultimately show ?thesis
      using tools(2) run by (simp add: review_plan_def fallback_answer_def make_response_def)
  qed
  finally show ?thesis
    by (auto simp: put_desk_def)
qed

definition editing_review :: review_desk where
  "editing_review = sample_review\<lparr>penv := [(''AGTERM_SESSION_ID'', ''s1''), (''EDITOR'', ''vim -f'')],
     which := (\<lambda>p. if p = ''revdiff'' then None else Some (''/usr/bin/'' @ p)), program := sample_program\<rparr>"

definition editing_opened :: desk where
  "editing_opened = fst (the (open_editor (write_temp ''/tmp/plan-0'' ''do it'' ((as_desk editing_review)\<lparr>temps_made := 1\<rparr>))
     ''/tmp/plan-0'' True))"

theorem edited_plan_continues_witness:
  "\<exists>m'. main_review editing_review (Some (context_of ''/a'')) =
       (m', Inr (stop_response ''continue'' (feedback (get_diff ''do it'' (universal ''do itnote''))))) \<and>
     files m' = files editing_review"
proof (rule edited_plan_continues [where plan = "''do it''" and left = "''do itnote''" and tmp = "''/tmp/plan-0''"])
  show "''/a'' \<noteq> []" "''do it'' \<noteq> []"
    by simp_all
  show "read_text editing_review (path_join ''/a'' ''implementation_plan.md'') = Some ''do it''"
    by code_simp
  show "map_of (penv editing_review) ''PLANNING_DISABLE_REVDIFF'' \<in> {None, Some []}"
    by code_simp
  show "\<not> path_exists editing_review (path_join ''/a'' ''.plan_reviewed.hash'')"
    by code_simp
  show "which editing_review ''revdiff'' = None"
    by code_simp
  show "path_exists editing_review (path_join (path_join (plugin_root editing_review) ''scripts'') ''plan-annotate.py'')"
    by code_simp
  show "new_temp (as_desk editing_review) = (''/tmp/plan-0'', (as_desk editing_review)\<lparr>temps_made := 1\<rparr>)"
    by (simp add: new_temp_def as_desk_def desk.defs editing_review_def sample_review_def)
  have "map_option snd (open_editor (write_temp ''/tmp/plan-0'' ''do it'' ((as_desk editing_review)\<lparr>temps_made := 1\<rparr>))
      ''/tmp/plan-0'' True) = Some 0"
    by code_simp
  then show "open_editor (write_temp ''/tmp/plan-0'' ''do it'' ((as_desk editing_review)\<lparr>temps_made := 1\<rparr>))
      ''/tmp/plan-0'' True = Some (editing_opened, 0)"
    by (auto simp: editing_opened_def)
  show "map_of (temps editing_opened) ''/tmp/plan-0'' = Some ''do itnote''"
    by code_simp
  show "universal ''do itnote'' \<noteq> ''do it''"
    by code_simp
qed

end
