(* ===== verification/Plan_Selftest.thy ===== *)
theory Plan_Selftest
  imports Plan_Annotate
begin

text \<open>
  The embedded unit tests of \<open>plan-annotate.py\<close>, one definition per test class: the list of what its
  tests assert. A class that looks at the environment is a function of the machine.
\<close>

section \<open>Difference\<close>

definition plan_lines :: "string list \<Rightarrow> string" where
  "plan_lines ls = concat (map (\<lambda>l. l @ [nl]) ls)"

definition diff_tests :: "bool list" where
  "diff_tests =
     [(let t = plan_lines [''# Plan'', ''- task 1'', ''- task 2''] in get_diff t t = []),
      (let diff = get_diff (plan_lines [''# Plan'', ''- task 1'', ''- task 2''])
                    (plan_lines [''# Plan'', ''- task 1'', ''add timestamps'', ''- task 2'']) in
       sublist ''+add timestamps'' diff \<and> sublist ''task 1'' diff),
      (let diff = get_diff (plan_lines [''# Plan'', ''- task 1'', ''- task 2'']) (plan_lines [''# Plan'', ''- task 2'']) in
       sublist ''-- task 1'' diff),
      (let diff = get_diff (plan_lines [''# Plan'', ''- task 1'']) (plan_lines [''# Plan'', ''- task 1 (use JWT)'']) in
       sublist ''-- task 1'' diff \<and> sublist ''+- task 1 (use JWT)'' diff),
      (let diff = get_diff (plan_lines [''# Plan'', [], ''## A'', ''- item'', [], ''## B'', ''- item''])
                    (plan_lines [''# Plan'', [], ''## A'', ''- item'', ''note about A'', [], ''## B'', ''- item'', ''note about B'']) in
       sublist ''+note about A'' diff \<and> sublist ''+note about B'' diff)]"

section \<open>Event and answer\<close>

text \<open>Blank input and input that is not JSON are both \<open>None\<close>.\<close>

definition sample_plan :: string where
  "sample_plan = ''# My Plan'' @ [nl] @ ''- task 1''"

definition stdin_tests :: "bool list" where
  "stdin_tests =
     [read_plan_from_stdin (Some (plan_event sample_plan)) = Inr (JStr sample_plan),
      read_plan_from_stdin None = Inr (JStr []),
      read_plan_from_stdin (Some (JObj [(''tool_input'', JObj [])])) = Inr (JStr []),
      read_plan_from_stdin None = Inr (JStr [])]"

definition output_field :: "json \<Rightarrow> string \<Rightarrow> string" where
  "output_field answer key =
     (case get answer ''hookSpecificOutput'' of
        Inr out \<Rightarrow> (case get out key of Inr (JStr s) \<Rightarrow> s | _ \<Rightarrow> [])
      | Inl e \<Rightarrow> [])"

definition response_tests :: "bool list" where
  "response_tests =
     [(let out = output_field (make_response ''ask'' ''reviewed'') in
       out ''hookEventName'' = ''PreToolUse'' \<and> out ''permissionDecision'' = ''ask''),
      (let out = output_field (make_response ''deny'' ''fix this'') in
       out ''permissionDecision'' = ''deny'' \<and> sublist ''fix this'' (out ''permissionDecisionReason'')),
      (let out = output_field (make_response ''deny'' (''has \"quotes\" and'' @ [nl] @ ''newlines'')) in
       sublist ''quotes'' (out ''permissionDecisionReason''))]"

section \<open>Files\<close>

definition short_plan :: string where
  "short_plan = plan_lines [''# Plan'', ''- task 1'']"

text \<open>A temporary file is written and read back; a missing file ends file mode with exit code 1.\<close>

definition exit_code :: "(desk \<times> (string \<times> int) result) option \<Rightarrow> int option" where
  "exit_code r = (case r of Some (m, Inr (out, rc)) \<Rightarrow> Some rc | _ \<Rightarrow> None)"

definition printed_out :: "(desk \<times> (string \<times> int) result) option \<Rightarrow> string option" where
  "printed_out r = (case r of Some (m, Inr (out, rc)) \<Rightarrow> Some out | _ \<Rightarrow> None)"

definition file_mode_tests :: "desk \<Rightarrow> string \<Rightarrow> bool list" where
  "file_mode_tests m tmp =
     [exit_code (run_file_mode m ''/tmp/nonexistent-plan-test-12345.md'') = Some 1,
      (case write_text m tmp short_plan of (m', ok) \<Rightarrow> ok \<and> read_text m' tmp = Some short_plan)]"

definition disable :: "desk \<Rightarrow> desk" where
  "disable m = m\<lparr>penv := put_entry ''PLANNING_DISABLE_REVDIFF'' ''1'' (penv m)\<rparr>"

definition disabled_tests :: "desk \<Rightarrow> string \<Rightarrow> bool list" where
  "disabled_tests m tmp =
     (let m1 = disable m in
      [review_disabled m1,
       (case write_text m1 tmp short_plan of (m2, ok) \<Rightarrow> ok \<and> printed_out (run_file_mode m2 tmp) = Some []),
       (case run_hook_mode m1 (Some (plan_event (''# Plan'' @ [nl] @ ''- task 1''))) of
          Some (m2, Inr answer) \<Rightarrow>
            output_field answer ''permissionDecision'' = ''ask'' \<and>
            sublist ''disabled'' (output_field answer ''permissionDecisionReason'')
        | _ \<Rightarrow> False)])"

section \<open>The editor command\<close>

definition editor_tests :: "desk \<Rightarrow> bool list" where
  "editor_tests m =
     [(let r = build_editor_cmd m ''sh'' in prefix ''/'' r \<and> suffix ''sh'' r),
      build_editor_cmd m ''editor-not-on-path-zzz'' = ''editor-not-on-path-zzz'',
      (let args = ''editor-not-on-path-zzz -c -a '' @ [CHR 0x27, CHR 0x27] in build_editor_cmd m args = args),
      sublist ''vi'' (build_editor_cmd m []),
      (let r = build_editor_cmd m (''emacs '' @ [CHR ''\"'']) in sublist ''vi'' r \<and> \<not> sublist ''emacs'' r)]"

section \<open>They pass\<close>

lemma diff_tests_hold: "list_all id diff_tests"
  by code_simp

lemma answer_tests_hold: "list_all id (stdin_tests @ response_tests)"
  by code_simp

lemma disabled_tests_hold:
  assumes "snd (write_text (disable m) tmp short_plan)"
  shows "list_all id (disabled_tests m tmp)"
proof -
  have d: "review_disabled (disable m)"
    by (simp add: review_disabled_def disable_def env_of_def entry_store.get_put)
  obtain m2 where w: "write_text (disable m) tmp short_plan = (m2, True)"
    using assms by (metis prod.collapse)
  then have "penv m2 = penv (disable m)"
    using arg_cong [OF write_text_frame [OF w], of penv] by simp
  then have "review_disabled m2"
    using d by (simp add: review_disabled_def env_of_def)
  moreover have "sublist ''disabled'' ''plan review disabled via PLANNING_DISABLE_REVDIFF''"
    by code_simp
  ultimately show ?thesis
    using d w by (simp add: disabled_tests_def run_file_mode_def run_hook_mode_def printed_out_def
        output_field_def make_response_def)
qed


lemma file_mode_tests_hold:
  assumes "rooted m" "\<not> review_disabled m" "\<not> path_exists m ''/tmp/nonexistent-plan-test-12345.md''"
    and "snd (write_text m tmp short_plan)"
  shows "list_all id (file_mode_tests m tmp)"
proof -
  obtain m' where w: "write_text m tmp short_plan = (m', True)"
    using assms(4) by (metis prod.collapse)
  have "universal short_plan = short_plan"
    by code_simp
  then show ?thesis
    using assms w write_text_read [OF w assms(1)]
    by (simp add: file_mode_tests_def run_file_mode_def exit_code_def read_text_def)
qed

text \<open>
  What the tests need of the programs installed: \<open>sh\<close> is found at an absolute path that a shell takes
  as one word, the editor they invent is not found, and \<open>vi\<close> is found under its name, if at all.
\<close>

definition programs_ok :: "desk \<Rightarrow> bool" where
  "programs_ok m \<longleftrightarrow>
     (case which m ''sh'' of Some q \<Rightarrow> prefix ''/'' q \<and> suffix ''sh'' q \<and> shlex_quote q = q | None \<Rightarrow> False) \<and>
     which m ''editor-not-on-path-zzz'' = None \<and>
     (case which m ''vi'' of
        Some q \<Rightarrow> q = [] \<or> suffix ''vi'' q \<and> shlex_quote q = q \<and> \<not> sublist ''emacs'' q
      | None \<Rightarrow> True)"

lemma editor_words:
  "shlex_split ''sh'' = Some [''sh'']"
  "shlex_split ''editor-not-on-path-zzz'' = Some [''editor-not-on-path-zzz'']"
  "shlex_split (''editor-not-on-path-zzz -c -a '' @ [CHR 0x27, CHR 0x27]) = Some [''editor-not-on-path-zzz'', ''-c'', ''-a'', []]"
  "shlex_split [] = Some []"
  "shlex_split (''emacs '' @ [CHR ''\"'']) = None"
  "shlex_quote ''editor-not-on-path-zzz'' = ''editor-not-on-path-zzz''"
  "join '' '' (map shlex_quote [''editor-not-on-path-zzz'', ''-c'', ''-a'', []])
     = ''editor-not-on-path-zzz -c -a '' @ [CHR 0x27, CHR 0x27]"
  "shlex_quote ''vi'' = ''vi''" "sublist ''vi'' ''vi''" "\<not> sublist ''emacs'' ''vi''"
  by code_simp+

lemma fallback_vi:
  assumes "programs_ok m" "shlex_split editor = Some [] \<or> shlex_split editor = None"
  shows "sublist ''vi'' (build_editor_cmd m editor) \<and> \<not> sublist ''emacs'' (build_editor_cmd m editor)"
proof -
  have "build_editor_cmd m editor = ''vi'' \<or>
    (\<exists>q. which m ''vi'' = Some q \<and> q \<noteq> [] \<and> build_editor_cmd m editor = shlex_quote q)"
    using assms(2) by (auto simp: build_editor_cmd_def installed_def editor_words Let_def)
  then show ?thesis
    using assms(1) editor_words by (auto simp: programs_ok_def)
qed

lemma editor_tests_hold:
  assumes "programs_ok m"
  shows "list_all id (editor_tests m)"
proof -
  obtain q where "which m ''sh'' = Some q" "prefix ''/'' q" "suffix ''sh'' q" "shlex_quote q = q"
    using assms by (auto simp: programs_ok_def split: option.splits)
  then have "build_editor_cmd m ''sh'' = q"
    by (auto simp: build_editor_cmd_def installed_def editor_words Let_def)
  moreover have "\<not> installed m ''editor-not-on-path-zzz''"
    using assms by (simp add: programs_ok_def installed_def)
  ultimately show ?thesis
    using fallback_vi [OF assms, of "[]"] fallback_vi [OF assms, of "''emacs '' @ [CHR ''\"'']"]
      \<open>prefix ''/'' q\<close> \<open>suffix ''sh'' q\<close> editor_words
    by (simp add: editor_tests_def build_editor_cmd_def Let_def)
qed

text \<open>
  The tests pass on every machine on which review is not disabled, the invented file does not exist,
  the temporary file can be written and the programs are as said.
\<close>

theorem self_test_annotate:
  assumes "rooted m" "\<not> review_disabled m" "\<not> path_exists m ''/tmp/nonexistent-plan-test-12345.md''"
    and "snd (write_text m tmp short_plan)" "snd (write_text (disable m) tmp short_plan)" "programs_ok m"
  shows "list_all id (diff_tests @ stdin_tests @ response_tests @ file_mode_tests m tmp
    @ disabled_tests m tmp @ editor_tests m)"
  using diff_tests_hold answer_tests_hold file_mode_tests_hold [OF assms(1-4)]
    disabled_tests_hold [OF assms(5)] editor_tests_hold [OF assms(6)]
  by simp


definition test_desk :: desk where
  "test_desk =
     \<lparr>files = [([''tmp''], Dir)], cwd = [], home = ''/home/u'', users = [], clock = 1, denied = [], penv = [],
      which = (\<lambda>p. if p = ''sh'' then Some ''/bin/sh'' else None), temp_name = (\<lambda>n. ''/tmp/p''),
      temps_made = 0, temps = [], ran = [], program = (\<lambda>cmd ts. (0, ts)), polls = (\<lambda>n. True),
      meanwhile = (\<lambda>ts. ts)\<rparr>"

lemma self_test_annotate_witness:
  "list_all id (diff_tests @ stdin_tests @ response_tests @ file_mode_tests test_desk ''/tmp/a.md''
    @ disabled_tests test_desk ''/tmp/a.md'' @ editor_tests test_desk)"
proof (rule self_test_annotate)
  show "rooted test_desk"
    by (simp add: rooted_def test_desk_def)
qed code_simp+

end
