(* ===== verification/Lifecycle.thy ===== *)
theory Lifecycle
  imports Os_Fs Py_Json Named_Store
begin

text \<open>
  The session hook \<open>agterm-lifecycle-hook.py\<close>: the configuration files, the choice of a sound,
  the events of an agent and the watcher process that follows the screen. The machine records
  what the code does to the outside: the command lines given to \<open>agtermctl\<close>, the watchers
  started, and the token files in the temporary directory, by path. The name of the current
  process and the time make up \<open>new_token\<close>; \<open>write_fails\<close> and \<open>remove_fails\<close> are the paths on
  which writing and removing raise.
\<close>

section \<open>State\<close>

type_synonym tokens = "(string \<times> string) list"

record life_machine = machine +
  env :: "(string \<times> string) list"
  tmp_dir :: string
  write_fails :: "string list"
  remove_fails :: "string list"
  uid :: nat
  which_ctl :: "string option"
  exec_files :: "string list"
  new_token :: string
  tokens :: tokens
  runs :: "string list list"
  watchers :: "string list list"

text \<open>\<open>a or b\<close> on optional strings.\<close>

definition or_else :: "string option \<Rightarrow> string option \<Rightarrow> string option" where
  "or_else a b = (if a = None \<or> a = Some [] then b else a)"

definition getenv :: "life_machine \<Rightarrow> string \<Rightarrow> string option" where
  "getenv m k = map_of (env m) k"

text \<open>\<open>x or ""\<close> and a test of truth.\<close>

definition given :: "string option \<Rightarrow> bool" where
  "given v \<longleftrightarrow> v \<noteq> None \<and> v \<noteq> Some []"

definition text_of :: "string option \<Rightarrow> string" where
  "text_of v = (case v of None \<Rightarrow> [] | Some s \<Rightarrow> s)"

section \<open>Configuration\<close>

definition find_agtermctl :: "life_machine \<Rightarrow> string" where
  "find_agtermctl m =
     (if given (which_ctl m) then text_of (which_ctl m)
      else
        (case filter (\<lambda>p. is_file m p \<and> p \<in> set (exec_files m))
                [''/opt/homebrew/bin/agtermctl'', ''/usr/local/bin/agtermctl'',
                 ''/Applications/agterm.app/Contents/MacOS/agtermctl'',
                 expanduser m ''~/.local/bin/agtermctl''] of
           [] \<Rightarrow> ''agtermctl''
         | p # _ \<Rightarrow> p))"

type_synonym config = "(string \<times> string) list"

text \<open>The lines of a text file, with the line ends of all systems.\<close>

definition file_lines :: "string \<Rightarrow> string list" where
  "file_lines s = split_on CHR 0x0A (replace_char (CHR 0x0D) (CHR 0x0A) s)"

definition enclosed :: "char \<Rightarrow> string \<Rightarrow> bool" where
  "enclosed q v \<longleftrightarrow> prefix [q] v \<and> suffix [q] v"

definition config_value :: "string \<Rightarrow> string" where
  "config_value v = (if enclosed CHR ''\"'' v \<or> enclosed CHR 0x27 v then butlast (tl v) else v)"

definition config_line :: "string \<Rightarrow> config \<Rightarrow> config" where
  "config_line raw config =
     (let line = trim raw in
      if line = [] \<or> prefix ''#'' line then config
      else
        (case split_first CHR ''='' line of
           (k, None) \<Rightarrow> config
         | (k, Some v) \<Rightarrow> (trim k, config_value (trim v)) # config))"

definition load_file :: "life_machine \<Rightarrow> string \<Rightarrow> config \<Rightarrow> config" where
  "load_file m path config =
     (case read_file m path of
        None \<Rightarrow> config
      | Some content \<Rightarrow> fold config_line (file_lines content) config)"

text \<open>Later lines and files win: they are put in front.\<close>

definition load_config :: "life_machine \<Rightarrow> config" where
  "load_config m = fold (load_file m)
     [expanduser m ''~/.config/agterm/agterm-ide-launcher.conf'',
      expanduser m ''~/.gemini/config/plugins_data/cc-thingz/agterm-ide-launcher.conf''] []"

section \<open>Sounds\<close>

definition truthy_words :: "string list" where
  "truthy_words = [''1'', ''true'', ''yes'', ''on'', ''enable'', ''enabled'']"

definition falsy_words :: "string list" where
  "falsy_words = [''0'', ''false'', ''no'', ''off'', ''disable'', ''disabled'', ''none'', []]"

definition sound_setting :: "life_machine \<Rightarrow> config \<Rightarrow> string" where
  "sound_setting m config =
     (let env_sound = or_else (getenv m ''AGTERM_ALERT_SOUND'') (getenv m ''AGTERM_SOUND'');
          conf_sound = or_else (or_else (map_of config ''ALERT_SOUND'') (map_of config ''ENABLE_SOUND''))
                         (map_of config ''SOUND'') in
      trim (case env_sound of Some s \<Rightarrow> s | None \<Rightarrow> text_of conf_sound))"

text \<open>\<open>None\<close> is a disabled sound, \<open>Some c\<close> an enabled one with the custom sound \<open>c\<close>, if any.\<close>

definition sound_choice :: "string \<Rightarrow> string option option" where
  "sound_choice setting =
     (if setting = [] then None
      else if lower setting \<in> set truthy_words then Some None
      else if lower setting \<in> set falsy_words then None
      else Some (Some setting))"

definition resolve_sound :: "life_machine \<Rightarrow> string \<Rightarrow> config \<Rightarrow> string \<Rightarrow> string option" where
  "resolve_sound m event_type config default_name =
     (case sound_choice (sound_setting m config) of
        None \<Rightarrow> None
      | Some custom \<Rightarrow>
          (case map_of [(''input'', ''SOUND_INPUT''), (''completed'', ''SOUND_COMPLETED''),
                        (''error'', ''SOUND_ERROR'')] event_type of
             Some key \<Rightarrow>
               or_else (or_else (or_else (getenv m (''AGTERM_'' @ key)) (map_of config key)) custom)
                 (Some default_name)
           | None \<Rightarrow> or_else custom (Some default_name)))"

section \<open>Commands and token files\<close>

definition socket_args :: "life_machine \<Rightarrow> string option \<Rightarrow> string list" where
  "socket_args m sock =
     (let active_sock = or_else sock (getenv m ''AGTERM_SOCKET'') in
      if given active_sock then [''--socket'', text_of active_sock] else [])"

definition run_agtermctl :: "string list \<Rightarrow> string option \<Rightarrow> life_machine \<Rightarrow> life_machine" where
  "run_agtermctl args sock m = m\<lparr>runs := runs m @ [find_agtermctl m # args @ socket_args m sock]\<rparr>"

definition key_char :: "char \<Rightarrow> char" where
  "key_char c = (if is_alnum c \<or> c \<in> set ''._-'' then c else CHR ''_'')"

definition get_watch_token_file :: "life_machine \<Rightarrow> string \<Rightarrow> string option \<Rightarrow> string" where
  "get_watch_token_file m sid pane_id =
     (let key_raw = sid @ ''-'' @ (if given pane_id then text_of pane_id else ''default'') in
      path_join (tmp_dir m)
        (''agterm-agy-watch-'' @ nat_text (uid m) @ ''-'' @ map key_char key_raw @ ''.token''))"

definition stop_watcher :: "string \<Rightarrow> string option \<Rightarrow> life_machine \<Rightarrow> life_machine" where
  "stop_watcher sid pane_id m =
     (let f = get_watch_token_file m sid pane_id in
      if map_of (tokens m) f \<noteq> None \<and> f \<notin> set (remove_fails m) then m\<lparr>tokens := del_entry f (tokens m)\<rparr> else m)"

text \<open>
  The watchers are the command lines given to \<open>Popen\<close>. The code passes over a \<open>Popen\<close> that raises, which leaves
  the token written all the same; then no process stands behind the entry.
\<close>

definition start_watcher :: "string \<Rightarrow> string option \<Rightarrow> string option \<Rightarrow> life_machine \<Rightarrow> life_machine" where
  "start_watcher sid pane_id sock m =
     (let f = get_watch_token_file m sid pane_id in
      if f \<notin> set (write_fails m)
      then m\<lparr>tokens := put_entry f (new_token m) (tokens m),
             watchers := watchers m @ [[''__watch'', new_token m, f, sid, text_of pane_id, text_of sock]]\<rparr>
      else m)"

section \<open>Events\<close>

definition target_of :: "string \<Rightarrow> string option \<Rightarrow> string list" where
  "target_of sid pane_id =
     [''--target'', sid] @ (if given pane_id then [''--pane-id'', text_of pane_id] else [])"

definition sound_args :: "string option \<Rightarrow> string list" where
  "sound_args sound = (if given sound then [''--sound'', text_of sound] else [])"

definition notify :: "string \<Rightarrow> string \<Rightarrow> string option \<Rightarrow> life_machine \<Rightarrow> life_machine" where
  "notify message sid sock m = run_agtermctl [''notify'', message, ''--target'', sid] sock m"

definition show_active :: "string \<Rightarrow> string option \<Rightarrow> string option \<Rightarrow> life_machine \<Rightarrow> life_machine" where
  "show_active sid pane_id sock m =
     run_agtermctl ([''session'', ''status'', ''active'', ''--blink''] @ target_of sid pane_id) sock m"

definition show_blocked ::
    "config \<Rightarrow> string \<Rightarrow> string option \<Rightarrow> string option \<Rightarrow> life_machine \<Rightarrow> life_machine" where
  "show_blocked config sid pane_id sock m =
     (let sound = resolve_sound m ''input'' config ''Sosumi'' in
      notify ''Agent is waiting for your input'' sid sock
        (run_agtermctl ([''session'', ''status'', ''blocked''] @ sound_args sound @ [''--blink'']
           @ target_of sid pane_id) sock m))"

definition show_failed ::
    "config \<Rightarrow> string \<Rightarrow> string option \<Rightarrow> string option \<Rightarrow> life_machine \<Rightarrow> life_machine" where
  "show_failed config sid pane_id sock m =
     (let sound = resolve_sound m ''error'' config ''Sosumi'' in
      notify ''Task stopped with error'' sid sock
        (run_agtermctl ([''session'', ''status'', ''blocked''] @ sound_args sound
           @ [''--blink'', ''--auto-reset''] @ target_of sid pane_id) sock m))"

definition show_completed ::
    "config \<Rightarrow> string \<Rightarrow> string option \<Rightarrow> string option \<Rightarrow> life_machine \<Rightarrow> life_machine" where
  "show_completed config sid pane_id sock m =
     (let sound = resolve_sound m ''completed'' config ''Hero'' in
      notify ''Task completed'' sid sock
        (run_agtermctl ([''session'', ''status'', ''completed''] @ sound_args sound
           @ [''--auto-reset''] @ target_of sid pane_id) sock m))"

text \<open>\<open>payload.get("error") or payload.get("terminationReason") == "error"\<close>, as a truth value.\<close>

definition stop_failed :: "json \<Rightarrow> bool result" where
  "stop_failed payload =
     bind_res (get payload ''error'') (\<lambda>e.
       if truthy e then Inr True
       else bind_res (get payload ''terminationReason'') (\<lambda>r. Inr (r = JStr ''error'')))"

text \<open>
  The event of a session. The early return of the code on a stop with running background tasks
  gives the answer that every stop gives.
\<close>

definition session_event ::
    "string \<Rightarrow> json \<Rightarrow> string \<Rightarrow> string option \<Rightarrow> string option \<Rightarrow> life_machine \<Rightarrow> life_machine result" where
  "session_event mode payload sid pane_id sock m =
     (let config = load_config m in
      if mode = ''pre_invocation'' then
        Inr (start_watcher sid pane_id sock (show_active sid pane_id sock (stop_watcher sid pane_id m)))
      else if mode = ''ask_question'' then Inr (show_blocked config sid pane_id sock m)
      else if mode = ''stop'' then
        bind_res (stop_failed payload) (\<lambda>err.
          bind_res (if err then Inr JNull else get payload ''fullyIdle'') (\<lambda>idle.
            if \<not> err \<and> idle = JBool False then Inr m
            else if err then Inr (show_failed config sid pane_id sock (stop_watcher sid pane_id m))
            else Inr (show_completed config sid pane_id sock (stop_watcher sid pane_id m))))
      else Inr m)"

definition mode_response :: "string \<Rightarrow> json" where
  "mode_response mode =
     (if mode = ''pre_invocation'' then JObj [(''injectSteps'', JArr [])]
      else if mode = ''stop'' \<or> mode = ''ask_question'' then JObj [(''decision'', JStr ''allow'')]
      else JObj [])"

definition handle_event :: "string \<Rightarrow> json \<Rightarrow> life_machine \<Rightarrow> (life_machine \<times> json) result" where
  "handle_event mode payload m =
     (let sid = getenv m ''AGTERM_SESSION_ID'';
          pane_id = getenv m ''AGTERM_PANE_ID'';
          sock = getenv m ''AGTERM_SOCKET'' in
      bind_res (if given sid then session_event mode payload (text_of sid) pane_id sock m else Inr m)
        (\<lambda>m'. Inr (m', mode_response mode)))"

section \<open>Laws\<close>

text \<open>
  A command, a token or a watcher changes nothing that the choice of a command line reads.
\<close>

lemma is_file_frame [simp]:
  "is_file (m\<lparr>runs := r\<rparr>) p = is_file m p"
  "is_file (m\<lparr>tokens := ts\<rparr>) p = is_file m p"
  "is_file (m\<lparr>watchers := w\<rparr>) p = is_file m p"
  by (simp_all add: is_file_def stat_node_def start_of_def split: prod.splits)

lemma expanduser_frame [simp]:
  "expanduser (m\<lparr>runs := r\<rparr>) p = expanduser m p"
  "expanduser (m\<lparr>tokens := ts\<rparr>) p = expanduser m p"
  "expanduser (m\<lparr>watchers := w\<rparr>) p = expanduser m p"
  by (simp_all add: expanduser_def Let_def split: list.splits)

lemma find_agtermctl_frame [simp]:
  "find_agtermctl (m\<lparr>runs := r\<rparr>) = find_agtermctl m"
  "find_agtermctl (m\<lparr>tokens := ts\<rparr>) = find_agtermctl m"
  "find_agtermctl (m\<lparr>watchers := w\<rparr>) = find_agtermctl m"
  by (simp_all add: find_agtermctl_def)

lemma getenv_frame [simp]:
  "getenv (m\<lparr>runs := r\<rparr>) = getenv m"
  "getenv (m\<lparr>tokens := ts\<rparr>) = getenv m"
  "getenv (m\<lparr>watchers := w\<rparr>) = getenv m"
  by (simp_all add: getenv_def fun_eq_iff)

lemma args_frame [simp]:
  "socket_args (m\<lparr>runs := r\<rparr>) = socket_args m"
  "socket_args (m\<lparr>tokens := ts\<rparr>) = socket_args m"
  "socket_args (m\<lparr>watchers := w\<rparr>) = socket_args m"
  "resolve_sound (m\<lparr>runs := r\<rparr>) = resolve_sound m"
  "resolve_sound (m\<lparr>tokens := ts\<rparr>) = resolve_sound m"
  "resolve_sound (m\<lparr>watchers := w\<rparr>) = resolve_sound m"
  "get_watch_token_file (m\<lparr>runs := r\<rparr>) = get_watch_token_file m"
  "get_watch_token_file (m\<lparr>tokens := ts\<rparr>) = get_watch_token_file m"
  "get_watch_token_file (m\<lparr>watchers := w\<rparr>) = get_watch_token_file m"
  by (simp_all add: fun_eq_iff socket_args_def resolve_sound_def sound_setting_def get_watch_token_file_def
      cong: option.case_cong)

text \<open>The command lines of an event, as a list.\<close>

definition command_line :: "life_machine \<Rightarrow> string option \<Rightarrow> string list \<Rightarrow> string list" where
  "command_line m sock args = find_agtermctl m # args @ socket_args m sock"

definition blocked_lines ::
    "life_machine \<Rightarrow> config \<Rightarrow> string \<Rightarrow> string option \<Rightarrow> string option \<Rightarrow> string list list" where
  "blocked_lines m config sid pane_id sock =
     map (command_line m sock)
       [[''session'', ''status'', ''blocked''] @ sound_args (resolve_sound m ''input'' config ''Sosumi'')
          @ [''--blink''] @ target_of sid pane_id,
        [''notify'', ''Agent is waiting for your input'', ''--target'', sid]]"

definition active_lines ::
    "life_machine \<Rightarrow> string \<Rightarrow> string option \<Rightarrow> string option \<Rightarrow> string list list" where
  "active_lines m sid pane_id sock =
     [command_line m sock ([''session'', ''status'', ''active'', ''--blink''] @ target_of sid pane_id)]"

lemma show_blocked_eq:
  "show_blocked config sid pane_id sock m =
     m\<lparr>runs := runs m @ blocked_lines m config sid pane_id sock\<rparr>"
  by (simp add: show_blocked_def notify_def run_agtermctl_def blocked_lines_def command_line_def Let_def)

lemma show_active_eq:
  "show_active sid pane_id sock m = m\<lparr>runs := runs m @ active_lines m sid pane_id sock\<rparr>"
  by (simp add: show_active_def run_agtermctl_def active_lines_def command_line_def)

lemma lines_frame [simp]:
  "blocked_lines (m\<lparr>runs := r\<rparr>) = blocked_lines m"
  "active_lines (m\<lparr>runs := r\<rparr>) = active_lines m"
  "blocked_lines (m\<lparr>tokens := ts\<rparr>) = blocked_lines m"
  "active_lines (m\<lparr>tokens := ts\<rparr>) = active_lines m"
  by (simp_all add: fun_eq_iff blocked_lines_def active_lines_def command_line_def)

text \<open>Only token files and watchers of the session are touched by an event.\<close>

lemma show_tokens [simp]:
  "tokens (show_blocked config sid pane_id sock m) = tokens m"
  "tokens (show_active sid pane_id sock m) = tokens m"
  "tokens (show_failed config sid pane_id sock m) = tokens m"
  "tokens (show_completed config sid pane_id sock m) = tokens m"
  by (simp_all add: show_blocked_eq show_active_eq show_failed_def show_completed_def notify_def
      run_agtermctl_def Let_def)

lemma stop_watcher_get:
  "map_of (tokens (stop_watcher sid pane_id m)) f =
     (if f = get_watch_token_file m sid pane_id \<and> f \<notin> set (remove_fails m) then None
      else map_of (tokens m) f)"
  by (auto simp: stop_watcher_def Let_def entry_store.get_del)

lemma start_watcher_get:
  "map_of (tokens (start_watcher sid pane_id sock m)) f =
     (if f = get_watch_token_file m sid pane_id \<and> f \<notin> set (write_fails m) then Some (new_token m)
      else map_of (tokens m) f)"
  by (auto simp: start_watcher_def Let_def entry_store.get_put)

lemma stop_watcher_frame [simp]:
  "get_watch_token_file (stop_watcher sid pane_id m) = get_watch_token_file m"
  "write_fails (stop_watcher sid pane_id m) = write_fails m"
  "new_token (stop_watcher sid pane_id m) = new_token m"
  "watchers (stop_watcher sid pane_id m) = watchers m"
  "runs (stop_watcher sid pane_id m) = runs m"
  "active_lines (stop_watcher sid pane_id m) = active_lines m"
  by (simp_all add: stop_watcher_def Let_def)

lemma stop_failed_dict: "stop_failed (JObj kvs) \<noteq> Inl e"
  by (simp add: stop_failed_def)

lemma stop_failed_other: "(\<nexists>kvs. payload = JObj kvs) \<Longrightarrow> stop_failed payload = Inl AttributeError"
  by (cases payload) (simp_all add: stop_failed_def)

end
