(* ===== verification/Lifecycle_Watcher.thy ===== *)
theory Lifecycle_Watcher
  imports Lifecycle
begin

text \<open>
  The watcher process of \<open>agterm-lifecycle-hook.py\<close>: it looks at the visible screen twice a
  second, announces when a prompt appears or goes away, and ends when its token is withdrawn.
  The loop of \<open>run_watcher\<close> is a recursion on the checks left; what a check reads from outside
  is an \<open>observation\<close>. A step relation interleaves the watcher with the events of the session.
\<close>

section \<open>Prompts on the screen\<close>

definition PROMPT_PATTERNS :: "string list" where
  "PROMPT_PATTERNS =
     [''run this command?'', ''requesting permission for'', ''allow command?'',
      ''press enter to confirm'', ''enter to submit answer'', ''enter to submit all'',
      ''1. yes, run command'', ''> 1. yes'', ''yes, and always allow'', ''proceed with plan?'',
      ''do you want to proceed?'']"

text \<open>\<open>s.splitlines()\<close>.\<close>

definition is_break :: "char \<Rightarrow> bool" where
  "is_break c \<longleftrightarrow> code c \<in> {10, 11, 12, 13, 28, 29, 30, 133}"

fun splitlines :: "string \<Rightarrow> string list" where
  "splitlines [] = []"
| "splitlines (c # s) =
     (if c = CHR 0x0D \<and> prefix [CHR 0x0A] s then splitlines s
      else if is_break c then [] # splitlines s
      else (case splitlines s of [] \<Rightarrow> [[c]] | w # ws \<Rightarrow> (c # w) # ws))"

definition footer :: "string \<Rightarrow> string" where
  "footer screen =
     (let ls = splitlines (trim screen) in lower (join [CHR 0x0A] (drop (length ls - 15) ls)))"

definition is_prompt :: "string \<Rightarrow> bool" where
  "is_prompt screen \<longleftrightarrow> list_ex (\<lambda>p. sublist p (footer screen)) PROMPT_PATTERNS"

section \<open>The loop\<close>

text \<open>
  What the outside gives to one check: the two readings of the token file, \<open>None\<close> where opening
  raises, and the outcome of \<open>agtermctl session text\<close> on a command line, \<open>None\<close> where running it
  raises, else the return code and the decoded output.
\<close>

record observation =
  first_read :: "string \<Rightarrow> string option"
  ctl_reply :: "string list \<Rightarrow> (int \<times> string) option"
  second_read :: "string \<Rightarrow> string option"

text \<open>The arguments of \<open>run_watcher\<close>.\<close>

record watcher =
  w_token :: string
  w_file :: string
  w_sid :: string
  w_pane :: "string option"
  w_sock :: "string option"

definition read_visible_screen ::
    "life_machine \<Rightarrow> string \<Rightarrow> string option \<Rightarrow> string option
     \<Rightarrow> (string list \<Rightarrow> (int \<times> string) option) \<Rightarrow> string option" where
  "read_visible_screen m sid pane_id sock reply =
     (case reply (find_agtermctl m # [''session'', ''text'', ''--target'', sid]
             @ (if given pane_id then [''--pane-id'', text_of pane_id] else []) @ socket_args m sock) of
        Some (rc, out) \<Rightarrow> if rc = 0 then Some out else None
      | None \<Rightarrow> None)"

definition holds_token :: "watcher \<Rightarrow> (string \<Rightarrow> string option) \<Rightarrow> bool" where
  "holds_token w reading \<longleftrightarrow> (case reading (w_file w) of Some s \<Rightarrow> trim s = w_token w | None \<Rightarrow> False)"

definition max_checks :: nat where
  "max_checks = 21600"

text \<open>What the watcher sends when a prompt appears (\<open>True\<close>) or has gone (\<open>False\<close>).\<close>

definition announce :: "watcher \<Rightarrow> config \<Rightarrow> bool \<Rightarrow> life_machine \<Rightarrow> life_machine" where
  "announce w config prompt m =
     (if prompt then show_blocked config (w_sid w) (w_pane w) (w_sock w) m
      else show_active (w_sid w) (w_pane w) (w_sock w) m)"

text \<open>
  The loop: \<open>visible\<close> is \<open>prompt_was_visible\<close>. The value is the machine and the number of checks
  completed when the loop is left.
\<close>

function watch_loop ::
    "watcher \<Rightarrow> config \<Rightarrow> (nat \<Rightarrow> observation) \<Rightarrow> nat \<Rightarrow> bool \<Rightarrow> life_machine \<Rightarrow> life_machine \<times> nat" where
  "watch_loop w config obs checks visible m =
     (if checks < max_checks then
        (if \<not> holds_token w (first_read (obs checks)) then (m, checks)
         else
           (case read_visible_screen m (w_sid w) (w_pane w) (w_sock w) (ctl_reply (obs checks)) of
              None \<Rightarrow> watch_loop w config obs (checks + 1) visible m
            | Some screen \<Rightarrow>
                if is_prompt screen = visible then watch_loop w config obs (checks + 1) visible m
                else if \<not> holds_token w (second_read (obs checks)) then (m, checks)
                else watch_loop w config obs (checks + 1) (is_prompt screen)
                       (announce w config (is_prompt screen) m)))
      else (m, checks))"
  by pat_completeness auto
termination
  by (relation "measure (\<lambda>(w, config, obs, checks, visible, m). max_checks - checks)") auto

declare watch_loop.simps [simp del]

definition run_watcher :: "watcher \<Rightarrow> (nat \<Rightarrow> observation) \<Rightarrow> life_machine \<Rightarrow> life_machine \<times> nat" where
  "run_watcher w obs m = watch_loop w (load_config m) obs 0 False m"

section \<open>The script\<close>

definition argument :: "nat \<Rightarrow> string list \<Rightarrow> string" where
  "argument i argv = (if i < length argv then argv ! i else [])"

definition watcher_of :: "string list \<Rightarrow> watcher" where
  "watcher_of argv =
     \<lparr>w_token = argument 2 argv, w_file = argument 3 argv, w_sid = argument 4 argv,
      w_pane = (if argument 5 argv = [] then None else Some (argument 5 argv)),
      w_sock = (if argument 6 argv = [] then None else Some (argument 6 argv))\<rparr>"

text \<open>
  \<open>main\<close> without its self test. \<open>argv\<close> is \<open>sys.argv\<close> with the script at the front; \<open>input\<close> is
  the parsed standard input, \<open>None\<close> where it is blank or does not parse. The value is the
  machine and what is printed.
\<close>

definition main_lifecycle ::
    "string list \<Rightarrow> json option \<Rightarrow> (nat \<Rightarrow> observation) \<Rightarrow> life_machine
     \<Rightarrow> (life_machine \<times> json option) result" where
  "main_lifecycle argv input obs m =
     (if length argv > 1 \<and> argument 1 argv = ''__watch'' then
        (let w = watcher_of argv in
         Inr (if w_token w \<noteq> [] \<and> w_file w \<noteq> [] \<and> w_sid w \<noteq> [] then fst (run_watcher w obs m) else m, None))
      else
        (let mode = (if length argv > 1 then argument 1 argv else ''stop'');
             payload = (case input of Some v \<Rightarrow> v | None \<Rightarrow> JObj []) in
         bind_res (handle_event mode payload m) (\<lambda>(m', r). Inr (m', Some r))))"

section \<open>Laws of the loop\<close>

definition announce_lines :: "life_machine \<Rightarrow> watcher \<Rightarrow> config \<Rightarrow> bool \<Rightarrow> string list list" where
  "announce_lines m w config prompt =
     (if prompt then blocked_lines m config (w_sid w) (w_pane w) (w_sock w)
      else active_lines m (w_sid w) (w_pane w) (w_sock w))"

lemma announce_eq:
  "announce w config b m = m\<lparr>runs := runs m @ announce_lines m w config b\<rparr>"
  by (simp add: announce_def announce_lines_def show_blocked_eq show_active_eq)

lemma announce_lines_frame [simp]:
  "announce_lines (m\<lparr>runs := r\<rparr>) = announce_lines m"
  by (simp add: fun_eq_iff announce_lines_def)

lemma read_visible_screen_frame [simp]:
  "read_visible_screen (m\<lparr>runs := r\<rparr>) = read_visible_screen m"
  by (simp add: fun_eq_iff read_visible_screen_def)

text \<open>
  What one check does, seen from outside: \<open>None\<close> leaves the loop, \<open>Some (v, bs)\<close> goes on with
  \<open>v\<close> as \<open>prompt_was_visible\<close> after the announcements \<open>bs\<close>.
\<close>

definition check ::
    "life_machine \<Rightarrow> watcher \<Rightarrow> observation \<Rightarrow> bool \<Rightarrow> (bool \<times> bool list) option" where
  "check m w ob visible =
     (if \<not> holds_token w (first_read ob) then None
      else
        (case read_visible_screen m (w_sid w) (w_pane w) (w_sock w) (ctl_reply ob) of
           None \<Rightarrow> Some (visible, [])
         | Some screen \<Rightarrow>
             if is_prompt screen = visible then Some (visible, [])
             else if \<not> holds_token w (second_read ob) then None
             else Some (is_prompt screen, [is_prompt screen])))"

definition report :: "life_machine \<Rightarrow> watcher \<Rightarrow> config \<Rightarrow> bool list \<Rightarrow> life_machine" where
  "report m w config bs = m\<lparr>runs := runs m @ concat (map (announce_lines m w config) bs)\<rparr>"

lemma report_simps [simp]:
  "report m w config [] = m"
  "report (report m w config bs) w config cs = report m w config (bs @ cs)"
  "read_visible_screen (report m w config bs) = read_visible_screen m"
  "check (report m w config bs) = check m"
  by (simp_all add: report_def check_def fun_eq_iff)

lemma announce_report: "announce w config b (report m w config bs) = report m w config (bs @ [b])"
  by (simp add: announce_eq report_def)

lemma watch_loop_step:
  "checks < max_checks \<Longrightarrow>
     watch_loop w config obs checks v (report m w config bs) =
       (case check m w (obs checks) v of
          None \<Rightarrow> (report m w config bs, checks)
        | Some (v', cs) \<Rightarrow> watch_loop w config obs (checks + 1) v' (report m w config (bs @ cs)))"
  by (subst watch_loop.simps) (simp add: check_def announce_report split: option.splits)

lemma watch_loop_end: "\<not> checks < max_checks \<Longrightarrow> watch_loop w config obs checks v m = (m, checks)"
  by (subst watch_loop.simps) simp

text \<open>The announcements and the number of checks of the loop, without the machine.\<close>

function watched :: "life_machine \<Rightarrow> watcher \<Rightarrow> (nat \<Rightarrow> observation) \<Rightarrow> nat \<Rightarrow> bool \<Rightarrow> bool list \<times> nat" where
  "watched m w obs checks v =
     (if checks < max_checks then
        (case check m w (obs checks) v of
           None \<Rightarrow> ([], checks)
         | Some (v', cs) \<Rightarrow> map_prod ((@) cs) id (watched m w obs (checks + 1) v'))
      else ([], checks))"
  by pat_completeness auto
termination
  by (relation "measure (\<lambda>(m, w, obs, checks, v). max_checks - checks)") auto

declare watched.simps [simp del]

lemma watched_ends:
  "\<not> (checks < max_checks \<and> check m w (obs checks) v \<noteq> None) \<Longrightarrow> watched m w obs checks v = ([], checks)"
  by (subst watched.simps) (auto split: option.splits)

lemma watch_loop_watched:
  "watch_loop w config obs checks v (report m w config bs) =
     map_prod (\<lambda>cs. report m w config (bs @ cs)) id (watched m w obs checks v)"
proof (induction m w obs checks v arbitrary: bs rule: watched.induct)
  case (1 m w obs checks v)
  show ?case
  proof (cases "checks < max_checks")
    case True
    show ?thesis
    proof (cases "check m w (obs checks) v")
      case None
      then show ?thesis
        using True by (simp add: watch_loop_step watched.simps [of m w obs checks])
    next
      case (Some r)
      obtain v' cs where r: "r = (v', cs)"
        by (cases r)
      show ?thesis
        using True Some r "1.IH" [OF True Some r [symmetric], of "bs @ cs"]
        by (simp add: watch_loop_step watched.simps [of m w obs checks] map_prod_def split_beta)
    qed
  qed (simp add: watch_loop_end watched.simps [of m w obs checks])
qed

lemma run_watcher_watched:
  "run_watcher w obs m =
     map_prod (report m w (load_config m)) id (watched m w obs 0 False)"
  using watch_loop_watched [of w "load_config m" obs 0 False m "[]"]
  by (simp add: run_watcher_def)

text \<open>The announcements alternate, and each needs both readings of its check to give the token.\<close>

fun alternate :: "bool \<Rightarrow> nat \<Rightarrow> bool list" where
  "alternate v 0 = []"
| "alternate v (Suc k) = (\<not> v) # alternate (\<not> v) k"

definition both_held :: "watcher \<Rightarrow> observation \<Rightarrow> bool" where
  "both_held w ob \<longleftrightarrow> holds_token w (first_read ob) \<and> holds_token w (second_read ob)"

lemma check_SomeD:
  "check m w ob v = Some (v', cs) \<Longrightarrow>
     holds_token w (first_read ob) \<and>
     (cs = [] \<and> v' = v \<or> cs = [\<not> v] \<and> v' = (\<not> v) \<and> both_held w ob)"
  by (auto simp: check_def both_held_def split: if_splits option.splits)

lemma watched_alternates:
  "\<exists>k. fst (watched m w obs checks v) = alternate v k \<and>
       k \<le> card {i. checks \<le> i \<and> i < max_checks \<and> both_held w (obs i)}"
proof (induction m w obs checks v rule: watched.induct)
  case (1 m w obs checks v)
  let ?S = "\<lambda>c. {i. c \<le> i \<and> i < max_checks \<and> both_held w (obs i)}"
  show ?case
  proof (cases "checks < max_checks \<and> check m w (obs checks) v \<noteq> None")
    case False
    have "watched m w obs checks v = ([], checks)"
      by (rule watched_ends) (rule False)
    then have "fst (watched m w obs checks v) = alternate v 0"
      by simp
    then show ?thesis
      by blast
  next
    case True
    then obtain v' cs where r: "check m w (obs checks) v = Some (v', cs)"
      by auto
    obtain k where k: "fst (watched m w obs (checks + 1) v') = alternate v' k" "k \<le> card (?S (checks + 1))"
      using "1.IH" [of "(v', cs)" v' cs] True r by auto
    have res: "fst (watched m w obs checks v) = cs @ alternate v' k"
      using True r k(1) by (simp add: watched.simps [of m w obs checks])
    from check_SomeD [OF r] show ?thesis
    proof (elim conjE disjE)
      assume "cs = []" "v' = v"
      moreover have "card (?S (checks + 1)) \<le> card (?S checks)"
        by (intro card_mono) auto
      ultimately show ?thesis
        using res k(2) by auto
    next
      assume b: "cs = [\<not> v]" "v' = (\<not> v)" "both_held w (obs checks)"
      have "?S checks = insert checks (?S (checks + 1))"
        using True b(3) by auto
      then have "card (?S checks) = Suc (card (?S (checks + 1)))"
        by simp
      then show ?thesis
        using res k(2) b by (intro exI [of _ "Suc k"]) simp
    qed
  qed
qed

lemma watched_checks: "checks \<le> max_checks \<Longrightarrow> snd (watched m w obs checks v) \<le> max_checks"
  by (induction m w obs checks v rule: watched.induct)
    (subst watched.simps, auto split: option.splits)

text \<open>Once the token is gone the loop ends; nothing it would have read later matters.\<close>

lemma watched_lost:
  assumes "\<not> holds_token w (first_read (obs k))"
  shows "checks \<le> k \<Longrightarrow> snd (watched m w obs checks v) \<le> k"
  using assms
proof (induction m w obs checks v rule: watched.induct)
  case (1 m w obs checks v)
  show ?case
  proof (cases "checks < max_checks \<and> check m w (obs checks) v \<noteq> None")
    case True
    then obtain v' cs where r: "check m w (obs checks) v = Some (v', cs)"
      by auto
    then have "checks \<noteq> k"
      using check_SomeD [OF r] "1.prems"(2) by auto
    then show ?thesis
      using True r "1.IH" [of "(v', cs)" v' cs] "1.prems" by (simp add: watched.simps [of m w obs checks])
  qed (simp add: watched_ends "1.prems"(1))
qed

text \<open>
  A watcher whose token is never withdrawn runs through all its checks and reports exactly the
  changes of what the screens show.
\<close>

definition status :: "life_machine \<Rightarrow> watcher \<Rightarrow> observation \<Rightarrow> bool option" where
  "status m w ob =
     map_option is_prompt (read_visible_screen m (w_sid w) (w_pane w) (w_sock w) (ctl_reply ob))"

fun changes :: "bool \<Rightarrow> bool option list \<Rightarrow> bool list" where
  "changes v [] = []"
| "changes v (None # xs) = changes v xs"
| "changes v (Some b # xs) = (if b = v then changes v xs else b # changes b xs)"

lemma watched_undisturbed:
  assumes "\<And>i. both_held w (obs i)"
  shows "checks \<le> max_checks \<Longrightarrow>
     watched m w obs checks v = (changes v (map (\<lambda>i. status m w (obs i)) [checks..<max_checks]), max_checks)"
  using assms
proof (induction m w obs checks v rule: watched.induct)
  case (1 m w obs checks v)
  show ?case
  proof (cases "checks < max_checks")
    case True
    have held: "holds_token w (first_read (obs checks))" "holds_token w (second_read (obs checks))"
      using "1.prems"(2) [of checks] by (simp_all add: both_held_def)
    have upt: "[checks..<max_checks] = checks # [checks + 1..<max_checks]"
      using True by (simp add: upt_conv_Cons)
    have next_check: "check m w (obs checks) v = Some (v', cs) \<Longrightarrow>
        watched m w obs checks v =
          (cs @ changes v' (map (\<lambda>i. status m w (obs i)) [checks + 1..<max_checks]), max_checks)" for v' cs
      using "1.IH" [of "(v', cs)" v' cs] True "1.prems" by (simp add: watched.simps [of m w obs checks])
    show ?thesis
    proof (cases "status m w (obs checks)")
      case None
      then have "check m w (obs checks) v = Some (v, [])"
        using held by (simp add: check_def status_def)
      then show ?thesis
        using next_check None by (simp add: upt)
    next
      case (Some b)
      then have "check m w (obs checks) v = Some (b, if b = v then [] else [b])"
        using held by (auto simp: check_def status_def)
      then show ?thesis
        using next_check Some by (auto simp: upt)
    qed
  qed (use "1.prems"(1) in \<open>simp add: watched_ends\<close>)
qed

section \<open>Interleaving with the events of the session\<close>

text \<open>
  The watcher between two accesses to the outside: before the first reading of the token, before
  reading the screen, before the second reading for a change to the given value of
  \<open>prompt_was_visible\<close>, and before sending it. An event of any agent may come at any time, with
  its own environment and a fresh token. A step carries the announcements it makes.
\<close>

datatype phase = Check nat bool | Look nat bool | Confirm nat bool | Announce nat bool | Ended

inductive session_step ::
    "watcher \<Rightarrow> config \<Rightarrow> life_machine \<times> phase \<Rightarrow> bool list \<Rightarrow> life_machine \<times> phase \<Rightarrow> bool"
  for w config where
  check_held: "c < max_checks \<Longrightarrow> holds_token w (map_of (tokens m)) \<Longrightarrow>
    session_step w config (m, Check c v) [] (m, Look c v)"
| check_ended: "\<not> (c < max_checks \<and> holds_token w (map_of (tokens m))) \<Longrightarrow>
    session_step w config (m, Check c v) [] (m, Ended)"
| look_same: "(case read_visible_screen m (w_sid w) (w_pane w) (w_sock w) reply of
      None \<Rightarrow> True | Some screen \<Rightarrow> is_prompt screen = v) \<Longrightarrow>
    session_step w config (m, Look c v) [] (m, Check (c + 1) v)"
| look_new: "read_visible_screen m (w_sid w) (w_pane w) (w_sock w) reply = Some screen \<Longrightarrow>
    is_prompt screen \<noteq> v \<Longrightarrow> session_step w config (m, Look c v) [] (m, Confirm c (\<not> v))"
| confirm_held: "holds_token w (map_of (tokens m)) \<Longrightarrow>
    session_step w config (m, Confirm c v) [] (m, Announce c v)"
| confirm_lost: "\<not> holds_token w (map_of (tokens m)) \<Longrightarrow>
    session_step w config (m, Confirm c v) [] (m, Ended)"
| announce: "session_step w config (m, Announce c v) [v] (announce w config v m, Check (c + 1) v)"
| event: "handle_event mode payload (m\<lparr>env := e, new_token := t\<rparr>) = Inr (m', r) \<Longrightarrow> trim t \<noteq> w_token w \<Longrightarrow>
    session_step w config (m, ph) [] (m'\<lparr>env := env m, new_token := new_token m\<rparr>, ph)"

inductive session_run ::
    "watcher \<Rightarrow> config \<Rightarrow> life_machine \<times> phase \<Rightarrow> bool list \<Rightarrow> life_machine \<times> phase \<Rightarrow> bool"
  for w config where
  refl: "session_run w config s [] s"
| step: "session_step w config s bs s' \<Longrightarrow> session_run w config s' cs s'' \<Longrightarrow>
    session_run w config s (bs @ cs) s''"

text \<open>An event leaves every token file as it is, removes it, or puts the fresh token there.\<close>

lemma session_event_tokens:
  "session_event mode payload sid pane_id sock m = Inr m' \<Longrightarrow>
     map_of (tokens m') f \<in> {map_of (tokens m) f, None, Some (new_token m)}"
  by (auto simp: session_event_def Let_def start_watcher_get stop_watcher_get bind_res_eq_Inr
      show_active_eq split: if_splits)

lemma handle_event_tokens:
  "handle_event mode payload m = Inr (m', r) \<Longrightarrow>
     map_of (tokens m') f \<in> {map_of (tokens m) f, None, Some (new_token m)}"
  by (auto simp: handle_event_def Let_def bind_res_eq_Inr dest: session_event_tokens split: if_splits)

lemma event_keeps_lost:
  assumes "handle_event mode payload (m\<lparr>env := e, new_token := t\<rparr>) = Inr (m', r)"
    "trim t \<noteq> w_token w" "\<not> holds_token w (map_of (tokens m))"
  shows "\<not> holds_token w (map_of (tokens m'))"
  using handle_event_tokens [OF assms(1), of "w_file w"] assms(2,3)
  by (auto simp: holds_token_def split: option.splits)

text \<open>The announcements a watcher may still make without its token.\<close>

fun owed :: "phase \<Rightarrow> nat" where
  "owed (Announce c v) = 1"
| "owed ph = 0"

lemma lost_step:
  assumes "session_step w config s bs s'" "\<not> holds_token w (map_of (tokens (fst s)))"
  shows "\<not> holds_token w (map_of (tokens (fst s'))) \<and> length bs + owed (snd s') \<le> owed (snd s)"
  using assms by (induction rule: session_step.induct) (auto simp: announce_eq dest: event_keeps_lost)

lemma lost_run:
  assumes "session_run w config s bs s'" "\<not> holds_token w (map_of (tokens (fst s)))"
  shows "length bs + owed (snd s') \<le> owed (snd s)"
  using assms by (induction rule: session_run.induct) (auto dest: lost_step)

text \<open>Without events the loop of the code is a run of the relation.\<close>

lemma report_tokens [simp]: "tokens (report m w config bs) = tokens m"
  by (simp add: report_def)

lemma check_run:
  assumes "checks < max_checks" "first_read ob = map_of (tokens m)" "second_read ob = map_of (tokens m)"
    "check m w ob v = Some (v', cs)"
  shows "session_run w config (m, Check checks v) cs (report m w config cs, Check (checks + 1) v')"
proof -
  have held: "holds_token w (map_of (tokens m))"
    using check_SomeD [OF assms(4)] assms(2) by simp
  let ?screen = "read_visible_screen m (w_sid w) (w_pane w) (w_sock w) (ctl_reply ob)"
  note first = session_step.check_held [OF assms(1) held, of config v]
  show ?thesis
  proof (cases "cs = []")
    case True
    then have "(case ?screen of None \<Rightarrow> True | Some screen \<Rightarrow> is_prompt screen = v)" "v' = v"
      using assms(4) by (auto simp: check_def split: if_splits option.splits)
    then have "session_step w config (m, Look checks v) [] (m, Check (checks + 1) v')"
      using session_step.look_same
          [where m = m and w = w and reply = "ctl_reply ob" and v = v and config = config and c = checks] by simp
    then show ?thesis
      using session_run.step [OF first session_run.step [OF _ session_run.refl]] True by simp
  next
    case False
    then obtain screen where s: "?screen = Some screen" "is_prompt screen \<noteq> v" "v' = (\<not> v)" "cs = [\<not> v]"
      using assms(4) check_SomeD [OF assms(4)] by (auto simp: check_def split: if_splits option.splits)
    have r: "report m w config cs = announce w config (\<not> v) m"
      using announce_report [of w config "\<not> v" m "[]"] s(4) by simp
    show ?thesis
      using session_run.step [OF first session_run.step [OF session_step.look_new [OF s(1,2)]
          session_run.step [OF session_step.confirm_held [OF held]
          session_run.step [OF session_step.announce session_run.refl]]]] s(3,4) r by simp
  qed
qed

lemma session_run_trans:
  "session_run w config s bs s' \<Longrightarrow> session_run w config s' cs s'' \<Longrightarrow> session_run w config s (bs @ cs) s''"
  by (induction rule: session_run.induct) (auto intro: session_run.step)

lemma stop_run:
  assumes "\<not> (checks < max_checks \<and> check m w ob v \<noteq> None)"
    "first_read ob = map_of (tokens m)" "second_read ob = map_of (tokens m)"
  shows "session_run w config (m, Check checks v) [] (m, Ended)"
proof (cases "checks < max_checks \<and> holds_token w (map_of (tokens m))")
  case False
  then show ?thesis
    using session_run.step [OF session_step.check_ended session_run.refl] by fastforce
next
  case True
  then show ?thesis
    using assms by (auto simp: check_def split: option.splits if_splits)
qed

lemma watched_run:
  assumes "\<And>i. first_read (obs i) = map_of (tokens m)" "\<And>i. second_read (obs i) = map_of (tokens m)"
  shows "session_run w config (report m w config bs, Check checks v) (fst (watched m w obs checks v))
     (report m w config (bs @ fst (watched m w obs checks v)), Ended)"
  using assms
proof (induction m w obs checks v arbitrary: bs rule: watched.induct)
  case (1 m w obs checks v)
  let ?m = "report m w config bs"
  have reads: "first_read (obs checks) = map_of (tokens ?m)" "second_read (obs checks) = map_of (tokens ?m)"
    using "1.prems" by simp_all
  show ?case
  proof (cases "checks < max_checks \<and> check m w (obs checks) v \<noteq> None")
    case False
    have "watched m w obs checks v = ([], checks)"
      by (rule watched_ends) (rule False)
    then show ?thesis
      using stop_run [OF _ reads] False by simp
  next
    case True
    then obtain v' cs where r: "check m w (obs checks) v = Some (v', cs)"
      by auto
    have "session_run w config (?m, Check checks v) cs (report m w config (bs @ cs), Check (checks + 1) v')"
      using check_run [of checks "obs checks" ?m w v v' cs config] reads True r by simp
    moreover have "session_run w config (report m w config (bs @ cs), Check (checks + 1) v')
        (fst (watched m w obs (checks + 1) v'))
        (report m w config ((bs @ cs) @ fst (watched m w obs (checks + 1) v')), Ended)"
      using "1.IH" [of "(v', cs)" v' cs "bs @ cs"] True r "1.prems" by blast
    moreover have "fst (watched m w obs checks v) = cs @ fst (watched m w obs (checks + 1) v')"
      using True r by (simp add: watched.simps [of m w obs checks])
    ultimately show ?thesis
      using session_run_trans by fastforce
  qed
qed

end
