(* ===== verification/Lifecycle_Properties.thy ===== *)
theory Lifecycle_Properties
  imports Lifecycle_Watcher
begin

text \<open>
  The properties of the session hook and its watcher, each with a concrete instance: what an
  event does to commands and token files, what the watcher announces, that it ends, and how a
  stop silences a running watcher whatever the order of their steps.
\<close>

section \<open>A sample session\<close>

definition sample_life :: life_machine where
  "sample_life =
     \<lparr>files = [], cwd = [''work''], home = ''/home/u'', users = [], clock = 0,
      env = [(''AGTERM_SESSION_ID'', ''s1''), (''AGTERM_PANE_ID'', ''left'')],
      tmp_dir = ''/tmp'', write_fails = [], remove_fails = [], uid = 501,
      which_ctl = Some ''/usr/bin/agtermctl'', exec_files = [], new_token = ''77-1.5'',
      tokens = [(''/tmp/other.token'', ''1-1.0'')], runs = [], watchers = []\<rparr>"

definition sample_file :: string where
  "sample_file = get_watch_token_file sample_life ''s1'' (Some ''left'')"

definition sample_watcher :: watcher where
  "sample_watcher =
     \<lparr>w_token = ''77-1.5'', w_file = sample_file, w_sid = ''s1'', w_pane = Some ''left'', w_sock = None\<rparr>"

definition held_reading :: "string \<Rightarrow> string option" where
  "held_reading path = Some ''77-1.5''"

definition prompt_reply :: "string list \<Rightarrow> (int \<times> string) option" where
  "prompt_reply cmd = Some (0, ''Run this command?'')"

definition prompting :: observation where
  "prompting = \<lparr>first_read = held_reading, ctl_reply = prompt_reply, second_read = held_reading\<rparr>"

definition gone :: observation where
  "gone = \<lparr>first_read = (\<lambda>path. None), ctl_reply = prompt_reply, second_read = held_reading\<rparr>"

definition stop_payload :: json where
  "stop_payload = JObj [(''fullyIdle'', JBool True)]"

lemmas sample_simps = sample_life_def sample_watcher_def getenv_def given_def text_of_def

lemma sample_env:
  "getenv sample_life ''AGTERM_SESSION_ID'' = Some ''s1''"
  "getenv sample_life ''AGTERM_PANE_ID'' = Some ''left''"
  "getenv sample_life ''AGTERM_SOCKET'' = None"
  "write_fails sample_life = []" "remove_fails sample_life = []" "new_token sample_life = ''77-1.5''"
  by (simp_all add: sample_simps)

lemma sample_held: "both_held sample_watcher prompting"
  by (simp add: both_held_def holds_token_def prompting_def held_reading_def sample_watcher_def
      strip_def lstrip_def rstrip_def is_space_def code_def)

section \<open>The watcher\<close>

text \<open>
  C16: A watcher that keeps its token makes all its checks, and what it sends is exactly one
  announcement for every change of what the readable screens show, starting from no prompt.
\<close>

theorem watcher_reports_changes:
  assumes "\<And>i. both_held w (obs i)"
  shows "run_watcher w obs m =
    (report m w (load_config m) (changes False (map (\<lambda>i. status m w (obs i)) [0..<max_checks])), max_checks)"
  using watched_undisturbed [of w obs 0 m False] assms by (simp add: run_watcher_watched)

theorem watcher_reports_changes_witness:
  "run_watcher sample_watcher (\<lambda>i. prompting) sample_life =
    (report sample_life sample_watcher (load_config sample_life)
      (changes False (map (\<lambda>i. status sample_life sample_watcher prompting) [0..<max_checks])), max_checks)"
  by (rule watcher_reports_changes) (rule sample_held)

text \<open>
  C17: Whatever the watcher reads, it makes at most 21600 checks; what it sends alternates between
  the announcement of a prompt and of its end, starting with a prompt, and each announcement takes
  a check of its own in which both readings of the token file gave the token.
\<close>

theorem watcher_bounded:
  "snd (run_watcher w obs m) \<le> 21600 \<and>
   (\<exists>k \<le> card {i. i < 21600 \<and> both_held w (obs i)}.
      fst (run_watcher w obs m) = report m w (load_config m) (alternate False k))"
proof -
  have "snd (run_watcher w obs m) \<le> 21600"
    using watched_checks [of 0 m w obs False] by (simp add: run_watcher_watched max_checks_def)
  moreover obtain k where "fst (watched m w obs 0 False) = alternate False k"
      "k \<le> card {i. 0 \<le> i \<and> i < max_checks \<and> both_held w (obs i)}"
    using watched_alternates by blast
  ultimately show ?thesis
    by (auto simp: run_watcher_watched max_checks_def)
qed

text \<open>
  C18: A watcher whose token file is gone, unreadable or holds another token at check \<open>k\<close> has
  ended by then, however the earlier checks went.
\<close>

theorem watcher_ends:
  assumes "\<not> holds_token w (first_read (obs k))"
  shows "snd (run_watcher w obs m) \<le> k"
  using watched_lost [of w obs k 0 m False] assms by (simp add: run_watcher_watched)

theorem watcher_ends_witness:
  "snd (run_watcher sample_watcher (\<lambda>i. if i < 3 then prompting else gone) sample_life) \<le> 3"
  by (rule watcher_ends) (simp add: gone_def holds_token_def)

section \<open>Events\<close>

text \<open>
  C20: An event never fails but in one case: a stop of a session whose payload is not a dictionary
  raises. Else the answer depends on the mode alone.
\<close>

theorem event_answers:
  "\<exists>m'. handle_event mode payload m =
     (if mode = ''stop'' \<and> given (getenv m ''AGTERM_SESSION_ID'') \<and> (\<nexists>kvs. payload = JObj kvs)
      then Inl AttributeError else Inr (m', mode_response mode))"
proof (cases payload)
  case (JObj kvs)
  obtain b where "stop_failed payload = Inr b"
    using stop_failed_dict [of kvs] JObj by (cases "stop_failed payload") auto
  then show ?thesis
    using JObj by (auto simp: handle_event_def session_event_def Let_def)
qed (auto simp: handle_event_def session_event_def Let_def stop_failed_other)

text \<open>
  C19: A pre-invocation of a session with a writable token file sends the status active, puts the
  fresh token into the token file of the session, leaves all other token files alone and starts
  one watcher, which gets that token, that file and the session.
\<close>

theorem invocation_starts_watcher:
  assumes "getenv m ''AGTERM_SESSION_ID'' = Some sid" "sid \<noteq> []"
    and "f = get_watch_token_file m sid (getenv m ''AGTERM_PANE_ID'')" "f \<notin> set (write_fails m)"
  shows "\<exists>m'. handle_event ''pre_invocation'' payload m = Inr (m', JObj [(''injectSteps'', JArr [])]) \<and>
    map_of (tokens m') = (map_of (tokens m))(f \<mapsto> new_token m) \<and>
    watchers m' = watchers m @ [[''__watch'', new_token m, f, sid,
       text_of (getenv m ''AGTERM_PANE_ID''), text_of (getenv m ''AGTERM_SOCKET'')]] \<and>
    runs m' = runs m @ active_lines m sid (getenv m ''AGTERM_PANE_ID'') (getenv m ''AGTERM_SOCKET'')"
proof -
  let ?p = "getenv m ''AGTERM_PANE_ID''" and ?s = "getenv m ''AGTERM_SOCKET''"
  let ?m = "start_watcher sid ?p ?s (show_active sid ?p ?s (stop_watcher sid ?p m))"
  have "handle_event ''pre_invocation'' payload m = Inr (?m, JObj [(''injectSteps'', JArr [])])"
    using assms(1,2) by (simp add: handle_event_def session_event_def mode_response_def given_def text_of_def Let_def)
  moreover have "map_of (tokens ?m) = (map_of (tokens m))(f \<mapsto> new_token m)"
    using assms(3,4) by (auto simp: fun_eq_iff start_watcher_get stop_watcher_get show_active_eq)
  moreover have "runs ?m = runs m @ active_lines m sid ?p ?s"
    by (simp add: start_watcher_def Let_def show_active_eq)
  ultimately show ?thesis
    using assms(3,4) by (auto simp: start_watcher_def Let_def show_active_eq)
qed

theorem invocation_starts_watcher_witness:
  "\<exists>m'. handle_event ''pre_invocation'' JNull sample_life = Inr (m', JObj [(''injectSteps'', JArr [])]) \<and>
    map_of (tokens m') = (map_of (tokens sample_life))(sample_file \<mapsto> new_token sample_life) \<and>
    watchers m' = watchers sample_life @ [[''__watch'', new_token sample_life, sample_file, ''s1'',
       text_of (getenv sample_life ''AGTERM_PANE_ID''), text_of (getenv sample_life ''AGTERM_SOCKET'')]] \<and>
    runs m' = runs sample_life @ active_lines sample_life ''s1'' (getenv sample_life ''AGTERM_PANE_ID'')
      (getenv sample_life ''AGTERM_SOCKET'')"
  by (rule invocation_starts_watcher) (simp_all add: sample_env sample_file_def)

text \<open>
  C15: Once a stop of a session that is idle has been handled, a watcher of that session makes at
  most one more announcement, and none unless it was past its second reading of the token; this
  holds for every order of the watcher's steps and of any further events of any session.
\<close>

theorem stop_silences_watcher:
  assumes "handle_event ''stop'' payload m = Inr (m', r)" "get payload ''fullyIdle'' \<noteq> Inr (JBool False)"
    and "getenv m ''AGTERM_SESSION_ID'' = Some (w_sid w)" "w_sid w \<noteq> []"
    and "w_file w = get_watch_token_file m (w_sid w) (getenv m ''AGTERM_PANE_ID'')"
    and "w_file w \<notin> set (remove_fails m)"
    and "session_run w config (m', ph) bs (m'', ph')"
  shows "length bs \<le> owed ph"
proof -
  have "map_of (tokens m') (w_file w) = None"
    using assms(1-6)
    by (auto simp: handle_event_def session_event_def given_def text_of_def Let_def bind_res_eq_Inr
        stop_watcher_get split: if_splits)
  then show ?thesis
    using lost_run [OF assms(7)] by (simp add: holds_token_def)
qed

theorem stop_silences_watcher_witness:
  "length [True] \<le> owed (Announce 5 True)"
proof -
  obtain m' r where "handle_event ''stop'' stop_payload sample_life = Inr (m', r)"
    using event_answers [of "''stop''" stop_payload sample_life] by (auto simp: stop_payload_def)
  moreover have "session_run sample_watcher [] (m', Announce 5 True) ([True] @ [])
      (announce sample_watcher [] True m', Check (5 + 1) True)"
    by (intro session_run.step [OF session_step.announce] session_run.refl)
  ultimately show ?thesis
    using stop_silences_watcher [of stop_payload sample_life m' r sample_watcher "[]" "Announce 5 True" "[True]"]
    by (simp add: stop_payload_def sample_env sample_watcher_def sample_file_def)
qed

text \<open>
  Sound is off exactly when the setting in force, after removing white space, is empty or one
  of the words for off, in any case; a sound that is on has a name.
\<close>

theorem sound_off:
  "(resolve_sound m event_type config (c # cs) = None \<longleftrightarrow>
     sound_setting m config = [] \<or> lower (sound_setting m config) \<in> set falsy_words) \<and>
   resolve_sound m event_type config (c # cs) \<noteq> Some []"
proof -
  have "list_all (\<lambda>x. x \<notin> set falsy_words) truthy_words"
    by code_simp
  then have "x \<in> set truthy_words \<Longrightarrow> x \<notin> set falsy_words" for x
    by (simp add: list_all_iff)
  then have choice: "sound_choice s = None \<longleftrightarrow> s = [] \<or> lower s \<in> set falsy_words" for s
    unfolding sound_choice_def by auto
  have some: "or_else a (Some (c # cs)) \<noteq> None" "or_else a (Some (c # cs)) \<noteq> Some []" for a
    by (auto simp: or_else_def)
  have "resolve_sound m event_type config (c # cs) = None \<longleftrightarrow> sound_choice (sound_setting m config) = None"
    unfolding resolve_sound_def using some(1) by (auto split: option.split)
  moreover have "resolve_sound m event_type config (c # cs) \<noteq> Some []"
    unfolding resolve_sound_def using some(2) by (auto split: option.split)
  ultimately show ?thesis
    by (simp only: choice simp_thms)
qed

end
