(* ===== verification/Lifecycle_Selftest.thy ===== *)
theory Lifecycle_Selftest
  imports Lifecycle_Watcher
begin

text \<open>
  The embedded self test of \<open>agterm-lifecycle-hook.py\<close>. It has no machine of its own: it reads the
  environment it runs in, removes the token file of an invented session and sends the events of the
  surrounding session, if there is one. An assertion that fails ends the test with nothing.
\<close>

section \<open>The test\<close>

definition cfg_enabled :: config where
  "cfg_enabled = [(''ALERT_SOUND'', ''true'')]"

definition cfg_custom :: config where
  "cfg_custom = [(''ALERT_SOUND'', ''true''), (''SOUND_INPUT'', ''Pop''),
     (''SOUND_COMPLETED'', ''Glass''), (''SOUND_ERROR'', ''Basso'')]"

definition sounds_pass :: "life_machine \<Rightarrow> bool" where
  "sounds_pass m \<longleftrightarrow>
     resolve_sound m ''input'' [] ''Sosumi'' = None \<and>
     resolve_sound m ''input'' cfg_enabled ''Sosumi'' = Some ''Sosumi'' \<and>
     resolve_sound m ''completed'' cfg_enabled ''Hero'' = Some ''Hero'' \<and>
     resolve_sound m ''error'' cfg_enabled ''Sosumi'' = Some ''Sosumi'' \<and>
     resolve_sound m ''input'' cfg_custom ''Sosumi'' = Some ''Pop'' \<and>
     resolve_sound m ''completed'' cfg_custom ''Hero'' = Some ''Glass'' \<and>
     resolve_sound m ''error'' cfg_custom ''Sosumi'' = Some ''Basso'' \<and>
     resolve_sound m ''input'' [(''ALERT_SOUND'', ''Ping'')] ''Sosumi'' = Some ''Ping'' \<and>
     resolve_sound m ''input'' [(''ALERT_SOUND'', ''false''), (''SOUND_INPUT'', ''Pop'')] ''Sosumi'' = None"

definition token_named :: "life_machine \<Rightarrow> bool" where
  "token_named m \<longleftrightarrow>
     (let tok_file = get_watch_token_file m ''test-session-123'' (Some ''pane-left'') in
      sublist ''test-session-123'' tok_file \<and> sublist ''pane-left'' tok_file)"

definition token_gone :: "life_machine \<Rightarrow> bool" where
  "token_gone m \<longleftrightarrow> map_of (tokens m) (get_watch_token_file m ''test-session-123'' (Some ''pane-left'')) = None"

definition sample_permission_screen :: string where
  "sample_permission_screen =
     ''Requesting permission for:'' @ [nl] @
     ''  cat << '' @ [CHR 0x27] @ ''EOF'' @ [CHR 0x27] @ '' > /tmp/extract_assets.swift'' @ [nl] @
     ''Run this command?'' @ [nl] @
     ''> 1. Yes, run command'' @ [nl] @
     ''  2. No'' @ [nl]"

text \<open>The events that are sent, each with the answer expected.\<close>

definition event_checks :: "(string \<times> json \<times> json) list" where
  "event_checks =
     [(''pre_invocation'', JObj [], JObj [(''injectSteps'', JArr [])]),
      (''ask_question'', JObj [], JObj [(''decision'', JStr ''allow'')]),
      (''stop'', JObj [], JObj [(''decision'', JStr ''allow'')]),
      (''stop'', JObj [(''fullyIdle'', JBool False)], JObj [(''decision'', JStr ''allow'')]),
      (''unknown'', JObj [], JObj [])]"

fun events_pass :: "(string \<times> json \<times> json) list \<Rightarrow> life_machine \<Rightarrow> life_machine option" where
  "events_pass [] m = Some m"
| "events_pass ((mode, payload, answer) # checks) m =
     (case handle_event mode payload m of
        Inr (m', r) \<Rightarrow> if r = answer then events_pass checks m' else None
      | Inl e \<Rightarrow> None)"

definition run_tests_lifecycle :: "life_machine \<Rightarrow> (life_machine \<times> int) option" where
  "run_tests_lifecycle m =
     (if \<not> sounds_pass m \<or> \<not> token_named m then None
      else
        (let m1 = stop_watcher ''test-session-123'' (Some ''pane-left'') m in
         if \<not> token_gone m1 \<or> \<not> is_prompt sample_permission_screen then None
         else map_option (\<lambda>m'. (m', 0)) (events_pass event_checks m1)))"

section \<open>When it passes\<close>

definition sound_variables :: "string list" where
  "sound_variables = [''AGTERM_ALERT_SOUND'', ''AGTERM_SOUND'', ''AGTERM_SOUND_INPUT'',
     ''AGTERM_SOUND_COMPLETED'', ''AGTERM_SOUND_ERROR'']"

lemma sound_words:
  "sound_choice (trim ''true'') = Some None" "sound_choice (trim ''false'') = None"
  "sound_choice (trim ''Ping'') = Some (Some ''Ping'')" "sound_choice (trim []) = None"
  by code_simp+

lemma sounds_hold:
  assumes "list_all (\<lambda>v. getenv m v = None) sound_variables"
  shows "sounds_pass m"
  using assms
  by (simp add: sound_variables_def sounds_pass_def resolve_sound_def sound_setting_def or_else_def
      cfg_enabled_def cfg_custom_def text_of_def sound_words)

lemma sublist_path_join:
  assumes "\<not> is_absolute b" "sublist w b"
  shows "sublist w (path_join a b)"
proof -
  obtain p q where "b = p @ w @ q"
    using assms(2) by (auto simp: sublist_def)
  then have "path_join a b = (a @ p) @ w @ q \<or> path_join a b = (a @ ''/'' @ p) @ w @ q"
    using assms(1) by (simp add: path_join_def)
  then show ?thesis
    unfolding sublist_def by blast
qed

lemma key_text: "map key_char ''test-session-123-pane-left'' = ''test-session-123-pane-left''"
  by code_simp

lemma token_file_named: "token_named m"
proof -
  let ?tail = "''agterm-agy-watch-'' @ nat_text (uid m) @ ''-'' @ ''test-session-123-pane-left'' @ ''.token''"
  have file_name: "get_watch_token_file m ''test-session-123'' (Some ''pane-left'') = path_join (tmp_dir m) ?tail"
    using key_text by (simp add: get_watch_token_file_def given_def text_of_def)
  have "\<not> is_absolute ?tail"
    by (simp add: is_absolute_def)
  moreover have "sublist ''test-session-123'' ?tail"
    unfolding sublist_def
    by (intro exI [of _ "''agterm-agy-watch-'' @ nat_text (uid m) @ ''-''"] exI [of _ "''-pane-left.token''"]) simp
  moreover have "sublist ''pane-left'' ?tail"
    unfolding sublist_def
    by (intro exI [of _ "''agterm-agy-watch-'' @ nat_text (uid m) @ ''-test-session-123-''"] exI [of _ "''.token''"]) simp
  ultimately show ?thesis
    unfolding token_named_def file_name Let_def by (blast intro: sublist_path_join)
qed

lemma prompt_seen: "is_prompt sample_permission_screen"
  by code_simp

lemma dict_answered: "\<exists>m'. handle_event mode (JObj kvs) m = Inr (m', mode_response mode)"
proof -
  obtain b where "stop_failed (JObj kvs) = Inr b"
    using stop_failed_dict [of kvs] by (cases "stop_failed (JObj kvs)") auto
  then show ?thesis
    by (auto simp: handle_event_def session_event_def Let_def)
qed

text \<open>A list of events with dictionaries passes when the answers expected are those of the modes.\<close>

lemma events_hold:
  "list_all (\<lambda>(mode, payload, answer). (\<exists>kvs. payload = JObj kvs) \<and> answer = mode_response mode) checks \<Longrightarrow>
     \<exists>m'. events_pass checks m = Some m'"
proof (induction checks arbitrary: m)
  case (Cons c checks)
  obtain mode kvs where c: "c = (mode, JObj kvs, mode_response mode)"
    using Cons.prems by auto
  show ?case
    using dict_answered [of mode kvs m] Cons c by auto
qed simp

lemma events_outside_session:
  assumes "\<not> given (getenv m ''AGTERM_SESSION_ID'')"
  shows "events_pass checks m = Some m \<or> events_pass checks m = None"
proof (induction checks)
  case (Cons c checks)
  then show ?case
    using assms by (cases c) (auto simp: handle_event_def)
qed simp

lemma event_answers_expected:
  "list_all (\<lambda>(mode, payload, answer). (\<exists>kvs. payload = JObj kvs) \<and> answer = mode_response mode) event_checks"
  by (simp add: event_checks_def mode_response_def)

text \<open>
  The test passes in every environment that sets none of the variables of the sounds and lets the
  token file be removed. Outside a session it changes nothing but that file.
\<close>

theorem self_test_lifecycle:
  assumes "list_all (\<lambda>v. getenv m v = None) sound_variables"
    and "get_watch_token_file m ''test-session-123'' (Some ''pane-left'') \<notin> set (remove_fails m)"
  shows "\<exists>m'. run_tests_lifecycle m = Some (m', 0) \<and>
    (given (getenv m ''AGTERM_SESSION_ID'') \<or> m' = stop_watcher ''test-session-123'' (Some ''pane-left'') m)"
proof -
  let ?m1 = "stop_watcher ''test-session-123'' (Some ''pane-left'') m"
  have env: "getenv ?m1 = getenv m"
    by (simp add: stop_watcher_def Let_def)
  have "token_gone ?m1"
    using assms(2) by (simp add: token_gone_def stop_watcher_get)
  moreover obtain m' where m': "events_pass event_checks ?m1 = Some m'"
    using events_hold [OF event_answers_expected] by blast
  ultimately have "run_tests_lifecycle m = Some (m', 0)"
    by (simp add: run_tests_lifecycle_def sounds_hold [OF assms(1)] token_file_named prompt_seen)
  moreover have "given (getenv m ''AGTERM_SESSION_ID'') \<or> m' = ?m1"
    using events_outside_session [of ?m1 event_checks] m' env by auto
  ultimately show ?thesis
    by blast
qed

text \<open>
  It is not independent of its environment: a sound that is on for the user makes its first
  assertion fail.
\<close>

theorem self_test_environment:
  assumes "getenv m ''AGTERM_ALERT_SOUND'' = Some ''true''" "getenv m ''AGTERM_SOUND_INPUT'' = None"
  shows "run_tests_lifecycle m = None"
proof -
  have "resolve_sound m ''input'' [] ''Sosumi'' = Some ''Sosumi''"
    using assms by (simp add: resolve_sound_def sound_setting_def or_else_def sound_words)
  then show ?thesis
    by (simp add: run_tests_lifecycle_def sounds_pass_def)
qed

end
