(* ===== verification/Ralphex_Link.thy ===== *)
theory Ralphex_Link
  imports Os_Write Py_Json
begin

text \<open>
  \<open>ralphex-plans-link-hook.py\<close>: for every workspace of the payload, make \<open>.ralphex/plans\<close> of the
  nearest \<open>.ralphex\<close> directory a relative link to the plan directory of the project. The
  programs \<open>git\<close>, \<open>hg\<close> and the resolver script are one function \<open>tool\<close> of the file tree, the
  command and the directory it runs in; it gives the return code and the output, nothing where
  running it raises.
\<close>

section \<open>The hook\<close>

record link_machine = rw_machine +
  tool :: "tree \<Rightarrow> string list \<Rightarrow> string \<Rightarrow> (int \<times> string) option"
  resolver :: string

text \<open>\<open>input\<close> is the parsed text, \<open>None\<close> where it does not parse.\<close>

fun path_entry :: "link_machine \<Rightarrow> json \<Rightarrow> string option" where
  "path_entry m (JStr p) = (if p \<noteq> [] \<and> is_dir m p then Some p else None)"
| "path_entry m v = None"

definition workspace_paths :: "link_machine \<Rightarrow> json option \<Rightarrow> string list" where
  "workspace_paths m input =
     (case input of
        Some (JObj kvs) \<Rightarrow>
          (case map_of kvs ''workspacePaths'' of
             Some (JArr ps) \<Rightarrow> List.map_filter (path_entry m) ps
           | _ \<Rightarrow> [])
      | _ \<Rightarrow> [])"

fun first_root :: "link_machine \<Rightarrow> string \<Rightarrow> string list list \<Rightarrow> string option" where
  "first_root m dir [] = None"
| "first_root m dir (cmd # cmds) =
     (case tool m (files m) cmd dir of
        Some (rc, out) \<Rightarrow>
          if rc = 0 \<and> trim out \<noteq> [] then Some (realpath m (trim out)) else first_root m dir cmds
      | None \<Rightarrow> first_root m dir cmds)"

definition vcs_root :: "link_machine \<Rightarrow> string \<Rightarrow> string option" where
  "vcs_root m dir = first_root m dir [[''git'', ''rev-parse'', ''--show-toplevel''], [''hg'', ''root'']]"

definition PLANS_SUBDIR :: string where
  "PLANS_SUBDIR = ''docs/plans''"

definition resolve_plans_dir :: "link_machine \<Rightarrow> string \<Rightarrow> string option" where
  "resolve_plans_dir m dir =
     (case tool m (files m) [''bash'', resolver m, PLANS_SUBDIR] dir of
        Some (rc, out) \<Rightarrow>
          if rc \<noteq> 0 \<or> \<not> suffix (''/'' @ PLANS_SUBDIR) (trim out) then None else Some (trim out)
      | None \<Rightarrow> None)"

definition has_ralphex :: "'a machine_scheme \<Rightarrow> string \<Rightarrow> bool" where
  "has_ralphex m d \<longleftrightarrow> is_dir m (path_join d ''.ralphex'')"

text \<open>The loop of \<open>nearest_ralphex\<close>, on the current directory.\<close>

function ralphex_walk :: "'a machine_scheme \<Rightarrow> string \<Rightarrow> string \<Rightarrow> string option" where
  "ralphex_walk m stop_dir here =
     (if has_ralphex m here then Some here
      else if here = stop_dir \<or> dirname here = here then None
      else ralphex_walk m stop_dir (dirname here))"
  by pat_completeness auto
termination
  by (relation "measure (\<lambda>(m, s, here). length here)") (auto intro: dirname_shorter)

declare ralphex_walk.simps [simp del]

definition nearest_ralphex :: "'a machine_scheme \<Rightarrow> string \<Rightarrow> string \<Rightarrow> string option" where
  "nearest_ralphex m start stop_dir = ralphex_walk m (realpath m stop_dir) (realpath m start)"

text \<open>\<open>os.path.relpath\<close> of two resolved paths.\<close>

fun common_length :: "comps \<Rightarrow> comps \<Rightarrow> nat" where
  "common_length (a # as) (b # bs) = (if a = b then Suc (common_length as bs) else 0)"
| "common_length as bs = 0"

definition rel_comps :: "comps \<Rightarrow> comps \<Rightarrow> comps" where
  "rel_comps path base =
     (let i = common_length base path in replicate (length base - i) ''..'' @ drop i path)"

definition relpath :: "comps \<Rightarrow> comps \<Rightarrow> string" where
  "relpath path base = (if rel_comps path base = [] then ''.'' else join ''/'' (rel_comps path base))"

definition link_target :: "'a machine_scheme \<Rightarrow> string \<Rightarrow> string \<Rightarrow> string" where
  "link_target m ralphex_root plans_dir =
     relpath (real_comps m plans_dir) (real_comps m (path_join ralphex_root ''.ralphex''))"

datatype outcome = Already_Link | Holds_Files | Not_Directory | Linked string | Failed

definition plans_link :: "string \<Rightarrow> string" where
  "plans_link ralphex_root = path_join (path_join ralphex_root ''.ralphex'') ''plans''"

definition ensure_link :: "link_machine \<Rightarrow> string \<Rightarrow> string \<Rightarrow> link_machine \<times> outcome" where
  "ensure_link m ralphex_root plans_dir =
     (let link = plans_link ralphex_root in
      if path_islink m link then (m, Already_Link)
      else if is_dir m link \<and> list_dir m link \<noteq> [] then (m, Holds_Files)
      else if \<not> is_dir m link \<and> path_lexists m link then (m, Not_Directory)
      else
        (case makedirs m plans_dir of
           (m1, False) \<Rightarrow> (m1, Failed)
         | (m1, True) \<Rightarrow>
             (let target = link_target m1 ralphex_root plans_dir in
              case (if is_dir m1 link then rmdir m1 link else (m1, True)) of
                (m2, False) \<Rightarrow> (m2, Failed)
              | (m2, True) \<Rightarrow>
                  (case symlink m2 target link of
                     (m3, ok) \<Rightarrow> (m3, if ok then Linked target else Failed)))))"

text \<open>
  One workspace: the machine, the directories seen and the log. An entry of the log is the
  directory and what \<open>ensure_link\<close> did there; \<open>Failed\<close> stands for the message of the exception.
\<close>

type_synonym progress = "link_machine \<times> string list \<times> (string \<times> outcome) list"

definition link_workspace :: "string \<Rightarrow> progress \<Rightarrow> progress" where
  "link_workspace workspace = (\<lambda>(m, seen, log).
     (case vcs_root m workspace of
        None \<Rightarrow> (m, seen, log)
      | Some stop_dir \<Rightarrow>
          if nearest_ralphex m workspace stop_dir = None then (m, seen, log)
          else
            (case resolve_plans_dir m workspace of
               None \<Rightarrow> (m, seen, log)
             | Some plans_dir \<Rightarrow>
                 (let project = take (length plans_dir - length (''/'' @ PLANS_SUBDIR)) plans_dir in
                  case nearest_ralphex m project stop_dir of
                    None \<Rightarrow> (m, seen, log)
                  | Some root \<Rightarrow>
                      if root \<in> set seen then (m, seen, log)
                      else
                        (case ensure_link m root plans_dir of
                           (m', r) \<Rightarrow>
                             (m', root # seen, log @ [(if r = Failed then workspace else root, r)]))))))"

definition process :: "link_machine \<Rightarrow> json option \<Rightarrow> progress" where
  "process m input = fold link_workspace (workspace_paths m input) (m, [], [])"

text \<open>\<open>main\<close> without its self test: what is printed, and the machine and the log it leaves.\<close>

definition main_link :: "link_machine \<Rightarrow> json option \<Rightarrow> string \<times> link_machine \<times> (string \<times> outcome) list" where
  "main_link m input = (case process m input of (m', seen, log) \<Rightarrow> (''{}'', m', log))"

section \<open>Laws: the search for \<open>.ralphex\<close>\<close>

definition candidates :: "comps \<Rightarrow> comps \<Rightarrow> string list" where
  "candidates stop_comps cs =
     map (\<lambda>k. path_string (take k cs))
       (rev [(if prefix stop_comps cs then length stop_comps else 0)..<Suc (length cs)])"

lemma candidates_step:
  assumes "cs \<noteq> []" "cs \<noteq> ts"
  shows "candidates ts cs = path_string cs # candidates ts (butlast cs)"
proof -
  obtain ds d where cs: "cs = ds @ [d]"
    using assms(1) by (cases cs rule: rev_cases) auto
  have p: "prefix ts cs \<longleftrightarrow> prefix ts ds"
    using assms(2) by (auto simp: cs)
  have le: "prefix ts ds \<Longrightarrow> length ts \<le> Suc (length ds)"
    using prefix_length_le by force
  have "map (\<lambda>k. path_string (take k (ds @ [d]))) (rev [l..<Suc (length ds)])
      = map (\<lambda>k. path_string (take k ds)) (rev [l..<Suc (length ds)])" for l
    by (rule map_cong) auto
  then show ?thesis
    using le p by (simp add: candidates_def cs)
qed

lemma ralphex_walk_find:
  "list_all clean_comp cs \<Longrightarrow> list_all clean_comp ts \<Longrightarrow>
     ralphex_walk m (path_string ts) (path_string cs) = find (has_ralphex m) (candidates ts cs)"
proof (induction cs rule: rev_induct)
  case Nil
  have "dirname (path_string []) = path_string []"
    by (simp add: path_string_def dirname_def)
  then show ?case
    by (cases "ts = []") (auto simp: ralphex_walk.simps [of m _ "path_string []"] candidates_def)
next
  case (snoc c cs)
  let ?cs = "cs @ [c]"
  have eq: "path_string ?cs = path_string ts \<longleftrightarrow> ?cs = ts"
    using snoc.prems by (rule path_string_inject)
  have up: "dirname (path_string ?cs) = path_string cs"
    by (rule dirname_path_string [OF snoc.prems(1)])
  have "path_string cs \<noteq> path_string ?cs"
    using path_string_inject [of cs ?cs] snoc.prems(1) by simp
  note step = ralphex_walk.simps [of m "path_string ts" "path_string ?cs"]
  show ?case
  proof (cases "?cs = ts")
    case True
    have "ralphex_walk m (path_string ts) (path_string ?cs)
        = (if has_ralphex m (path_string ?cs) then Some (path_string ?cs) else None)"
      using eq True by (subst step) simp
    moreover have "candidates ts ?cs = [path_string ?cs]"
      using True by (auto simp: candidates_def)
    ultimately show ?thesis
      by simp
  next
    case False
    then show ?thesis
      using snoc eq up \<open>path_string cs \<noteq> path_string ?cs\<close> candidates_step [of ?cs ts] by (simp add: step)
  qed
qed

section \<open>Laws: relative paths\<close>

lemma common_take: "take (common_length as bs) as = take (common_length as bs) bs"
  by (induction as bs rule: common_length.induct) auto

lemma common_le: "common_length as bs \<le> length as"
  by (induction as bs rule: common_length.induct) auto

lemma comps_of_join:
  assumes "cs \<noteq> []" "slash_free cs"
  shows "comps_of (join ''/'' cs) = cs"
  using comps_of_path_string [OF assms(2)] assms(1) by (simp add: comps_of_def path_string_def)

lemma join_relative: "slash_free cs \<Longrightarrow> cs \<noteq> [] \<Longrightarrow> hd cs \<noteq> [] \<Longrightarrow> \<not> is_absolute (join ''/'' cs)"
  by (cases cs rule: list.exhaust; cases "hd cs"; cases "tl cs") (auto simp: is_absolute_def)

lemma rel_comps_parts:
  assumes "list_all clean_comp path" "list_all clean_comp base"
  shows "slash_free (rel_comps path base)" "rel_comps path base \<noteq> [] \<Longrightarrow> hd (rel_comps path base) \<noteq> []"
proof -
  let ?i = "common_length base path"
  have d: "list_all clean_comp (drop ?i path)"
    using assms(1) by (auto simp: list_all_iff dest: in_set_dropD)
  then show "slash_free (rel_comps path base)"
    using clean_slash_free [OF d] by (simp add: rel_comps_def Let_def) (simp add: slash_free_def list_all_iff)
  show "rel_comps path base \<noteq> [] \<Longrightarrow> hd (rel_comps path base) \<noteq> []"
    using d by (cases "length base - ?i"; cases "drop ?i path") (auto simp: rel_comps_def Let_def clean_comp_def)
qed

lemma relpath_relative:
  assumes "list_all clean_comp path" "list_all clean_comp base"
  shows "\<not> is_absolute (relpath path base)" "relpath path base \<noteq> []"
proof -
  show rel: "\<not> is_absolute (relpath path base)"
    using rel_comps_parts [OF assms] join_relative by (auto simp: relpath_def is_absolute_def)
  show "relpath path base \<noteq> []"
    using rel_comps_parts [OF assms] by (cases "rel_comps path base" rule: list.exhaust; cases "tl (rel_comps path base)")
      (auto simp: relpath_def)
qed

text \<open>From the base the relative path leads to the path.\<close>

lemma walk_relpath:
  assumes "list_all clean_comp path" "list_all clean_comp base" "solid fs path" "solid fs base"
  shows "real_walk strict fs active base (comps_of (relpath path base)) = (path, True)"
proof -
  let ?i = "common_length base path"
  have same: "take ?i base = take ?i path"
    by (rule common_take)
  have walk: "real_walk strict fs active base (rel_comps path base) = (path, True)"
  proof -
    have "real_walk strict fs active base (rel_comps path base)
        = real_walk strict fs active (take ?i path) (drop ?i path)"
      using walk_up [OF assms(4), of "length base - ?i" strict active "drop ?i path"] common_le [of base path] same
      by (simp add: rel_comps_def Let_def)
    also have "\<dots> = real_walk strict fs active path []"
      using walk_down [of fs "take ?i path" "drop ?i path" strict active "[]"] assms(1,3)
      by (simp add: list_all_iff) (metis in_set_dropD)
    finally show ?thesis
      by simp
  qed
  show ?thesis
  proof (cases "rel_comps path base = []")
    case True
    then have "path = base"
      using walk by simp
    then show ?thesis
      using True walk_skip [OF solid_lookup [OF assms(4)], of "''.''" strict active "[]"]
      by (simp add: relpath_def comps_of_def)
  next
    case False
    then show ?thesis
      using walk comps_of_join [OF False rel_comps_parts(1) [OF assms(1,2)]] by (simp add: relpath_def)
  qed
qed

section \<open>Laws: what the hook leaves alone\<close>

text \<open>
  An entry of the tree survives \<open>ensure_link\<close>, except an empty directory of the name \<open>plans\<close>.
\<close>

lemma comps_of_append_slash: "comps_of (p @ CHR ''/'' # q) = comps_of p @ comps_of q"
  unfolding comps_of_def by (rule split_on_append_sep)

lemma last_plans: "last (comps_of (plans_link root)) = ''plans''"
proof -
  have "\<exists>x. plans_link root = x @ CHR ''/'' # ''plans''"
    by (auto simp: plans_link_def path_join_def is_absolute_def suffix_def)
  then obtain x where "plans_link root = x @ CHR ''/'' # ''plans''"
    by blast
  then show ?thesis
    by (simp add: comps_of_append_slash) (simp add: comps_of_def)
qed

lemma ensure_link_keeps:
  assumes "ensure_link m root plans_dir = (m', r)" "map_of (files m) k = Some n"
  shows "map_of (files m') k = Some n \<or>
         n = Dir \<and> children (files m) k = [] \<and> last k = ''plans''"
proof -
  let ?link = "plans_link root"
  obtain m1 ok1 where m1: "makedirs m plans_dir = (m1, ok1)"
    by (cases "makedirs m plans_dir")
  obtain m2 ok2 where m2: "(if is_dir m1 ?link then rmdir m1 ?link else (m1, True)) = (m2, ok2)"
    by (cases "if is_dir m1 ?link then rmdir m1 ?link else (m1, True)")
  obtain m3 ok3 where m3: "symlink m2 (link_target m1 root plans_dir) ?link = (m3, ok3)"
    by (cases "symlink m2 (link_target m1 root plans_dir) ?link")
  note n1 = makedirs_get [OF m1 assms(2)]
  have "files m' \<in> {files m, files m1, files m2, files m3}"
    using assms(1) m1 m2 m3 by (auto simp: ensure_link_def Let_def split: if_splits bool.splits)
  moreover consider "map_of (files m2) k = Some n"
    | "entry_of m1 ?link = Some k" "n = Dir" "children (files m1) k = []"
    using m2 n1 rmdir_get [of m1 ?link m2 ok2 k n] by (auto split: if_splits)
  then have "(map_of (files m2) k = Some n \<and> map_of (files m3) k = Some n) \<or>
      n = Dir \<and> children (files m) k = [] \<and> last k = ''plans''"
  proof cases
    case 1
    then show ?thesis
      using symlink_get [OF m3] by blast
  next
    case 2
    then show ?thesis
      using entry_of_walk [OF 2(1)] last_plans [of root] children_map_le [OF makedirs_map_le [OF m1]]
      by (metis last_snoc)
  qed
  ultimately show ?thesis
    using assms(2) n1 by auto
qed

lemma link_workspace_keeps:
  assumes "link_workspace w (m, seen, log) = (m', seen', log')" "map_of (files m) k = Some n" "n \<noteq> Dir"
  shows "map_of (files m') k = Some n"
proof -
  have "m' = m \<or> (\<exists>root plans_dir r. ensure_link m root plans_dir = (m', r))"
    using assms(1) by (auto simp: link_workspace_def Let_def split: option.splits if_splits prod.splits)
  then show ?thesis
    using ensure_link_keeps assms(2,3) by blast
qed

lemma fold_link_keeps:
  "fold link_workspace ws st = (m', rest) \<Longrightarrow> map_of (files (fst st)) k = Some n \<Longrightarrow> n \<noteq> Dir \<Longrightarrow>
     map_of (files m') k = Some n"
proof (induction ws arbitrary: st)
  case (Cons w ws)
  obtain m seen log where st: "st = (m, seen, log)"
    by (cases st)
  obtain m1 seen1 log1 where s1: "link_workspace w (m, seen, log) = (m1, seen1, log1)"
    by (cases "link_workspace w (m, seen, log)")
  show ?case
    using Cons.IH [of "(m1, seen1, log1)"] Cons.prems st s1 link_workspace_keeps [OF s1] by simp
qed simp

section \<open>Laws: where the link leads\<close>

lemma path_join_path_string:
  assumes "list_all clean_comp cs" "clean_comp c"
  shows "path_join (path_string cs) c = path_string (cs @ [c])"
proof -
  have "\<not> is_absolute c"
    using assms(2) by (cases c) (auto simp: is_absolute_def clean_comp_def)
  moreover have "suffix ''/'' (path_string cs) \<longleftrightarrow> cs = []"
    using path_string_last [OF assms(1)] by (cases "cs = []") (auto simp: suffix_def, auto simp: path_string_def)
  moreover have "path_string cs \<noteq> []"
    by (simp add: path_string_def)
  ultimately show ?thesis
    using path_string_append [of cs "[c]"] path_string_def [of "[]"]
    by (cases "cs = []") (simp_all add: path_join_def path_string_Cons)
qed

lemma ensure_link_calls:
  assumes m1: "makedirs m plans_dir = (m1, ok1)"
    and m2: "(if is_dir m1 (plans_link root) then rmdir m1 (plans_link root) else (m1, True)) = (m2, ok2)"
    and m3: "symlink m2 (link_target m1 root plans_dir) (plans_link root) = (m3, ok3)"
  shows "ensure_link m root plans_dir =
     (if path_islink m (plans_link root) then (m, Already_Link)
      else if is_dir m (plans_link root) \<and> list_dir m (plans_link root) \<noteq> [] then (m, Holds_Files)
      else if \<not> is_dir m (plans_link root) \<and> path_lexists m (plans_link root) then (m, Not_Directory)
      else if \<not> ok1 then (m1, Failed)
      else if \<not> ok2 then (m2, Failed)
      else (m3, if ok3 then Linked (link_target m1 root plans_dir) else Failed))"
proof (cases ok1)
  case True
  then show ?thesis
    unfolding ensure_link_def Let_def m1 m3
    by (cases ok2) (simp_all only: prod.case bool.case m2 m3 True if_True if_False simp_thms)
next
  case False
  then show ?thesis
    unfolding ensure_link_def Let_def m1 by (simp only: prod.case bool.case if_True if_False simp_thms)
qed

lemma ensure_link_LinkedD:
  assumes "ensure_link m root plans_dir = (m', Linked t)"
  shows "\<exists>m1 m2. makedirs m plans_dir = (m1, True) \<and> t = link_target m1 root plans_dir \<and>
     (if is_dir m1 (plans_link root) then rmdir m1 (plans_link root) else (m1, True)) = (m2, True) \<and>
     symlink m2 t (plans_link root) = (m', True)"
proof -
  let ?link = "plans_link root"
  obtain m1 ok1 where m1: "makedirs m plans_dir = (m1, ok1)"
    by (cases "makedirs m plans_dir")
  obtain m2 ok2 where m2: "(if is_dir m1 ?link then rmdir m1 ?link else (m1, True)) = (m2, ok2)"
    by (cases "if is_dir m1 ?link then rmdir m1 ?link else (m1, True)")
  obtain m3 ok3 where m3: "symlink m2 (link_target m1 root plans_dir) ?link = (m3, ok3)"
    by (cases "symlink m2 (link_target m1 root plans_dir) ?link")
  have "ok1 \<and> ok2 \<and> ok3 \<and> m3 = m' \<and> t = link_target m1 root plans_dir"
    using assms ensure_link_calls [OF m1 m2 m3] by (auto split: if_splits)
  then show ?thesis
    using m1 m2 m3 by (intro exI [of _ m1] exI [of _ m2]) simp
qed

text \<open>The tree after a link was made in a resolved directory.\<close>

lemma is_dir_plans:
  assumes "makedirs m plans_dir = (m1, True)" "machine_ok m" "rooted m" "suffix (''/'' @ PLANS_SUBDIR) plans_dir"
  shows "solid (files m1) (real_comps m1 plans_dir)" "list_all clean_comp (real_comps m1 plans_dir)"
proof -
  obtain x where "plans_dir = (x @ ''/docs'') @ CHR ''/'' # ''plans''"
    using assms(4) by (auto simp: suffix_def PLANS_SUBDIR_def)
  then have "basename plans_dir = ''plans''"
    by (simp only:) (rule basename_append_slash, simp)
  then have "snd (split_tail plans_dir) \<noteq> ''.''"
    by (simp add: split_tail_def split_path_def)
  then have "is_dir m1 plans_dir"
    by (rule makedirs_is_dir [OF assms(1,3)])
  then show "solid (files m1) (real_comps m1 plans_dir)" "list_all clean_comp (real_comps m1 plans_dir)"
    using is_dir_solid [of m1 plans_dir] makedirs_frame [OF assms(1,3)] assms(2) by (simp_all add: machine_ok_def)
qed

lemma clean_plans: "list_all clean_comp R \<Longrightarrow> list_all clean_comp ((R @ [''.ralphex'']) @ [''plans''])"
  by (simp add: clean_comp_def)

lemma plans_link_string: "list_all clean_comp R \<Longrightarrow>
    path_join (path_string R) ''.ralphex'' = path_string (R @ [''.ralphex'']) \<and>
    plans_link (path_string R) = path_string ((R @ [''.ralphex'']) @ [''plans''])"
  using path_join_path_string [of R "''.ralphex''"] path_join_path_string [of "R @ [''.ralphex'']" "''plans''"]
    clean_plans [of R] by (simp add: plans_link_def)

lemma linked_tree_shape:
  assumes made: "ensure_link m (path_string R) plans_dir = (m', Linked t)" and R: "list_all clean_comp R"
    and B: "B = R @ [''.ralphex'']" "solid (files m) B"
    and m1: "makedirs m plans_dir = (m1, True)" and P: "P = real_comps m1 plans_dir" "solid (files m1) P"
    and apart: "\<not> prefix (B @ [''plans'']) P"
  shows "solid (files m') B" "solid (files m') P"
    "map_of (files m') (B @ [''plans'']) = Some (Link (relpath P B))"
proof -
  let ?E = "B @ [''plans'']" and ?link = "plans_link (path_string R)"
  have link: "?link = path_string ?E" and join: "path_join (path_string R) ''.ralphex'' = path_string B"
    using plans_link_string [OF R] B(1) by auto
  have cE: "list_all clean_comp ?E" and cB: "list_all clean_comp B"
    using clean_plans [OF R] B(1) by auto
  have EB: "\<not> prefix ?E B"
    by (auto dest: prefix_length_le)
  obtain m2 where t: "t = link_target m1 (path_string R) plans_dir"
    and m2: "(if is_dir m1 ?link then rmdir m1 ?link else (m1, True)) = (m2, True)"
    and m3: "symlink m2 t ?link = (m', True)"
    using ensure_link_LinkedD [OF made] m1 by auto
  have B1: "solid (files m1) B"
    using B(2) makedirs_map_le [OF m1] by (rule solid_map_le)
  then have t': "t = relpath P B"
    using real_comps_solid [OF B1 cB] join t P(1) by (simp add: link_target_def)
  have "entry_of m1 ?link = Some ?E"
    using entry_of_solid [OF B1 cE] link by simp
  then have "files m2 = files m1 \<or> files m2 = del_entry ?E (files m1)"
    using m2 by (cases "is_dir m1 ?link") (simp_all add: rmdir_def split: if_splits, auto)
  then have s2: "solid (files m2) B" "solid (files m2) P"
    using B1 P(2) solid_del EB apart by auto
  have "entry_of m2 ?link = Some ?E"
    using entry_of_solid [OF s2(1) cE] link by simp
  then have f': "files m' = put_entry ?E (Link t) (files m2)"
    using m3 by (auto simp: symlink_def split: if_splits)
  then show "solid (files m') B" "solid (files m') P" "map_of (files m') ?E = Some (Link (relpath P B))"
    using s2 solid_put EB apart t' by (auto simp: entry_store.get_put)
qed

text \<open>Walking along a relative link that leads from its directory to a path of directories.\<close>

lemma walk_plans_link:
  assumes "solid fs B" "solid fs P" "list_all clean_comp P" "list_all clean_comp (B @ [c])"
    "map_of fs (B @ [c]) = Some (Link (relpath P B))"
  shows "real_walk strict fs [] [] (comps_of (path_string (B @ [c]))) = (P, True)"
proof -
  have "real_walk strict fs [] [] (comps_of (path_string (B @ [c]))) = real_walk strict fs [] B [c]"
    using walk_down [of fs "[]" B strict "[]" "[c]"] assms(1,4) comps_of_path_string [of "B @ [c]"]
      walk_skip [of fs "[]" "[]" strict "[]" "B @ [c]"] clean_slash_free [OF assms(4)]
    by (simp add: lookup_def)
  also have "\<dots> = (P, True)"
    using walk_link [OF solid_lookup [OF assms(1)] _ assms(5), of "[]" strict P "[]"]
      walk_relpath [OF assms(3) _ assms(2,1)] relpath_relative [OF assms(3), of B] assms(4) by simp
  finally show ?thesis .
qed

end
