(* ===== verification/Ralphex_Properties.thy ===== *)
theory Ralphex_Properties
  imports Ralphex_Link Os_Tree
begin

text \<open>
  The properties of the plan link hook: which \<open>.ralphex\<close> directory it takes, that it destroys no
  file and no link, and where the link it makes leads.
\<close>

section \<open>A sample project\<close>

definition sample_tree :: tree where
  "sample_tree =
     [([''r''], Dir), ([''r'', ''.ralphex''], Dir), ([''r'', ''e2e''], Dir), ([''r'', ''notes''], File ''keep'' 3)]"

definition sample_link :: link_machine where
  "sample_link =
     \<lparr>files = sample_tree, cwd = [''r''], home = ''/home/u'', users = [], clock = 0, denied = [],
      tool = (\<lambda>fs cmd dir. None), resolver = ''/x/resolve-project-dir.sh''\<rparr>"

section \<open>Which directory\<close>

text \<open>
  C37: \<open>nearest_ralphex\<close> gives the first directory with a \<open>.ralphex\<close> directory among the resolved
  start and its ancestors, nearest first, down to the stop directory if that is one of them, and
  down to the root of the file system if it is not.
\<close>

theorem nearest_is_first:
  assumes "machine_ok m"
  shows "nearest_ralphex m start stop_dir =
     find (has_ralphex m) (candidates (real_comps m stop_dir) (real_comps m start))"
  unfolding nearest_ralphex_def realpath_def
  using real_comps_clean [OF assms] by (intro ralphex_walk_find)

theorem nearest_is_first_witness:
  "nearest_ralphex sample_link ''/r/e2e'' ''/r'' =
     find (has_ralphex sample_link) (candidates (real_comps sample_link ''/r'') (real_comps sample_link ''/r/e2e''))"
  by (rule nearest_is_first) (simp add: machine_ok_def sample_link_def clean_comp_def)

section \<open>Nothing is lost\<close>

text \<open>
  C13: Whatever the payload and the external programs give, every file and every link of the tree
  is as it was after the hook has run, and the output is the empty object.
\<close>

theorem hook_keeps_files:
  assumes "map_of (files m) k = Some n" "n \<noteq> Dir"
  shows "\<exists>m' log. main_link m input = (''{}'', m', log) \<and> map_of (files m') k = Some n"
proof -
  obtain m' seen log where p: "process m input = (m', seen, log)"
    by (cases "process m input")
  then have "map_of (files m') k = Some n"
    using fold_link_keeps [of "workspace_paths m input" "(m, [], [])" m' "(seen, log)" k n] assms
    by (simp add: process_def)
  then show ?thesis
    using p by (simp add: main_link_def)
qed

theorem hook_keeps_files_witness:
  "\<exists>m' log. main_link sample_link None = (''{}'', m', log) \<and>
     map_of (files m') [''r'', ''notes''] = Some (File ''keep'' 3)"
  by (rule hook_keeps_files) (simp_all add: sample_link_def sample_tree_def)

section \<open>Effects on the tree\<close>

lemma ensure_link_steps: "ensure_link m root plans_dir = (m', r) \<Longrightarrow> tree_step\<^sup>*\<^sup>* (files m) (files m')"
  by (auto simp: ensure_link_def Let_def split: if_splits prod.splits bool.splits
      dest!: makedirs_steps rmdir_steps symlink_steps intro: rtranclp_trans)

lemma link_workspace_steps:
  "link_workspace w (m, seen, log) = (m', seen', log') \<Longrightarrow> tree_step\<^sup>*\<^sup>* (files m) (files m')"
  by (auto simp: link_workspace_def Let_def split: option.splits if_splits prod.splits dest: ensure_link_steps)

lemma fold_link_steps: "fold link_workspace ws st = (m', rest) \<Longrightarrow> tree_step\<^sup>*\<^sup>* (files (fst st)) (files m')"
proof (induction ws arbitrary: st)
  case (Cons w ws)
  obtain m seen log m1 seen1 log1 where st: "st = (m, seen, log)"
      and s1: "link_workspace w (m, seen, log) = (m1, seen1, log1)"
    by (cases st, cases "link_workspace w st") auto
  show ?case
    using Cons.IH [of "(m1, seen1, log1)"] Cons.prems st s1 link_workspace_steps [OF s1]
    by (auto intro: rtranclp_trans)
qed simp

lemma main_link_steps: "main_link m input = (out, m', log) \<Longrightarrow> tree_step\<^sup>*\<^sup>* (files m) (files m')"
  using fold_link_steps [of "workspace_paths m input" "(m, [], [])"]
  by (auto simp: main_link_def process_def split: prod.splits)

section \<open>Where the link leads\<close>

text \<open>
  C12: When a link is made below a resolved directory whose \<open>.ralphex\<close> is no link itself, the link
  resolves to the plan directory, which exists, and a second call finds the link and does nothing;
  provided that the plan directory is not inside \<open>.ralphex/plans\<close> itself.
\<close>

theorem link_leads_to_plans:
  assumes made: "ensure_link m root plans_dir = (m', Linked t)"
    and root: "root = path_string R" "list_all clean_comp R" "solid (files m) (R @ [''.ralphex''])"
    and ok: "machine_ok m" "rooted m" and sub: "suffix (''/'' @ PLANS_SUBDIR) plans_dir"
    and m1: "m1 = fst (makedirs m plans_dir)"
    and apart: "\<not> prefix (R @ [''.ralphex'', ''plans'']) (real_comps m1 plans_dir)"
  shows "is_dir m' (plans_link root) \<and> real_comps m' (plans_link root) = real_comps m1 plans_dir \<and>
     ensure_link m' root plans_dir' = (m', Already_Link)"
proof -
  let ?B = "R @ [''.ralphex'']" and ?P = "real_comps m1 plans_dir"
  have mk: "makedirs m plans_dir = (m1, True)"
    using ensure_link_LinkedD [OF made] m1 by auto
  have P: "solid (files m1) ?P" "list_all clean_comp ?P"
    using is_dir_plans [OF mk ok sub] by auto
  have link: "plans_link root = path_string (?B @ [''plans''])" and clean: "list_all clean_comp (?B @ [''plans''])"
    using plans_link_string [OF root(2)] clean_plans [OF root(2)] root(1) by auto
  note tree = linked_tree_shape [OF made [unfolded root(1)] root(2) refl root(3) mk refl P(1)]
  have s: "solid (files m') ?B" "solid (files m') ?P" "map_of (files m') (?B @ [''plans'']) = Some (Link (relpath ?P ?B))"
    using tree apart by simp_all
  have walk: "real_walk strict (files m') [] [] (comps_of (plans_link root)) = (?P, True)" for strict
    using walk_plans_link [OF s(1,2) P(2) clean s(3)] link by simp
  have start: "start_of m' (plans_link root) = []" "plans_link root \<noteq> []"
    by (simp_all add: link start_of_def is_absolute_def path_string_def)
  have "is_dir m' (plans_link root)"
    using walk [of True] start solid_lookup [OF s(2)] by (simp add: is_dir_def stat_node_def)
  moreover have "real_comps m' (plans_link root) = ?P"
    using walk [of False] start norm_comps_id [OF P(2), of "[]"] by (simp add: real_comps_def)
  moreover have "path_islink m' (plans_link root)"
    using entry_of_solid [OF s(1) clean] s(3) link by (simp add: path_islink_def lstat_node_def)
  ultimately show ?thesis
    by (simp add: ensure_link_def)
qed

theorem link_leads_to_plans_witness:
  "is_dir (fst (ensure_link sample_link ''/r'' ''/r/docs/plans'')) (plans_link ''/r'') \<and>
   real_comps (fst (ensure_link sample_link ''/r'' ''/r/docs/plans'')) (plans_link ''/r'')
     = real_comps (fst (makedirs sample_link ''/r/docs/plans'')) ''/r/docs/plans'' \<and>
   ensure_link (fst (ensure_link sample_link ''/r'' ''/r/docs/plans'')) ''/r'' ''/r/docs/plans''
     = (fst (ensure_link sample_link ''/r'' ''/r/docs/plans''), Already_Link)"
proof (rule link_leads_to_plans [where t = "''../docs/plans''" and R = "[''r'']" and m = sample_link
      and plans_dir = "''/r/docs/plans''"])
  have "snd (ensure_link sample_link ''/r'' ''/r/docs/plans'') = Linked ''../docs/plans''"
    by code_simp
  then show "ensure_link sample_link ''/r'' ''/r/docs/plans''
      = (fst (ensure_link sample_link ''/r'' ''/r/docs/plans''), Linked ''../docs/plans'')"
    by (simp add: prod_eq_iff)
  show "\<not> prefix ([''r''] @ [''.ralphex'', ''plans''])
      (real_comps (fst (makedirs sample_link ''/r/docs/plans'')) ''/r/docs/plans'')"
    by code_simp
  show "rooted sample_link" "solid (files sample_link) ([''r''] @ [''.ralphex''])"
    by code_simp+
qed (rule refl | code_simp)+

definition linked_tree :: tree where
  "linked_tree =
     [([''r''], Dir), ([''r'', ''.ralphex''], Dir), ([''r'', ''.ralphex'', ''plans''], Dir),
      ([''r'', ''docs''], Dir), ([''r'', ''docs'', ''plans''], Link ''../.ralphex/plans'')]"

definition linked_project :: link_machine where
  "linked_project = sample_link\<lparr>files := linked_tree\<rparr>"

text \<open>
  A project whose \<open>docs/plans\<close> is a link to an empty \<open>.ralphex/plans\<close> loses both: the hook
  replaces the directory by a link to itself, after which neither path leads anywhere.
\<close>

theorem link_to_itself:
  "is_dir linked_project ''/r/docs/plans'' \<and>
   snd (ensure_link linked_project ''/r'' ''/r/docs/plans'') = Linked ''plans'' \<and>
   \<not> is_dir (fst (ensure_link linked_project ''/r'' ''/r/docs/plans'')) ''/r/docs/plans'' \<and>
   \<not> is_dir (fst (ensure_link linked_project ''/r'' ''/r/docs/plans'')) (plans_link ''/r'')"
  by code_simp

end
