(* ===== verification/Ralphex_Selftest.thy ===== *)
theory Ralphex_Selftest
  imports Ralphex_Link
begin

text \<open>
  The embedded self test of \<open>ralphex-plans-link-hook.py\<close>: a sequence of changes of a temporary
  directory and of checks in between. A call of the test itself that raises ends it with nothing.
\<close>

section \<open>Messages\<close>

text \<open>What \<open>ensure_link\<close> returns as text; an exception has none here.\<close>

definition message :: "outcome \<Rightarrow> string" where
  "message r =
     (case r of
        Already_Link \<Rightarrow> ''skip: .ralphex/plans is already a symlink''
      | Holds_Files \<Rightarrow> ''skip: .ralphex/plans holds files, left untouched''
      | Not_Directory \<Rightarrow> ''skip: .ralphex/plans is not a directory''
      | Linked target \<Rightarrow> ''linked .ralphex/plans -> '' @ target
      | Failed \<Rightarrow> [])"

definition read_link :: "'a machine_scheme \<Rightarrow> string \<Rightarrow> string option" where
  "read_link m p = (case lstat_node m p of Some (Link t) \<Rightarrow> Some t | _ \<Rightarrow> None)"

section \<open>Steps of the test\<close>

text \<open>The machine and the names of the checks that failed so far.\<close>

type_synonym test_state = "link_machine \<times> string list"

definition check :: "string \<Rightarrow> (link_machine \<Rightarrow> bool) \<Rightarrow> test_state \<Rightarrow> test_state option" where
  "check name cond = (\<lambda>(m, failures). Some (m, if cond m then failures else failures @ [name]))"

definition perform :: "(link_machine \<Rightarrow> link_machine \<times> bool) \<Rightarrow> test_state \<Rightarrow> test_state option" where
  "perform call = (\<lambda>(m, failures). (case call m of (m', ok) \<Rightarrow> if ok then Some (m', failures) else None))"

text \<open>A check on the message of \<open>ensure_link\<close>, and \<open>os.makedirs\<close> of a directory that must be new.\<close>

definition check_link ::
    "string \<Rightarrow> string \<Rightarrow> string \<Rightarrow> (string \<Rightarrow> bool) \<Rightarrow> test_state \<Rightarrow> test_state option" where
  "check_link name root plans cond = (\<lambda>(m, failures).
     (case ensure_link m root plans of
        (m', r) \<Rightarrow> if r = Failed then None else check name (\<lambda>_. cond (message r)) (m', failures)))"

definition new_dirs :: "string \<Rightarrow> link_machine \<Rightarrow> link_machine \<times> bool" where
  "new_dirs p m = (if path_lexists m p then (m, False) else makedirs m p)"

definition new_file :: "string \<Rightarrow> string \<Rightarrow> link_machine \<Rightarrow> link_machine \<times> bool" where
  "new_file p content m = write_text m p content"

fun run_steps :: "(test_state \<Rightarrow> test_state option) list \<Rightarrow> test_state \<Rightarrow> test_state option" where
  "run_steps [] st = Some st"
| "run_steps (f # fs) st = (case f st of Some st' \<Rightarrow> run_steps fs st' | None \<Rightarrow> None)"

section \<open>The test\<close>

definition payload_steps :: "string \<Rightarrow> (test_state \<Rightarrow> test_state option) list" where
  "payload_steps tmp =
     [check ''payload: malformed JSON'' (\<lambda>m. workspace_paths m None = []),
      check ''payload: non-object'' (\<lambda>m. workspace_paths m (Some (JArr [JNum 1, JNum 2])) = []),
      check ''payload: missing key'' (\<lambda>m. workspace_paths m (Some (JObj [])) = []),
      check ''payload: non-list'' (\<lambda>m. workspace_paths m (Some (JObj [(''workspacePaths'', JStr ''x'')])) = []),
      check ''payload: keeps existing dirs only, in order''
        (\<lambda>m. workspace_paths m (Some (JObj [(''workspacePaths'',
                JArr [JStr tmp, JNum 7, JStr [], JStr (tmp @ ''/nope''), JStr tmp])])) = [tmp, tmp])]"

definition nearest_steps :: "string \<Rightarrow> (test_state \<Rightarrow> test_state option) list" where
  "nearest_steps tmp =
     (let repo = path_join tmp ''repo'';
          sub = path_join (path_join repo ''sub'') ''deep'' in
      [perform (new_dirs sub),
       check ''nearest: none found'' (\<lambda>m. nearest_ralphex m sub repo = None),
       perform (new_dirs (path_join repo ''.ralphex'')),
       check ''nearest: repo root'' (\<lambda>m. nearest_ralphex m sub repo = Some repo),
       perform (new_dirs (path_join (path_join repo ''sub'') ''.ralphex'')),
       check ''nearest: closest wins'' (\<lambda>m. nearest_ralphex m sub repo = Some (path_join repo ''sub'')),
       check ''nearest: never past stop'' (\<lambda>m. nearest_ralphex m repo sub = Some repo),
       perform (new_file (path_join sub ''.ralphex'') ''file, not dir''),
       check ''nearest: a .ralphex file does not count''
         (\<lambda>m. nearest_ralphex m sub repo = Some (path_join repo ''sub''))])"

definition target_steps :: "string \<Rightarrow> (test_state \<Rightarrow> test_state option) list" where
  "target_steps tmp =
     (let repo = path_join tmp ''repo'' in
      [check ''target: sub-project from repo root''
         (\<lambda>m. link_target m repo (path_join (path_join (path_join repo ''e2e'') ''docs'') ''plans'') = ''../e2e/docs/plans''),
       check ''target: same project''
         (\<lambda>m. link_target m repo (path_join (path_join repo ''docs'') ''plans'') = ''../docs/plans'')])"

definition link_steps :: "string \<Rightarrow> (test_state \<Rightarrow> test_state option) list" where
  "link_steps tmp =
     (let repo = path_join tmp ''repo'';
          plans = path_join (path_join repo ''docs'') ''plans'';
          link = path_join (path_join repo ''.ralphex'') ''plans'' in
      [check_link ''link: created when missing'' repo plans (prefix ''linked''),
       check ''link: is relative symlink'' (\<lambda>m. read_link m link = Some ''../docs/plans''),
       check ''link: plans dir created'' (\<lambda>m. is_dir m plans),
       check_link ''link: idempotent'' repo plans (prefix ''skip: .ralphex/plans is already'')])"

definition replace_steps :: "string \<Rightarrow> (test_state \<Rightarrow> test_state option) list" where
  "replace_steps tmp =
     (let other = path_join tmp ''other'';
          other_link = path_join (path_join other ''.ralphex'') ''plans'';
          full = path_join tmp ''full'';
          full_link = path_join (path_join full ''.ralphex'') ''plans'';
          old = path_join full_link ''old.md'' in
      [perform (new_dirs other_link),
       check_link ''link: empty dir replaced'' other (path_join (path_join other ''docs'') ''plans'') (prefix ''linked''),
       check ''link: empty dir is now a symlink'' (\<lambda>m. path_islink m other_link),
       perform (new_dirs full_link),
       perform (new_file old ''old plan''),
       check_link ''link: non-empty dir skipped'' full (path_join (path_join full ''docs'') ''plans'')
         (sublist ''holds files''),
       check ''link: old plan untouched'' (\<lambda>m. read_text m old = Some ''old plan''),
       check ''link: no docs/plans created on skip'' (\<lambda>m. \<not> path_exists m (path_join full ''docs''))])"

text \<open>
  The whole test in the directory that \<open>tempfile.TemporaryDirectory\<close> makes under a given name and
  removes in the end: the exit code, the checks that failed, and the machine afterwards.
\<close>

definition remove_below :: "comps \<Rightarrow> link_machine \<Rightarrow> link_machine" where
  "remove_below d m = m\<lparr>files := filter (\<lambda>e. \<not> prefix d (fst e)) (files m)\<rparr>"

definition run_tests_link :: "link_machine \<Rightarrow> string \<Rightarrow> (int \<times> string list \<times> link_machine) option" where
  "run_tests_link m0 name =
     (case mkdir m0 name of
        (m, made) \<Rightarrow>
          if \<not> made then None
          else
            (let tmp = realpath m name in
             case run_steps (payload_steps tmp @ nearest_steps tmp @ target_steps tmp @ link_steps tmp @ replace_steps tmp)
                    (m, []) of
               None \<Rightarrow> None
             | Some (m', failures) \<Rightarrow>
                 Some (if failures = [] then 0 else 1, failures, remove_below (real_comps m name) m')))"

section \<open>It passes\<close>

text \<open>
  On two machines, one of them with a temporary directory behind a link, all checks pass and the
  tree is in the end what it was.
\<close>

definition test_machine :: "tree \<Rightarrow> link_machine" where
  "test_machine fs =
     \<lparr>files = fs, cwd = [], home = ''/home/u'', users = [], clock = 1, denied = [],
      tool = (\<lambda>fs cmd dir. None), resolver = ''/r.sh''\<rparr>"

definition test_passes :: "link_machine \<Rightarrow> string \<Rightarrow> bool" where
  "test_passes m name \<longleftrightarrow>
     (case run_tests_link m name of
        Some (rc, failures, m') \<Rightarrow> rc = 0 \<and> failures = [] \<and> files m' = files m
      | None \<Rightarrow> False)"

theorem self_test_link:
  "test_passes (test_machine [([''tmp''], Dir), ([''tmp'', ''x''], File ''y'' 0)]) ''/tmp/t1''"
  by code_simp

theorem self_test_link_behind_link:
  "test_passes (test_machine [([''tmp''], Link ''private/tmp''), ([''private''], Dir), ([''private'', ''tmp''], Dir)])
     ''/tmp/t1''"
  by code_simp

end
