(* ===== verification/Frontmatter.thy ===== *)
theory Frontmatter
  imports Os_Write "HOL-Library.Char_ord" "HOL-Library.List_Lexorder"
begin

text \<open>
  \<open>check-frontmatter.py\<close>: the check of one document, the walk over a tree and the exit code.
  The YAML parser is not part of the repository: it is the argument \<open>yaml\<close>, which gives the text
  of the error, or nothing where the block parses.
\<close>

section \<open>One document\<close>

text \<open>\<open>s.find(p, k)\<close>, \<open>None\<close> for -1, and the slice \<open>s[i:j]\<close>.\<close>

fun find_at :: "string \<Rightarrow> string \<Rightarrow> nat option" where
  "find_at p [] = (if p = [] then Some 0 else None)"
| "find_at p (c # s) = (if prefix p (c # s) then Some 0 else map_option Suc (find_at p s))"

definition find_from :: "string \<Rightarrow> nat \<Rightarrow> string \<Rightarrow> nat option" where
  "find_from p k s = map_option ((+) k) (find_at p (drop k s))"

definition slice :: "nat \<Rightarrow> nat \<Rightarrow> string \<Rightarrow> string" where
  "slice i j s = drop i (take j s)"

definition unterminated :: string where
  "unterminated = ''unterminated frontmatter: no closing '' @ [CHR 0x27] @ ''---'' @ [CHR 0x27] @
     ''. if the document deliberately opens with a horizontal rule, write it as '' @
     [CHR 0x27] @ ''***'' @ [CHR 0x27]"

definition check_content :: "(string \<Rightarrow> string option) \<Rightarrow> string \<Rightarrow> string option" where
  "check_content yaml content =
     (if \<not> prefix (''---'' @ [nl]) content then None
      else
        (case find_from ([nl] @ ''---'' @ [nl]) 3 content of
           Some end_at \<Rightarrow> yaml (slice 4 end_at content)
         | None \<Rightarrow>
             if suffix ([nl] @ ''---'') content then yaml (slice 4 (length content - 4) content)
             else Some unterminated))"

section \<open>The tree\<close>

definition names_in :: "tree \<Rightarrow> comps \<Rightarrow> string list" where
  "names_in fs d = sort (remdups (children fs d))"

fun check_files :: "(string \<Rightarrow> string option) \<Rightarrow> 'a machine_scheme \<Rightarrow> string \<Rightarrow> string list
     \<Rightarrow> (string \<times> string) list result" where
  "check_files yaml m dirpath [] = Inr []"
| "check_files yaml m dirpath (name # names) =
     (if \<not> suffix ''.md'' name then check_files yaml m dirpath names
      else
        (case read_text m (path_join dirpath name) of
           None \<Rightarrow> Inl OSError
         | Some content \<Rightarrow>
             bind_res (check_files yaml m dirpath names) (\<lambda>rest.
               Inr (case check_content yaml content of
                      Some error \<Rightarrow> if error \<noteq> [] then (path_join dirpath name, error) # rest else rest
                    | None \<Rightarrow> rest))))"

text \<open>
  The walk of \<open>os.walk\<close>: the files of a directory, then its directories in order, links to
  directories listed but not entered. \<open>d\<close> is the resolved directory, \<open>dirpath\<close> its name.
\<close>

lemma below_less:
  assumes "n \<in> set (children fs d)"
  shows "length (filter (\<lambda>e. strict_prefix (d @ [n]) (fst e)) fs) < length (filter (\<lambda>e. strict_prefix d (fst e)) fs)"
proof -
  obtain e where e: "e \<in> set fs" "fst e \<noteq> []" "butlast (fst e) = d" "last (fst e) = n"
    using assms by (auto simp: children_def)
  then have k: "fst e = d @ [n]"
    using append_butlast_last_id by metis
  have "length (filter (\<lambda>e. strict_prefix (d @ [n]) (fst e)) zs) \<le> length (filter (\<lambda>e. strict_prefix d (fst e)) zs)"
    for zs :: tree
    by (induction zs) (auto simp: strict_prefix_def prefix_def)
  moreover obtain xs ys where "fs = xs @ e # ys"
    using e(1) by (auto simp: in_set_conv_decomp)
  ultimately show ?thesis
    using k by (auto simp: strict_prefix_def le_imp_less_Suc add_mono)
qed

function walk_tree :: "(string \<Rightarrow> string option) \<Rightarrow> 'a machine_scheme \<Rightarrow> comps \<Rightarrow> string
     \<Rightarrow> (string \<times> string) list result" where
  "walk_tree yaml m d dirpath =
     (let names = names_in (files m) d;
          dirs = filter (\<lambda>n. is_dir m (path_join dirpath n)) names in
      bind_res (check_files yaml m dirpath (filter (\<lambda>n. \<not> is_dir m (path_join dirpath n)) names)) (\<lambda>here.
        fold (\<lambda>n acc. bind_res acc (\<lambda>xs.
                 if n \<noteq> ''.git'' \<and> \<not> path_islink m (path_join dirpath n)
                 then bind_res (walk_tree yaml m (d @ [n]) (path_join dirpath n)) (\<lambda>ys. Inr (xs @ ys))
                 else Inr xs))
          dirs (Inr here)))"
  by pat_completeness auto
termination
  by (relation "measure (\<lambda>(yaml, m, d, p). length (filter (\<lambda>e. strict_prefix d (fst e)) (files m)))")
    (auto simp: names_in_def below_less)

declare walk_tree.simps [simp del]

definition check_tree :: "(string \<Rightarrow> string option) \<Rightarrow> 'a machine_scheme \<Rightarrow> string \<Rightarrow> (string \<times> string) list result" where
  "check_tree yaml m root =
     (if is_dir m root then walk_tree yaml m (real_comps m root) root else Inr [])"

text \<open>\<open>main\<close> without its self test: the lines printed and the exit code.\<close>

definition main_frontmatter :: "(string \<Rightarrow> string option) \<Rightarrow> 'a machine_scheme \<Rightarrow> string list \<Rightarrow> (string list \<times> int) result" where
  "main_frontmatter yaml m argv =
     bind_res (check_tree yaml m (case argv of [] \<Rightarrow> ''.'' | a # as \<Rightarrow> a)) (\<lambda>failures.
       Inr (if failures = [] then ([''all markdown frontmatter is valid YAML''], 0)
            else (concat (map (\<lambda>(path, error). [''FAIL: '' @ path, ''  '' @ error]) failures), 1)))"

section \<open>The check by lines\<close>

text \<open>What the check means: the lines between the opening \<open>---\<close> and the next line \<open>---\<close>.\<close>

definition is_rule :: "string \<Rightarrow> bool" where
  "is_rule l \<longleftrightarrow> l = ''---''"

definition check_lines :: "(string \<Rightarrow> string option) \<Rightarrow> string list \<Rightarrow> string option" where
  "check_lines yaml ls =
     (let block = takeWhile (\<lambda>l. \<not> is_rule l) (tl ls) in
      if tl ls = [] \<or> \<not> is_rule (hd ls) then None
      else if block = tl ls then Some unterminated
      else yaml (join [nl] block))"

definition marked :: "string list \<Rightarrow> string" where
  "marked ls = concat (map ((#) nl) ls)"

lemma marked_simps [simp]:
  "marked [] = []" "marked (l # ls) = nl # l @ marked ls" "marked (ls @ ks) = marked ls @ marked ks"
  by (simp_all add: marked_def)

lemma marked_join: "ls \<noteq> [] \<Longrightarrow> marked ls = nl # join [nl] ls"
  by (induction ls rule: induct_list012) simp_all

lemma drop_marked: "drop 1 (marked ls) = join [nl] ls"
  by (cases "ls = []") (simp_all add: marked_join)

definition nl_free :: "string list \<Rightarrow> bool" where
  "nl_free ls \<longleftrightarrow> list_all (\<lambda>l. nl \<notin> set l) ls"

lemma find_at_skip: "nl \<notin> set l \<Longrightarrow> find_at (nl # p) (l @ s) = map_option ((+) (length l)) (find_at (nl # p) s)"
proof (induction l)
  case Nil
  then show ?case
    by (cases "find_at (nl # p) s") simp_all
next
  case (Cons a l)
  then show ?case
    by (cases "find_at (nl # p) s") auto
qed

lemma rule_at: "nl \<notin> set l \<Longrightarrow> prefix (''---'' @ [nl]) (l @ marked ls) \<longleftrightarrow> is_rule l \<and> ls \<noteq> []"
proof -
  assume l: "nl \<notin> set l"
  have "nl \<notin> set ''---''"
    by (simp add: nl_def)
  show ?thesis
  proof
    assume "prefix (''---'' @ [nl]) (l @ marked ls)"
    then obtain z where z: "l @ marked ls = ''---'' @ nl # z"
      by (auto simp: prefix_def)
    have ne: "ls \<noteq> []"
      using z l by (cases "ls = []") auto
    then have "split_first nl (l @ marked ls) = (l, Some (join [nl] ls))"
      using l by (simp add: marked_join split_first_append)
    moreover have "split_first nl (''---'' @ nl # z) = (''---'', Some z)"
      using \<open>nl \<notin> set ''---''\<close> by (rule split_first_append)
    ultimately show "is_rule l \<and> ls \<noteq> []"
      using ne z by (simp add: is_rule_def)
  qed (auto simp: is_rule_def marked_join)
qed

lemma find_at_marked:
  "nl_free ls \<Longrightarrow>
     find_at (nl # ''---'' @ [nl]) (marked ls) =
       (if list_ex is_rule (butlast ls) then Some (length (marked (takeWhile (\<lambda>l. \<not> is_rule l) ls))) else None)"
proof (induction ls)
  case (Cons l ls)
  have free: "nl \<notin> set l" "nl_free ls"
    using Cons.prems by (simp_all add: nl_free_def)
  have step: "find_at (nl # ''---'' @ [nl]) (marked (l # ls)) =
      (if is_rule l \<and> ls \<noteq> [] then Some 0
       else map_option (\<lambda>n. Suc (length l + n)) (find_at (nl # ''---'' @ [nl]) (marked ls)))"
    using rule_at [OF free(1), of ls] find_at_skip [OF free(1), of "''---'' @ [nl]" "marked ls"]
    by (simp add: option.map_comp comp_def)
  show ?case
    using step Cons.IH [OF free(2)] by (cases ls) auto
qed simp

lemma suffix_marked:
  assumes "nl_free ls" "ls \<noteq> []"
  shows "suffix (nl # ''---'') (marked ls) \<longleftrightarrow> is_rule (last ls)"
proof -
  obtain ks l where ls: "ls = ks @ [l]"
    using assms(2) by (cases ls rule: rev_cases) auto
  have l: "nl \<notin> set l"
    using assms(1) ls by (simp add: nl_free_def)
  have "nl \<notin> set (rev ''---'')"
    by (simp add: nl_def)
  then have "split_first nl (rev (nl # ''---'') @ z) = (rev ''---'', Some z)" for z
    using split_first_append [of nl "rev ''---''" z] by simp
  moreover have "split_first nl (rev (marked ls)) = (rev l, Some (rev (marked ks)))"
    using l split_first_append [of nl "rev l" "rev (marked ks)"] by (simp add: ls)
  ultimately have "prefix (rev (nl # ''---'')) (rev (marked ls)) \<longleftrightarrow> rev l = rev ''---''"
    by (auto simp: prefix_def ls simp del: rev.simps)
  then show ?thesis
    by (simp only: suffix_to_prefix is_rule_def ls last_snoc rev_is_rev_conv)
qed

lemma takeWhile_butlast:
  "ls \<noteq> [] \<Longrightarrow> \<not> list_ex P (butlast ls) \<Longrightarrow> P (last ls) \<Longrightarrow> takeWhile (\<lambda>l. \<not> P l) ls = butlast ls"
  by (induction ls) (auto split: if_splits)

lemma takeWhile_all: "\<not> list_ex P ls \<longleftrightarrow> takeWhile (\<lambda>l. \<not> P l) ls = ls"
  by (induction ls) auto

lemma list_ex_butlast: "ls \<noteq> [] \<Longrightarrow> list_ex P ls \<longleftrightarrow> list_ex P (butlast ls) \<or> P (last ls)"
  by (induction ls) auto

lemma slice_block: "slice 4 (3 + length x) (''---'' @ x @ y) = drop 1 x"
  by (simp add: slice_def numeral_eq_Suc)

text \<open>A text whose first line is \<open>---\<close>, followed by the lines \<open>ls\<close>.\<close>

definition opened :: "string list \<Rightarrow> string" where
  "opened ls = ''---'' @ marked ls"

definition block_of :: "string list \<Rightarrow> string list" where
  "block_of ls = takeWhile (\<lambda>l. \<not> is_rule l) ls"

lemma find_close:
  "nl_free ls \<Longrightarrow> find_from ([nl] @ ''---'' @ [nl]) 3 (opened ls) =
     (if list_ex is_rule (butlast ls) then Some (3 + length (marked (block_of ls))) else None)"
  using find_at_marked [of ls] by (simp add: find_from_def opened_def block_of_def)

lemma cut_block: "slice 4 (3 + length (marked (block_of ls))) (opened ls) = join [nl] (block_of ls)"
proof -
  have "marked ls = marked (block_of ls) @ marked (dropWhile (\<lambda>l. \<not> is_rule l) ls)"
    by (simp add: block_of_def flip: marked_simps(3))
  then show ?thesis
    by (simp only: opened_def slice_block drop_marked)
qed

lemma suffix_close:
  assumes "nl_free ls" "ls \<noteq> []"
  shows "suffix ([nl] @ ''---'') (opened ls) \<longleftrightarrow> is_rule (last ls)"
proof -
  have "suffix (nl # ''---'') (nl # opened ls) \<longleftrightarrow> is_rule (last ls)"
    using suffix_marked [of "''---'' # ls"] assms by (simp add: opened_def nl_free_def nl_def)
  then show ?thesis
    using marked_join [OF assms(2)] by (auto simp: suffix_Cons opened_def)
qed

lemma last_close:
  assumes "ls \<noteq> []" "\<not> list_ex is_rule (butlast ls)" "is_rule (last ls)"
  shows "length (opened ls) - 4 = 3 + length (marked (block_of ls))"
proof -
  have "ls = butlast ls @ [last ls]"
    using assms(1) by simp
  then have "marked ls = marked (block_of ls) @ marked [last ls]"
    using takeWhile_butlast [OF assms] marked_simps(3) block_of_def by metis
  then show ?thesis
    using assms(3) by (simp add: opened_def is_rule_def)
qed

lemma check_opened:
  assumes "nl_free ls" "ls \<noteq> []"
  shows "check_content yaml (opened ls) =
    (if list_ex is_rule ls then yaml (join [nl] (block_of ls)) else Some unterminated)"
proof -
  have "prefix (''---'' @ [nl]) (opened ls)"
    using marked_join [OF assms(2)] by (simp add: opened_def)
  then show ?thesis
    using find_close [OF assms(1)] cut_block [of ls] suffix_close [OF assms] last_close [OF assms(2)]
      list_ex_butlast [OF assms(2), of is_rule]
    by (auto simp: check_content_def simp del: append.simps)
qed

lemma check_lines_opened:
  "ls \<noteq> [] \<Longrightarrow> check_lines yaml (''---'' # ls) =
     (if list_ex is_rule ls then yaml (join [nl] (block_of ls)) else Some unterminated)"
  using takeWhile_all [of is_rule ls] by (auto simp: check_lines_def is_rule_def [of "''---''"] block_of_def Let_def)

text \<open>The texts that open with the line are those whose first line it is.\<close>

lemma not_opened:
  assumes "\<not> prefix (''---'' @ [nl]) content"
  shows "tl (split_on nl content) = [] \<or> \<not> is_rule (hd (split_on nl content))"
proof (rule ccontr)
  assume "\<not> ?thesis"
  then obtain l ls where "split_on nl content = ''---'' # l # ls"
    by (cases "split_on nl content"; cases "tl (split_on nl content)") (auto simp: is_rule_def)
  then have "content = ''---'' @ nl # join [nl] (l # ls)"
    using join_split_on [of nl content] by simp
  then show False
    using assms by (simp add: prefix_def)
qed

lemma opened_split:
  assumes "prefix (''---'' @ [nl]) content"
  obtains ls where "split_on nl content = ''---'' # ls" "ls \<noteq> []" "nl_free ls" "content = opened ls"
proof -
  obtain rest where c: "content = ''---'' @ nl # rest"
    using assms by (auto simp: prefix_def)
  let ?ls = "split_on nl rest"
  have "split_on nl content = ''---'' # ?ls" "?ls \<noteq> []" "nl_free ?ls"
    using split_on_free [of _ nl rest]
    by (auto simp: c split_on_append_sep split_on_no_sep nl_free_def list_all_iff nl_def)
  moreover have "content = opened ?ls"
    using marked_join [of ?ls] join_split_on [of nl rest] c by (simp add: opened_def)
  ultimately show ?thesis
    using that by blast
qed

text \<open>
  C36: The check by positions in the text is the check by lines: a document is looked at only if its
  first line is \<open>---\<close> and has an end, it is unterminated when no later line is \<open>---\<close>, and otherwise
  exactly the text between the two lines is given to the parser.
\<close>

theorem check_by_lines: "check_content yaml content = check_lines yaml (split_on nl content)"
proof (cases "prefix (''---'' @ [nl]) content")
  case True
  then show ?thesis
    using check_opened check_lines_opened by (elim opened_split) simp
next
  case False
  then show ?thesis
    using not_opened [OF False] by (auto simp: check_content_def check_lines_def Let_def)
qed

end
