(* ===== verification/Frontmatter_Selftest.thy ===== *)
theory Frontmatter_Selftest
  imports Frontmatter
begin

text \<open>
  The embedded unit tests of \<open>check-frontmatter.py\<close>. They run the real YAML parser; here the parser is
  a parameter and \<open>parser_facts\<close> is what it does with the blocks of the tests.
\<close>

section \<open>One document\<close>

definition lines_text :: "string list \<Rightarrow> string" where
  "lines_text ls = concat (map (\<lambda>l. l @ [nl]) ls)"

definition tab_line :: string where
  "tab_line = [CHR 0x09] @ ''bad: indent''"

definition reports_unterminated :: "string option \<Rightarrow> bool" where
  "reports_unterminated error \<longleftrightarrow> (case error of Some e \<Rightarrow> sublist ''unterminated'' e | None \<Rightarrow> False)"

definition content_tests :: "(string \<Rightarrow> string option) \<Rightarrow> bool list" where
  "content_tests yaml =
     [check_content yaml (lines_text [''# Title'', [], ''body'']) = None,
      check_content yaml (lines_text [''---'', ''name: thing'', ''description: does it'', ''---'', [], ''body'']) = None,
      check_content yaml (lines_text [''---'', ''---'', [], ''body'']) = None,
      check_content yaml (lines_text [''---'', ''name: thing''] @ ''---'') = None,
      reports_unterminated
        (check_content yaml (lines_text [''---'', ''name: thing'', ''description: does it'', [], ''# Title''])),
      reports_unterminated
        (check_content yaml (lines_text [''---'', ''name: thing'', [], ''text --- more text''])),
      (let error = check_content yaml (lines_text [''---'', ''name: [unclosed'', ''---'', [], ''body'']) in
       error \<noteq> None \<and> \<not> reports_unterminated error),
      check_content yaml (lines_text [''---'', ''name: thing'', tab_line, ''---'']) \<noteq> None]"

section \<open>The tree\<close>

text \<open>\<open>write\<close> of the tests: the parent directories and the file; nothing where a call raises.\<close>

definition write_doc :: "string \<Rightarrow> string \<times> string \<Rightarrow> rw_machine \<Rightarrow> rw_machine option" where
  "write_doc root = (\<lambda>(rel, content) m.
     (let path = path_join root rel in
      case makedirs m (dirname path) of
        (m1, made) \<Rightarrow>
          if \<not> made then None
          else (case write_text m1 path content of (m2, ok) \<Rightarrow> if ok then Some m2 else None)))"

fun write_docs :: "string \<Rightarrow> (string \<times> string) list \<Rightarrow> rw_machine \<Rightarrow> rw_machine option" where
  "write_docs root [] m = Some m"
| "write_docs root (d # ds) m =
     (case write_doc root d m of Some m' \<Rightarrow> write_docs root ds m' | None \<Rightarrow> None)"

text \<open>What the check finds in a new directory with the documents.\<close>

definition check_docs :: "(string \<Rightarrow> string option) \<Rightarrow> rw_machine \<Rightarrow> string \<Rightarrow> (string \<times> string) list
     \<Rightarrow> (string \<times> string) list option" where
  "check_docs yaml m root docs =
     (case mkdir m root of
        (m1, made) \<Rightarrow>
          if \<not> made then None
          else
            (case write_docs root docs m1 of
               None \<Rightarrow> None
             | Some m2 \<Rightarrow> (case check_tree yaml m2 root of Inr failures \<Rightarrow> Some failures | Inl e \<Rightarrow> None)))"

definition broken :: string where
  "broken = lines_text [''---'', ''name: broken'', [], ''body'']"

definition mixed_docs :: "(string \<times> string) list" where
  "mixed_docs =
     [(''good.md'', lines_text [''---'', ''name: good'', ''---'', [], ''body'']),
      (''plain.md'', lines_text [''# no frontmatter'']),
      (''nested/broken.md'', broken)]"

definition tree_tests :: "(string \<Rightarrow> string option) \<Rightarrow> rw_machine \<Rightarrow> string \<Rightarrow> bool list" where
  "tree_tests yaml m root =
     [(case check_docs yaml m root mixed_docs of
         Some [(path, error)] \<Rightarrow> suffix ''broken.md'' path
       | _ \<Rightarrow> False),
      check_docs yaml m root [(''.git/hooks/broken.md'', broken)] = Some [],
      (case check_docs yaml m root [(''.github/broken.md'', broken)] of
         Some failures \<Rightarrow> length failures = 1
       | None \<Rightarrow> False),
      check_docs yaml m root [(''broken.txt'', broken)] = Some []]"

section \<open>They pass\<close>

text \<open>What the parser does with the blocks of the tests: it accepts four and reports two.\<close>

definition parser_facts :: "(string \<Rightarrow> string option) \<Rightarrow> bool" where
  "parser_facts yaml \<longleftrightarrow>
     list_all (\<lambda>block. yaml block = None)
       [''name: thing'' @ [nl] @ ''description: does it'', [], ''name: thing'', ''name: good''] \<and>
     yaml ''name: [unclosed'' \<noteq> None \<and> \<not> reports_unterminated (yaml ''name: [unclosed'') \<and>
     yaml (''name: thing'' @ [nl] @ tab_line) \<noteq> None"

lemma content_blocks:
  "check_content yaml (lines_text [''# Title'', [], ''body'']) = None"
  "check_content yaml (lines_text [''---'', ''name: thing'', ''description: does it'', ''---'', [], ''body''])
     = yaml (''name: thing'' @ [nl] @ ''description: does it'')"
  "check_content yaml (lines_text [''---'', ''---'', [], ''body'']) = yaml []"
  "check_content yaml (lines_text [''---'', ''name: thing''] @ ''---'') = yaml ''name: thing''"
  "check_content yaml (lines_text [''---'', ''name: thing'', ''description: does it'', [], ''# Title''])
     = Some unterminated"
  "check_content yaml (lines_text [''---'', ''name: thing'', [], ''text --- more text'']) = Some unterminated"
  "check_content yaml (lines_text [''---'', ''name: [unclosed'', ''---'', [], ''body'']) = yaml ''name: [unclosed''"
  "check_content yaml (lines_text [''---'', ''name: thing'', tab_line, ''---''])
     = yaml (''name: thing'' @ [nl] @ tab_line)"
  by code_simp+

lemma unterminated_reported: "reports_unterminated (Some unterminated)"
  by code_simp

lemma content_tests_hold:
  assumes "parser_facts yaml"
  shows "list_all id (content_tests yaml)"
  using assms unterminated_reported by (simp add: content_tests_def content_blocks parser_facts_def)

definition empty_machine :: rw_machine where
  "empty_machine =
     \<lparr>files = [([''tmp''], Dir)], cwd = [], home = ''/home/u'', users = [], clock = 1, denied = []\<rparr>"

lemma mixed_found:
  "check_docs yaml empty_machine ''/tmp/r'' mixed_docs =
     Some ((case yaml ''name: good'' of
              None \<Rightarrow> []
            | Some error \<Rightarrow> if error \<noteq> [] then [(path_join ''/tmp/r'' ''good.md'', error)] else [])
           @ [(''/tmp/r/nested/broken.md'', unterminated)])"
  by code_simp

lemma others_found:
  "check_docs yaml empty_machine ''/tmp/r'' [(''.git/hooks/broken.md'', broken)] = Some []"
  "check_docs yaml empty_machine ''/tmp/r'' [(''.github/broken.md'', broken)]
     = Some [(''/tmp/r/.github/broken.md'', unterminated)]"
  "check_docs yaml empty_machine ''/tmp/r'' [(''broken.txt'', broken)] = Some []"
  by code_simp+

lemma broken_suffix: "suffix ''broken.md'' ''/tmp/r/nested/broken.md''"
  by code_simp

text \<open>With a parser that does so, all tests pass in an empty temporary directory.\<close>

theorem self_test_frontmatter:
  assumes "parser_facts yaml"
  shows "list_all id (content_tests yaml @ tree_tests yaml empty_machine ''/tmp/r'')"
  using assms content_tests_hold [OF assms] broken_suffix
  by (simp add: tree_tests_def mixed_found others_found parser_facts_def)

text \<open>There is such a parser.\<close>

lemma self_test_frontmatter_witness:
  "list_all id (content_tests yaml @ tree_tests yaml empty_machine ''/tmp/r'')"
  if "yaml = (\<lambda>block. if block = ''name: [unclosed'' \<or> CHR 0x09 \<in> set block then Some ''no YAML'' else None)"
  unfolding that by (rule self_test_frontmatter) code_simp

end
