(* ===== verification/Spec2Isabelle.thy ===== *)
theory Spec2Isabelle
  imports Guard_Properties Guard_Selftest Review_Properties Plan_Selftest Lifecycle_Properties Lifecycle_Selftest
    Ralphex_Properties Ralphex_Selftest Frontmatter_Selftest
begin

text \<open>
  Verification of the Python programs of cc-thingz, a collection of plugins for coding agents. The
  programs are hooks: an agent runs them at certain events, gives a JSON payload on standard input
  and acts on the JSON value printed. They are five scripts and one checker.

  \<^bold>\<open>The programs and how they interact.\<close>
  \<^item> \<open>plugins/planning/scripts/autonomous-exec-hook.py\<close>, the command guard, decides on every tool
    call of an agent: \<open>allow\<close>, \<open>ask\<close>, \<open>force_ask\<close> or no answer. It has a blocklist, an analysis of
    shell commands (Tier 1) and rules for autonomous runs and for subagents.
  \<^item> \<open>plugins/planning/scripts/plan-review-hook.py\<close> opens the implementation plan when the agent
    stops. It runs \<open>revdiff\<close> through a launch script or, without it, \<open>plan-annotate.py\<close> in
    the same directory, whose answer it reads. A hash file keeps a plan from being shown twice.
  \<^item> \<open>plugins/planning/scripts/plan-annotate.py\<close> opens a plan in an editor in a terminal overlay and
    answers with the difference.
  \<^item> \<open>plugins/planning/scripts/ralphex-plans-link-hook.py\<close> links \<open>.ralphex/plans\<close> to the plan
    directory of a project.
  \<^item> \<open>plugins/agterm-ide-launcher/scripts/agterm-lifecycle-hook.py\<close> tells the terminal what the
    agent does and starts a watcher process, a second run of itself; the two processes share
    only the token file of the session.
  \<^item> \<open>.github/scripts/check-frontmatter.py\<close> checks the front matter of the documents of the
    repository.

  \<^bold>\<open>The library under the models.\<close>
  \<^item> \<open>Prelude\<close>: fact collections, lemmas on lists, names of types.
  \<^item> \<open>Py_String\<close>, \<open>Py_Re\<close>, \<open>Py_Json\<close>, \<open>Py_Shlex\<close>, \<open>Py_Difflib\<close>, \<open>Py_Hashlib\<close>: what the scripts use of
    Python's library. \<open>re\<close> is a backtracking matcher proved sound and complete for a
    declarative matching relation; \<open>shlex.split\<close> undoes \<open>shlex.quote\<close>; the operations of \<open>difflib\<close>
    rebuild both texts; SHA-256 is computed on 32-bit words.
  \<^item> \<open>Os_Fs\<close>, \<open>Os_Write\<close>, \<open>Os_Tree\<close>: a tree of files, directories and symbolic links, path
    resolution as in \<open>posixpath.realpath\<close>, the calls that change the tree, and the tree as a
    transition system with its invariant.
  \<^item> \<open>Named_Store\<close>: the contract of a store of named contents as a locale, interpreted on the
    association lists that hold the tree, the token files and the temporary files. The second
    locale, \<open>pattern_search\<close> of \<open>Guard_Danger\<close>, is what the blocklist needs of a search, and is
    interpreted on the search of \<open>Py_Re\<close>.

  \<^bold>\<open>State.\<close> A program acts on a record: \<open>machine\<close> (tree, working directory, home, clock) is extended
  to \<open>hook_machine\<close> of the guard (marker variable, subagent cache, answers of \<open>agentapi\<close>), to
  \<open>life_machine\<close> of the session hook (environment, commands sent, watchers started, token files)
  and to \<open>rw_machine\<close> (directories that may not be changed), which \<open>link_machine\<close>,
  \<open>desk\<close> of \<open>plan-annotate.py\<close> and from it \<open>review_desk\<close> of \<open>plan-review-hook.py\<close> extend. Exceptions
  are values of a sum type; an operation returns the record as it leaves it.

  \<^bold>\<open>The command guard.\<close> \<open>Guard_Danger\<close> has \<open>DANGEROUS_PATTERNS\<close> and \<open>is_dangerous_command\<close>,
  \<open>Guard_Targets\<close> \<open>is_safe_special_target\<close> and \<open>is_anchored_plugin_script\<close>, \<open>Guard_Redirect\<close>
  \<open>strip_heredocs\<close> and \<open>check_and_strip_redirections\<close>, \<open>Guard_Scanner\<close> the loops of
  \<open>resolve_and_validate_subcommands\<close> and \<open>split_command_segments\<close>, \<open>Guard_Prepare\<close> and \<open>Guard_Segment\<close>
  the two halves of \<open>is_safe_segment\<close>, \<open>Guard_Tier1\<close> \<open>evaluate_tier1_command\<close>, \<open>Guard_Workspace\<close> the
  marker, the workspaces and the path tests on the tree, \<open>Guard_Hook\<close> the subagents, \<open>evaluate_hook\<close>
  and \<open>main\<close> with the audit log. \<open>Guard_Runs\<close> is the relation of many calls with changes of the world
  between them and what its cache and its log tell. \<open>Guard_Words\<close>, \<open>Guard_Plain\<close> and
  \<open>Guard_Script\<close> work out what the preparation and the scanners do to plain commands and to sequences
  of them: programs with ordinary or quoted arguments and with redirections of their output. So a
  verdict on text is a verdict on words and on the targets of redirections. Three theories say what the
  guard finds in any text: \<open>Guard_Blocklist\<close> reads the patterns for pushes and for removals of a root off the
  words of a command, \<open>Guard_Nesting\<close> relates the end and the approval of command substitutions to a grammar
  of balanced text, and \<open>Guard_Outputs\<close> shows that an unsafe redirection is refused. The segment splitter is
  related to an independent automaton of shell quoting. The properties in \<open>Guard_Properties\<close> say what an
  approval means: nothing on the blocklist passes, redirections and the file names of writing programs are
  confined, programs are known, \<open>push\<close> after the listed options and the listed flags are refused,
  substituted commands are approved themselves, and failures ask. They also say where this ends:
  the word lists and spellings are in the statements, and the section on gaps shows command lines that are
  approved and should not be, three of them as properties (an option the guard does not know, the text of an
  arithmetic expansion, the redirection \<^verbatim>\<open>1>&FILE\<close>, for which \<open>Guard_Unchecked\<close> has the lemmas).

  \<^bold>\<open>The plan hooks.\<close> \<open>Plan_Annotate\<close> and \<open>Plan_Review\<close> hold the two programs, \<open>Plan_Diff\<close> a reader of
  differences, \<open>Plan_Properties\<close> and \<open>Review_Properties\<close> the properties: the edited plan can be rebuilt
  from the difference, no temporary copy is left, the hook returns when the sentinel appears, an edit
  in the fallback makes the agent go on with the difference, and a plan that was allowed is
  settled by the hash file, which is the only file the hook writes.

  \<^bold>\<open>The link hook.\<close> \<open>Ralphex_Link\<close> holds the program, \<open>Ralphex_Properties\<close> its properties: which
  \<open>.ralphex\<close> directory is taken, that every file and link stays, and where the new link leads.

  \<^bold>\<open>The session hook.\<close> \<open>Lifecycle\<close> has the configuration and the events (\<open>main\<close> of the script),
  \<open>Lifecycle_Watcher\<close> the loop \<open>run_watcher\<close> and the relation \<open>session_step\<close>, in which the reads and
  announcements of a watcher interleave with the events of its session; \<open>Lifecycle_Properties\<close> says
  what an event does, what a watcher announces, that it ends, and that a stop silences it.

  \<^bold>\<open>The checker.\<close> \<open>Frontmatter\<close> has the check of one document, its equivalence to a check by lines,
  and the walk over a tree.

  \<^bold>\<open>The embedded self tests.\<close> \<open>Guard_Selftest\<close>, \<open>Lifecycle_Selftest\<close>, \<open>Plan_Selftest\<close>,
  \<open>Frontmatter_Selftest\<close> and \<open>Ralphex_Selftest\<close> hold the tests that each script runs on \<open>--test\<close>, and
  show that the models pass them: for the guard, the session hook and \<open>plan-annotate.py\<close> on every
  machine on which what the test takes for granted holds, the hypotheses saying what that is; for the
  checker with every parser that does what the tests expect; for the link hook on two trees.
  \<open>Guard_User_Commands\<close> has the long command lines that the guard must approve.

  \<^bold>\<open>Bounds and termination.\<close> Tier 1 recurses through substitutions to depth 4, as the code does, and
  its function is total; preparing a segment never adds visible characters, which ends the
  recursion through \<open>xargs\<close>. A watcher makes at most 21600 checks, the bound of the code. Path
  resolution ends because a link is followed once. The loops over text and tokens have measures.
  Waiting for the sentinel of an editor can last for ever and is a partial function; a property says when
  it returns. No fuel is used anywhere.

  \<^bold>\<open>Parameters.\<close> Programs that are not Python code of the repository are functions or
  recorded replies in the state: \<open>git\<close>, \<open>hg\<close> and the resolver script (\<open>tool\<close>), the launch script,
  editors and terminals (\<open>program\<close>), \<open>agentapi\<close>, \<open>agtermctl\<close>, and the YAML parser (\<open>yaml\<close>).

  \<^bold>\<open>Not modelled.\<close> Characters are code points below 256. The time stamp of an audit entry,
  the time that passes between two looks and the argument parsers are left out. A write through
  a dangling link fails in the model, and a file that fails to decode halfway is not
  modelled. A path with a null character, which Python refuses with an exception, is a path like any other;
  the number format and floats of JSON and permission to read are not modelled; a watcher is recorded
  when it is asked for, whether the process then starts or not. After an empty match the search of \<open>Py_Re\<close> goes on one character later, which no pattern here can
  tell from Python's rule, since none matches the empty text. The script that replays recorded conversations
  against the guard (\<open>test-autonomous-exec-replay.py\<close>) only calls the hook on files of the machine it
  runs on. The shell scripts
  (rule and project resolvers, launchers, status lines, the installer) are not Python;
  the benchmark fixtures are input of a benchmark and not part of the plugins.
\<close>

section \<open>The file tree\<close>

text \<open>
  The two hooks that change the file tree do nothing but make entries in directories, remove empty
  directories and replace the content of files, so they keep the tree well formed: every entry has a
  proper name and lies in a directory, and none is there twice.
\<close>

lemma hooks_keep_tree:
  "tree_ok (files m) \<Longrightarrow> main_link m payload = (out, m', log) \<Longrightarrow> tree_ok (files m')"
  "tree_ok (files d) \<Longrightarrow> main_review d event = (d', r) \<Longrightarrow> tree_ok (files d')"
  using tree_steps_ok main_link_steps main_review_tree by blast+

end
